(* ===== verification/LR_Prelude.thy ===== *)
theory LR_Prelude
  imports
    Main
    "HOL-Library.Word"
    "HOL-Library.Product_Lexorder"
    "HOL-Library.List_Lexorder"
    "HOL-Library.Option_ord"
begin

unbundle bit_operations_syntax

text \<open>
  Shared vocabulary of the development: the machine integers of the Rust sources, the
  conversions between byte arrays and words (\<open>from_be_bytes\<close>, \<open>to_be_bytes\<close>), the bit
  view of byte arrays that the address and trie theories reason with, saturating arithmetic,
  Rust's three-valued \<open>Ordering\<close> and the standard-library operations on comparators
  (\<open>min_by\<close>, the stable \<open>sort_by\<close>).  The locale \<open>comparator\<close> states what a
  comparison function has to satisfy and proves once what \<open>min_by\<close> and \<open>sort_by\<close>
  then deliver.
\<close>

section \<open>Machine integers\<close>

type_synonym u8 = "8 word"
type_synonym u16 = "16 word"
type_synonym u32 = "32 word"
type_synonym u64 = "64 word"
type_synonym u128 = "128 word"
type_synonym bytes = "u8 list"

named_theorems bits_simps \<open>bit-level characterisations of byte and word operations\<close>
named_theorems bt_simps \<open>lookup laws of the ordered-map operations\<close>

text \<open>\<open>saturating_add\<close> and \<open>saturating_sub\<close> of the unsigned integer types.\<close>

definition saturating_add :: "'a::len word \<Rightarrow> 'a word \<Rightarrow> 'a word" where
  "saturating_add a b = (if unat a + unat b < 2 ^ LENGTH('a) then a + b else - 1)"

definition saturating_sub :: "'a::len word \<Rightarrow> 'a word \<Rightarrow> 'a word" where
  "saturating_sub a b = (if b \<le> a then a - b else 0)"

lemma unat_max: "unat (- 1 :: 'a::len word) = 2 ^ LENGTH('a) - 1"
  by (simp add: unsigned_minus_1_eq_mask mask_eq_exp_minus_1)

lemma unat_saturating_add:
  "unat (saturating_add a (b :: 'a::len word)) = min (unat a + unat b) (2 ^ LENGTH('a) - 1)"
  using unsigned_less[of a] unsigned_less[of b]
  by (auto simp: saturating_add_def unat_word_ariths unat_max min_def)

lemma saturating_add_ge: "a \<le> saturating_add a (b :: 'a::len word)"
proof -
  have "unat a < 2 ^ LENGTH('a)" by (rule unsigned_less)
  then have "unat a \<le> 2 ^ LENGTH('a) - 1" by linarith
  then show ?thesis by (simp add: word_le_nat_alt unat_saturating_add)
qed

lemma saturating_add_gt:
  assumes "0 < b" and "a < (- 1 :: 'a::len word)"
  shows "a < saturating_add a b"
proof -
  have "0 < unat b" using assms(1) by (simp add: word_less_nat_alt)
  moreover have "unat a < 2 ^ LENGTH('a) - 1"
    using assms(2) by (simp add: word_less_nat_alt unat_max)
  ultimately show ?thesis by (simp add: word_less_nat_alt unat_saturating_add)
qed

lemma unat_saturating_sub: "unat (saturating_sub a (b :: 'a::len word)) = unat a - unat b"
  by (auto simp: saturating_sub_def unat_sub word_le_nat_alt)

section \<open>Byte arrays, words and their bits\<close>

definition from_be_bytes :: "bytes \<Rightarrow> 'a::len word" where
  "from_be_bytes bs = foldl (\<lambda>acc b. push_bit 8 acc OR ucast b) 0 bs"

definition to_be_bytes :: "nat \<Rightarrow> 'a::len word \<Rightarrow> bytes" where
  "to_be_bytes n w = map (\<lambda>i. ucast (drop_bit (8 * (n - 1 - i)) w)) [0..<n]"

text \<open>Bits of a byte array and of a word, most significant first.\<close>

definition bits_of :: "bytes \<Rightarrow> bool list" where
  "bits_of bs = concat (map (\<lambda>b. map (\<lambda>i. bit b (7 - i)) [0..<8]) bs)"

definition word_bits :: "'a::len word \<Rightarrow> bool list" where
  "word_bits w = map (\<lambda>i. bit w (LENGTH('a) - 1 - i)) [0..<LENGTH('a)]"

lemma length_to_be_bytes [simp]: "length (to_be_bytes n w) = n"
  by (simp add: to_be_bytes_def)

lemma length_bits_of [simp]: "length (bits_of bs) = 8 * length bs"
  by (induction bs) (auto simp: bits_of_def)

lemma bits_of_simps [simp]:
  "bits_of [] = []"
  "bits_of (b # bs) = map (\<lambda>i. bit b (7 - i)) [0..<8] @ bits_of bs"
  by (simp_all add: bits_of_def)

lemma length_word_bits [simp]: "length (word_bits (w :: 'a::len word)) = LENGTH('a)"
  by (simp add: word_bits_def)

lemma nth_word_bits [simp]:
  "i < LENGTH('a) \<Longrightarrow> word_bits (w :: 'a::len word) ! i = bit w (LENGTH('a) - 1 - i)"
  by (simp add: word_bits_def)

lemma nth_bits_of:
  "i < 8 * length bs \<Longrightarrow> bits_of bs ! i = bit (bs ! (i div 8)) (7 - i mod 8)"
proof (induction bs arbitrary: i)
  case Nil
  then show ?case by simp
next
  case (Cons b bs)
  show ?case
  proof (cases "i < 8")
    case True
    then show ?thesis by (simp add: nth_append)
  next
    case False
    then have "i div 8 = Suc ((i - 8) div 8)" "i mod 8 = (i - 8) mod 8"
      by (simp_all add: div_if mod_if)
    with False Cons show ?thesis by (simp add: nth_append)
  qed
qed

lemma from_be_bytes_snoc:
  "from_be_bytes (bs @ [b]) = push_bit 8 (from_be_bytes bs) OR (ucast b :: 'a::len word)"
  by (simp add: from_be_bytes_def)

lemma bit_from_be_bytes [bits_simps]:
  "bit (from_be_bytes bs :: 'a::len word) i \<longleftrightarrow>
     i < LENGTH('a) \<and> i < 8 * length bs \<and> bit (bs ! (length bs - 1 - i div 8)) (i mod 8)"
proof (induction bs arbitrary: i rule: rev_induct)
  case Nil
  then show ?case by (simp add: from_be_bytes_def)
next
  case (snoc b bs)
  show ?case
  proof (cases "i < 8")
    case True
    then show ?thesis
      by (auto simp: from_be_bytes_snoc bit_or_iff bit_push_bit_iff bit_ucast_iff nth_append)
  next
    case False
    have nb: "\<not> bit b i" using False by (auto dest: bit_imp_le_length)
    from False have d: "i div 8 = Suc ((i - 8) div 8)" and m: "i mod 8 = (i - 8) mod 8"
      by (simp_all add: div_if mod_if)
    have "i < 8 + 8 * length bs \<Longrightarrow> length bs - i div 8 < length bs"
      using d by (cases "length bs") simp_all
    with False show ?thesis
      by (auto simp: from_be_bytes_snoc bit_or_iff bit_push_bit_iff bit_ucast_iff nb
          snoc.IH nth_append d m dest: bit_imp_le_length)
  qed
qed

lemma byte_index:
  assumes "i < 8 * (n :: nat)"
  shows "(8 * n - 1 - i) div 8 = n - 1 - i div 8"
    and "(8 * n - 1 - i) mod 8 = 7 - i mod 8"
    and "8 * (n - 1 - i div 8) + (7 - i mod 8) = 8 * n - 1 - i"
proof -
  define q r where "q = i div 8" and "r = i mod 8"
  have i: "i = 8 * q + r" and r: "r < 8" by (simp_all add: q_def r_def)
  have "q < n" using assms by (simp add: q_def less_mult_imp_div_less mult.commute)
  then obtain k where n: "n = q + 1 + k" by (metis Suc_eq_plus1 Suc_leI le_Suc_ex)
  have e: "8 * n - 1 - i = 8 * k + (7 - r)" using r by (simp add: n i algebra_simps)
  obtain t where t: "7 - r = t" "t < 8" by simp
  show "(8 * n - 1 - i) div 8 = n - 1 - i div 8"
    unfolding e t(1) q_def[symmetric] using t(2) n by simp
  show "(8 * n - 1 - i) mod 8 = 7 - i mod 8"
    unfolding e r_def[symmetric] t(1) using t(2) by simp
  show "8 * (n - 1 - i div 8) + (7 - i mod 8) = 8 * n - 1 - i"
    unfolding e q_def[symmetric] r_def[symmetric] using n by simp
qed

lemma word_bits_from_be_bytes:
  assumes "8 * length bs = LENGTH('a)"
  shows "word_bits (from_be_bytes bs :: 'a::len word) = bits_of bs"
proof (rule nth_equalityI)
  show "length (word_bits (from_be_bytes bs :: 'a word)) = length (bits_of bs)"
    using assms by simp
  fix i
  assume "i < length (word_bits (from_be_bytes bs :: 'a word))"
  then have L: "i < LENGTH('a)" and i: "i < 8 * length bs" using assms by simp_all
  have "word_bits (from_be_bytes bs :: 'a word) ! i
      = bit (from_be_bytes bs :: 'a word) (8 * length bs - 1 - i)"
    using L by (simp only: nth_word_bits assms)
  also have "\<dots> = bit (bs ! (length bs - 1 - (length bs - 1 - i div 8))) (7 - i mod 8)"
    using i L unfolding bit_from_be_bytes byte_index(1,2)[OF i] assms[symmetric] by auto
  also have "length bs - 1 - (length bs - 1 - i div 8) = i div 8" using i by auto
  also have "bit (bs ! (i div 8)) (7 - i mod 8) = bits_of bs ! i"
    by (rule nth_bits_of[OF i, symmetric])
  finally show "word_bits (from_be_bytes bs :: 'a word) ! i = bits_of bs ! i" .
qed

lemma nth_to_be_bytes:
  "j < n \<Longrightarrow> bit (to_be_bytes n (w :: 'a::len word) ! j) k \<longleftrightarrow> k < 8 \<and> bit w (8 * (n - 1 - j) + k)"
  by (auto simp: to_be_bytes_def bit_ucast_iff bit_drop_bit_eq)

lemma bits_of_to_be_bytes:
  assumes "8 * n = LENGTH('a)"
  shows "bits_of (to_be_bytes n (w :: 'a::len word)) = word_bits w"
proof (rule nth_equalityI)
  show "length (bits_of (to_be_bytes n w)) = length (word_bits w)"
    using assms by simp
  fix i
  assume "i < length (bits_of (to_be_bytes n w))"
  then have i: "i < 8 * n" and L: "i < LENGTH('a)" using assms by simp_all
  then have j: "i div 8 < n" by auto
  have "bits_of (to_be_bytes n w) ! i = bit (to_be_bytes n w ! (i div 8)) (7 - i mod 8)"
    using i by (simp add: nth_bits_of)
  also have "\<dots> = bit w (8 * (n - 1 - i div 8) + (7 - i mod 8))"
    using j by (subst nth_to_be_bytes) auto
  also have "\<dots> = bit w (LENGTH('a) - 1 - i)" by (simp only: byte_index(3)[OF i] assms)
  also have "\<dots> = word_bits w ! i" using L by simp
  finally show "bits_of (to_be_bytes n w) ! i = word_bits w ! i" .
qed

lemma word_bits_inject: "word_bits v = word_bits w \<longleftrightarrow> v = (w :: 'a::len word)"
proof
  assume eq: "word_bits v = word_bits w"
  show "v = w"
  proof (rule bit_word_eqI)
    fix n assume "n < LENGTH('a)"
    then have "word_bits v ! (LENGTH('a) - 1 - n) = bit v n"
      and "word_bits w ! (LENGTH('a) - 1 - n) = bit w n" by simp_all
    with eq show "bit v n = bit w n" by simp
  qed
qed simp

lemma bits_of_inject: "bits_of as = bits_of bs \<longleftrightarrow> as = bs"
proof
  assume eq: "bits_of as = bits_of bs"
  then have len: "length as = length bs" by (metis length_bits_of mult_left_cancel zero_neq_numeral)
  show "as = bs"
  proof (rule nth_equalityI[OF len])
    fix j assume j: "j < length as"
    show "as ! j = bs ! j"
    proof (rule bit_word_eqI)
      fix n assume n: "n < LENGTH(8)"
      let ?i = "8 * j + (7 - n)"
      obtain t where t: "7 - n = t" "t < 8" by simp
      then have "?i div 8 = j" "?i mod 8 = 7 - n" by simp_all
      moreover have "?i < 8 * length as" using j n by simp
      ultimately show "bit (as ! j) n = bit (bs ! j) n"
        using eq nth_bits_of[of ?i as] nth_bits_of[of ?i bs] len n by simp
    qed
  qed
qed simp

lemma from_to_be_bytes:
  assumes "8 * n = LENGTH('a)"
  shows "from_be_bytes (to_be_bytes n w) = (w :: 'a::len word)"
  using word_bits_from_be_bytes[of "to_be_bytes n w", where ?'a = 'a] bits_of_to_be_bytes[OF assms]
  by (simp add: assms word_bits_inject)

lemma to_from_be_bytes:
  assumes "8 * length bs = LENGTH('a)"
  shows "to_be_bytes (length bs) (from_be_bytes bs :: 'a::len word) = bs"
  using word_bits_from_be_bytes[OF assms] bits_of_to_be_bytes[OF assms, of "from_be_bytes bs"]
  by (simp add: bits_of_inject)

section \<open>Orderings and comparators\<close>

text \<open>\<open>core::cmp::Ordering\<close>, \<open>Ord::cmp\<close> and \<open>Ordering::reverse\<close>.\<close>

datatype ordering = Less | Equal | Greater

definition cmp :: "'a::linorder \<Rightarrow> 'a \<Rightarrow> ordering" where
  "cmp a b = (if a < b then Less else if a = b then Equal else Greater)"

fun reverse :: "ordering \<Rightarrow> ordering" where
  "reverse Less = Greater"
| "reverse Equal = Equal"
| "reverse Greater = Less"

text \<open>Early-return chaining of comparison steps: \<open>if o != Equal { return o }\<close>.\<close>

definition then_cmp :: "ordering \<Rightarrow> ordering \<Rightarrow> ordering" where
  "then_cmp p q = (if p \<noteq> Equal then p else q)"

text \<open>
  \<open>Iterator::min_by\<close> keeps the first of several minima; \<open>slice::sort_by\<close> is a stable
  sort.  For a comparator that is not a total preorder Rust leaves the result of \<open>sort_by\<close>
  unspecified (it may panic); the insertion sort below is one admissible stable sort.
\<close>

fun min_by :: "('a \<Rightarrow> 'a \<Rightarrow> ordering) \<Rightarrow> 'a list \<Rightarrow> 'a option" where
  "min_by c [] = None"
| "min_by c (x # xs) = Some (foldl (\<lambda>m y. if c m y = Greater then y else m) x xs)"

fun insert_by :: "('a \<Rightarrow> 'a \<Rightarrow> ordering) \<Rightarrow> 'a \<Rightarrow> 'a list \<Rightarrow> 'a list" where
  "insert_by c x [] = [x]"
| "insert_by c x (y # ys) = (if c x y = Greater then y # insert_by c x ys else x # y # ys)"

fun sort_by :: "('a \<Rightarrow> 'a \<Rightarrow> ordering) \<Rightarrow> 'a list \<Rightarrow> 'a list" where
  "sort_by c [] = []"
| "sort_by c (x # xs) = insert_by c x (sort_by c xs)"

lemma cmp_simps [simp]:
  "cmp a b = Less \<longleftrightarrow> a < b" "cmp a b = Equal \<longleftrightarrow> a = b" "cmp a b = Greater \<longleftrightarrow> b < a"
  "cmp a a = Equal"
  by (auto simp: cmp_def)

lemma then_cmp_simps [simp]:
  "then_cmp Equal q = q" "then_cmp p q = Equal \<longleftrightarrow> p = Equal \<and> q = Equal"
  by (auto simp: then_cmp_def)

lemma reverse_simps [simp]:
  "reverse p = Equal \<longleftrightarrow> p = Equal" "reverse p = Less \<longleftrightarrow> p = Greater"
  "reverse p = Greater \<longleftrightarrow> p = Less" "reverse (reverse p) = p"
  by (cases p; simp)+

lemma reverse_cmp [simp]: "reverse (cmp a b) = cmp b a"
  by (auto simp: cmp_def)

lemma cmp_pair: "cmp (a, b) (c, d) = then_cmp (cmp a c) (cmp b d)"
  by (auto simp: cmp_def then_cmp_def)

lemma set_insert_by [simp]: "set (insert_by c x xs) = insert x (set xs)"
  by (induction xs) auto

lemma set_sort_by [simp]: "set (sort_by c xs) = set xs"
  by (induction xs) auto

lemma length_insert_by [simp]: "length (insert_by c x xs) = Suc (length xs)"
  by (induction xs) auto

lemma length_sort_by [simp]: "length (sort_by c xs) = length xs"
  by (induction xs) auto

lemma min_by_in_set: "min_by c xs = Some m \<Longrightarrow> m \<in> set xs"
proof (cases xs)
  case (Cons x ys)
  have "foldl (\<lambda>m y. if c m y = Greater then y else m) x ys \<in> insert x (set ys)"
    by (induction ys arbitrary: x) auto
  then show "min_by c xs = Some m \<Longrightarrow> m \<in> set xs" using Cons by auto
qed simp

text \<open>
  A comparator is a total preorder given by a three-valued comparison.  Everything the
  library promises of \<open>min_by\<close> and \<open>sort_by\<close> follows from these two laws.
\<close>

locale comparator =
  fixes c :: "'a \<Rightarrow> 'a \<Rightarrow> ordering"
  assumes swap: "c y x = reverse (c x y)"
    and trans: "c x y \<noteq> Greater \<Longrightarrow> c y z \<noteq> Greater \<Longrightarrow> c x z \<noteq> Greater"
begin

lemma refl: "c x x = Equal"
  using swap[of x x] by (cases "c x x") auto

lemma total: "c x y \<noteq> Greater \<or> c y x \<noteq> Greater"
  using swap[of x y] by (cases "c x y") auto

lemma foldl_min:
  "z \<in> insert x (set xs) \<Longrightarrow>
   c (foldl (\<lambda>m y. if c m y = Greater then y else m) x xs) z \<noteq> Greater"
proof (induction xs arbitrary: x z)
  case Nil
  then show ?case by (simp add: refl)
next
  case (Cons y ys)
  define x' where "x' = (if c x y = Greater then y else x)"
  have x': "c x' x \<noteq> Greater" "c x' y \<noteq> Greater"
    using refl swap[of y x] by (auto simp: x'_def)
  let ?m = "foldl (\<lambda>m y. if c m y = Greater then y else m) x' ys"
  have m: "c ?m x' \<noteq> Greater" by (rule Cons.IH) simp
  consider "z = x" | "z = y" | "z \<in> set ys" using Cons.prems by auto
  then have "c ?m z \<noteq> Greater"
  proof cases
    case 1
    show ?thesis unfolding 1 by (rule trans[OF m x'(1)])
  next
    case 2
    show ?thesis unfolding 2 by (rule trans[OF m x'(2)])
  next
    case 3
    show ?thesis by (rule Cons.IH) (simp add: 3)
  qed
  then show ?case by (simp add: x'_def)
qed

lemma min_by_least:
  assumes "min_by c xs = Some m" and "x \<in> set xs"
  shows "c m x \<noteq> Greater"
  using assms foldl_min[of x] by (cases xs) auto

lemma min_by_unique:
  assumes "min_by c xs = Some m" and "min_by c ys = Some n" and "set xs = set ys"
  shows "c m n = Equal"
proof -
  have "m \<in> set ys" "n \<in> set xs" using assms min_by_in_set by metis+
  then have "c m n \<noteq> Greater" "c n m \<noteq> Greater"
    using assms min_by_least by blast+
  then show ?thesis using swap[of n m] by (cases "c m n") auto
qed

lemma sorted_insert_by:
  "sorted_wrt (\<lambda>a b. c a b \<noteq> Greater) xs \<Longrightarrow>
   sorted_wrt (\<lambda>a b. c a b \<noteq> Greater) (insert_by c x xs)"
proof (induction xs)
  case (Cons y ys)
  have "c x z \<noteq> Greater" if "c x y \<noteq> Greater" "z \<in> set ys" for z
    using that Cons.prems trans[of x y z] by simp
  with Cons swap[of y x] show ?case by auto
qed simp

lemma sorted_sort_by: "sorted_wrt (\<lambda>a b. c a b \<noteq> Greater) (sort_by c xs)"
  by (induction xs) (auto intro: sorted_insert_by)

lemma hd_insert_by:
  assumes "xs \<noteq> []"
  shows "hd (insert_by c x xs) = (if c x (hd xs) = Greater then hd xs else x)"
  using assms by (cases xs) auto

lemma pick_assoc:
  "(let m = (if c x y = Greater then y else x) in if c m z = Greater then z else m) =
   (let m = (if c y z = Greater then z else y) in if c x m = Greater then m else x)"
proof -
  have "c x z = Greater" if "c x y = Greater" "c y z = Greater"
    using that trans[of x z y] swap[of z y] by auto
  moreover have "c y z = Greater" if "c x y \<noteq> Greater" "c x z = Greater"
    using that trans by blast
  ultimately show ?thesis by (auto simp: Let_def)
qed

lemma foldl_min_assoc:
  "foldl (\<lambda>m y. if c m y = Greater then y else m) x (y # ys) =
   (let m = foldl (\<lambda>m y. if c m y = Greater then y else m) y ys
    in if c x m = Greater then m else x)"
proof (induction ys arbitrary: x y)
  case (Cons z zs)
  let ?f = "\<lambda>m y. if c m y = Greater then y else m"
  have "foldl ?f x (y # z # zs) = foldl ?f (?f x y) (z # zs)" by simp
  also have "\<dots> = ?f (?f x y) (foldl ?f z zs)" by (simp only: Cons Let_def)
  also have "\<dots> = ?f x (?f y (foldl ?f z zs))" by (rule pick_assoc[unfolded Let_def])
  also have "\<dots> = ?f x (foldl ?f y (z # zs))" by (simp only: Cons Let_def)
  finally show ?case by (simp only: Let_def)
qed simp

text \<open>The head of the stable ranking is the element \<open>min_by\<close> selects.\<close>

lemma hd_sort_by: "xs \<noteq> [] \<Longrightarrow> min_by c xs = Some (hd (sort_by c xs))"
proof (induction xs)
  case (Cons x xs)
  show ?case
  proof (cases xs)
    case (Cons y ys)
    then have "min_by c xs = Some (hd (sort_by c xs))" using Cons.IH by blast
    moreover have "sort_by c xs \<noteq> []" using Cons by (metis length_sort_by length_0_conv list.distinct(1))
    ultimately show ?thesis using Cons foldl_min_assoc[of x y ys]
      by (auto simp: hd_insert_by Let_def)
  qed simp
qed simp

end

text \<open>Comparing by a key of a linearly ordered type is a comparator.\<close>

locale key_comparator =
  fixes c :: "'a \<Rightarrow> 'a \<Rightarrow> ordering"
    and key :: "'a \<Rightarrow> 'k::linorder"
  assumes by_key: "c x y = cmp (key x) (key y)"
begin

lemma is_comparator: "comparator c"
  by (unfold_locales) (auto simp: by_key cmp_def split: if_splits)

lemma stable_key: "c x y = Equal \<longleftrightarrow> key x = key y"
  by (simp add: by_key)

end

sublocale key_comparator \<subseteq> comparator
  by (rule is_comparator)

end
