(* ===== verification/LR_Addr.thy ===== *)
theory LR_Addr
  imports LR_Prelude
begin

text \<open>
  Addressing primitives of \<open>crates/lr-core/src/addr.rs\<close>: \<open>IpAddr\<close>, \<open>Prefix\<close> with
  \<open>network\<close>, \<open>contains\<close> and \<open>contains_prefix\<close>, \<open>IpNet\<close>, \<open>Asn\<close>, and the IPv4
  text form.  The IPv4 code masks a 32-bit word and the IPv6 code works byte by byte with a
  partial byte at the boundary; both are shown to implement the same statement about address
  bits (\<open>ip_bits\<close>, most significant first), which is what the RIB and ROA theories use.
  A byte array \<open>[u8; N]\<close> is a list whose length \<open>ip_wf\<close> fixes.
\<close>

unbundle bit_operations_syntax

section \<open>Addresses\<close>

datatype ip_addr = V4 bytes | V6 bytes

fun is_ipv4 :: "ip_addr \<Rightarrow> bool" where
  "is_ipv4 (V4 _) = True"
| "is_ipv4 (V6 _) = False"

fun is_ipv6 :: "ip_addr \<Rightarrow> bool" where
  "is_ipv6 (V4 _) = False"
| "is_ipv6 (V6 _) = True"

fun octets :: "ip_addr \<Rightarrow> bytes" where
  "octets (V4 b) = b"
| "octets (V6 b) = b"

fun ip_wf :: "ip_addr \<Rightarrow> bool" where
  "ip_wf (V4 b) = (length b = 4)"
| "ip_wf (V6 b) = (length b = 16)"

fun is_unspecified :: "ip_addr \<Rightarrow> bool" where
  "is_unspecified (V4 b) = (b = replicate 4 0)"
| "is_unspecified (V6 b) = (b = replicate 16 0)"

fun is_multicast :: "ip_addr \<Rightarrow> bool" where
  "is_multicast (V4 b) = (b ! 0 AND 0xf0 = 0xe0)"
| "is_multicast (V6 b) = (b ! 0 = 0xff)"

definition ip_from_bytes :: "bytes \<Rightarrow> ip_addr option" where
  "ip_from_bytes b =
     (if length b = 4 then Some (V4 b) else if length b = 16 then Some (V6 b) else None)"

fun is_ipv4_mapped_ipv6 :: "ip_addr \<Rightarrow> bool" where
  "is_ipv4_mapped_ipv6 (V6 b) =
     (take 10 b = replicate 10 0 \<and> take 2 (drop 10 b) = [0xff, 0xff])"
| "is_ipv4_mapped_ipv6 (V4 b) = False"

fun to_ipv4_mapped :: "ip_addr \<Rightarrow> ip_addr" where
  "to_ipv4_mapped (V4 b) = V6 (replicate 10 0 @ [0xff, 0xff] @ b)"
| "to_ipv4_mapped (V6 b) = V6 b"

text \<open>The derived \<open>Ord\<close>: variants in declaration order, then the bytes lexicographically.\<close>

fun ip_key :: "ip_addr \<Rightarrow> nat \<times> bytes" where
  "ip_key (V4 b) = (0, b)"
| "ip_key (V6 b) = (1, b)"

lemma ip_key_inject: "ip_key a = ip_key b \<longleftrightarrow> a = b"
  by (cases a; cases b) auto

instantiation ip_addr :: linorder
begin

definition less_eq_ip_addr :: "ip_addr \<Rightarrow> ip_addr \<Rightarrow> bool" where
  "less_eq_ip_addr a b \<longleftrightarrow> ip_key a \<le> ip_key b"

definition less_ip_addr :: "ip_addr \<Rightarrow> ip_addr \<Rightarrow> bool" where
  "less_ip_addr a b \<longleftrightarrow> ip_key a < ip_key b"

instance
  by standard
    (auto simp: less_eq_ip_addr_def less_ip_addr_def ip_key_inject[symmetric] less_le_not_le
      intro: order_trans)

end

text \<open>Bits of an address and the width of its family.\<close>

definition ip_bits :: "ip_addr \<Rightarrow> bool list" where
  "ip_bits a = bits_of (octets a)"

fun ip_width :: "ip_addr \<Rightarrow> nat" where
  "ip_width (V4 _) = 32"
| "ip_width (V6 _) = 128"

lemma length_ip_bits: "ip_wf a \<Longrightarrow> length (ip_bits a) = ip_width a"
  by (cases a) (auto simp: ip_bits_def)

section \<open>Prefixes\<close>

datatype prefix = Prefix (addr: ip_addr) (prefix_len: u8)

definition prefix_wf :: "prefix \<Rightarrow> bool" where
  "prefix_wf p \<longleftrightarrow> ip_wf (addr p) \<and> unat (prefix_len p) \<le> ip_width (addr p)"

fun prefix_key :: "prefix \<Rightarrow> ip_addr \<times> u8" where
  "prefix_key (Prefix a l) = (a, l)"

lemma prefix_key_inject: "prefix_key p = prefix_key q \<longleftrightarrow> p = q"
  by (cases p; cases q) auto

instantiation prefix :: linorder
begin

definition less_eq_prefix :: "prefix \<Rightarrow> prefix \<Rightarrow> bool" where
  "less_eq_prefix p q \<longleftrightarrow> prefix_key p \<le> prefix_key q"

definition less_prefix :: "prefix \<Rightarrow> prefix \<Rightarrow> bool" where
  "less_prefix p q \<longleftrightarrow> prefix_key p < prefix_key q"

instance
  by standard
    (auto simp: less_eq_prefix_def less_prefix_def prefix_key_inject[symmetric] less_le_not_le
      intro: order_trans)

end

definition network_v4 :: "bytes \<Rightarrow> u8 \<Rightarrow> bytes" where
  "network_v4 b plen =
     (let pl = min plen 32;
          mask = (if pl = 0 then 0 else push_bit (32 - unat pl) (- 1) :: u32);
          net_u = from_be_bytes b AND mask
      in to_be_bytes 4 net_u)"

definition network_v6 :: "bytes \<Rightarrow> u8 \<Rightarrow> bytes" where
  "network_v6 b plen =
     (let pl = unat (min plen 128);
          full_bytes = pl div 8;
          rem_bits = pl mod 8;
          zero_start = (if 0 < rem_bits then full_bytes + 1 else full_bytes);
          n = map (\<lambda>(i, x). if zero_start \<le> i then 0 else x) (enumerate 0 b)
      in if 0 < rem_bits \<and> full_bytes < 16
         then n[full_bytes := n ! full_bytes AND push_bit (8 - rem_bits) 0xff]
         else n)"

fun network :: "prefix \<Rightarrow> ip_addr" where
  "network (Prefix (V4 b) l) = V4 (network_v4 b l)"
| "network (Prefix (V6 b) l) = V6 (network_v6 b l)"

fun prefix_contains :: "prefix \<Rightarrow> ip_addr \<Rightarrow> bool" where
  "prefix_contains (Prefix (V4 net) l) (V4 a) =
     (let pl = min l 32
      in if pl = 0 then True
         else let mask = push_bit (32 - unat pl) (- 1) :: u32
              in from_be_bytes net AND mask = from_be_bytes a AND mask)"
| "prefix_contains (Prefix (V6 net) l) (V6 a) =
     (let pl = unat (min l 128);
          full = pl div 8;
          rem = pl mod 8
      in if take full net \<noteq> take full a then False
         else if 0 < rem \<and> full < 16
              then (let mask = push_bit (8 - rem) 0xff
                    in net ! full AND mask = a ! full AND mask)
              else True)"
| "prefix_contains _ _ = False"

definition contains_prefix :: "prefix \<Rightarrow> prefix \<Rightarrow> bool" where
  "contains_prefix p q =
     (if is_ipv4 (addr p) \<noteq> is_ipv4 (addr q) then False
      else if prefix_len p > prefix_len q then False
      else prefix_contains p (addr q))"

text \<open>\<open>IpNet::new\<close> zeroes the host bits.\<close>

definition ip_net :: "prefix \<Rightarrow> prefix" where
  "ip_net p = Prefix (network p) (prefix_len p)"

text \<open>The number of significant bits: the prefix length clamped to the family width.\<close>

definition plen :: "prefix \<Rightarrow> nat" where
  "plen p = min (unat (prefix_len p)) (ip_width (addr p))"

subsection \<open>Masking, as a statement about bits\<close>

lemma word_bits_and_mask:
  assumes "k \<le> LENGTH('a)"
  shows "word_bits (w AND push_bit (LENGTH('a) - k) (- 1 :: 'a::len word)) =
     take k (word_bits w) @ replicate (LENGTH('a) - k) False"
proof (rule nth_equalityI)
  fix i
  assume "i < length (word_bits (w AND push_bit (LENGTH('a) - k) (- 1 :: 'a word)))"
  then have "i < LENGTH('a)" by simp
  with assms show "word_bits (w AND push_bit (LENGTH('a) - k) (- 1 :: 'a word)) ! i =
      (take k (word_bits w) @ replicate (LENGTH('a) - k) False) ! i"
    by (cases "i < k") (auto simp: nth_append bit_and_iff bit_not_iff bit_mask_iff min_def)
qed (use assms in simp)

lemma word_bits_zero: "word_bits (0 :: 'a::len word) = replicate LENGTH('a) False"
  by (auto intro!: nth_equalityI)

lemma bit_high_mask:
  assumes "r < 8" "i < 8"
  shows "bit (push_bit (8 - r) (0xff :: u8)) (7 - i) \<longleftrightarrow> i < r"
proof -
  have eq: "(0xff :: u8) = - 1" by simp
  show ?thesis unfolding eq using assms by (auto simp: bit_not_iff bit_mask_iff)
qed

lemma unat_min_u8: "unat (min a (b :: u8)) = min (unat a) (unat b)"
  by (simp add: min_def word_le_nat_alt)

lemma network_v4_bits:
  assumes "length b = 4"
  shows "bits_of (network_v4 b l) =
    take (min (unat l) 32) (bits_of b) @ replicate (32 - min (unat l) 32) False"
proof -
  let ?k = "min (unat l) 32"
  let ?m = "(if min l 32 = 0 then 0 else push_bit (32 - unat (min l 32)) (- 1)) :: u32"
  have k: "unat (min l 32) = ?k" by (simp add: unat_min_u8)
  have z: "min l 32 = 0 \<longleftrightarrow> ?k = 0" using k by (metis unat_eq_zero)
  have "word_bits (from_be_bytes b AND ?m :: u32) =
      take ?k (word_bits (from_be_bytes b :: u32)) @ replicate (32 - ?k) False"
    using word_bits_and_mask[of ?k "from_be_bytes b :: u32"] word_bits_zero[where ?'a = 32]
    unfolding z k by (cases "?k = 0") simp_all
  moreover have "bits_of (network_v4 b l) = word_bits (from_be_bytes b AND ?m :: u32)"
    by (simp add: network_v4_def Let_def bits_of_to_be_bytes)
  ultimately show ?thesis using assms by (simp add: word_bits_from_be_bytes)
qed

lemma length_network_v6 [simp]: "length (network_v6 b l) = length b"
  by (simp add: network_v6_def Let_def)

lemma bit_network_v6:
  assumes "length b = 16" "j < 16" "i < 8"
  shows "bit (network_v6 b l ! j) (7 - i) \<longleftrightarrow>
    8 * j + i < min (unat l) 128 \<and> bit (b ! j) (7 - i)"
proof -
  define pl where "pl = unat (min l 128)"
  define full where "full = pl div 8"
  define r where "r = pl mod 8"
  have pl: "pl = 8 * full + r" and r: "r < 8" by (simp_all add: full_def r_def)
  have min: "min (unat l) 128 = pl" by (simp add: pl_def unat_min_u8)
  consider "j < full" | "j = full" | "full < j" by linarith
  then show ?thesis
  proof cases
    case 1
    then have "8 * j + i < pl" using assms pl by linarith
    with 1 assms show ?thesis unfolding min
      by (auto simp: network_v6_def Let_def nth_list_update nth_enumerate_eq simp flip: pl_def full_def r_def)
  next
    case 2
    then show ?thesis unfolding min using assms pl bit_high_mask[OF r, of i] r
      by (auto simp: network_v6_def Let_def nth_enumerate_eq bit_and_iff simp flip: pl_def full_def r_def)
  next
    case 3
    then have "\<not> 8 * j + i < pl" using r pl by linarith
    with 3 assms show ?thesis unfolding min
      by (auto simp: network_v6_def Let_def nth_list_update nth_enumerate_eq simp flip: pl_def full_def r_def)
  qed
qed

lemma network_v6_bits:
  assumes "length b = 16"
  shows "bits_of (network_v6 b l) =
    take (min (unat l) 128) (bits_of b) @ replicate (128 - min (unat l) 128) False"
proof (rule nth_equalityI)
  show "length (bits_of (network_v6 b l)) =
      length (take (min (unat l) 128) (bits_of b) @ replicate (128 - min (unat l) 128) False)"
    using assms by simp
  fix k
  assume "k < length (bits_of (network_v6 b l))"
  then have k: "k < 8 * length (network_v6 b l)" by simp
  then have j: "k div 8 < 16" and kk: "k < 128" using assms by auto
  have "bits_of (network_v6 b l) ! k = bit (network_v6 b l ! (k div 8)) (7 - k mod 8)"
    by (rule nth_bits_of[OF k])
  also have "\<dots> \<longleftrightarrow> k < min (unat l) 128 \<and> bit (b ! (k div 8)) (7 - k mod 8)"
    using bit_network_v6[OF assms j, of "k mod 8" l] by simp
  also have "\<dots> \<longleftrightarrow> k < min (unat l) 128 \<and> bits_of b ! k"
    using kk assms by (simp add: nth_bits_of)
  finally show "bits_of (network_v6 b l) ! k =
      (take (min (unat l) 128) (bits_of b) @ replicate (128 - min (unat l) 128) False) ! k"
    using kk assms by (auto simp: nth_append)
qed

subsection \<open>The network address\<close>

lemma network_family [simp]:
  "is_ipv4 (network p) = is_ipv4 (addr p)" "ip_width (network p) = ip_width (addr p)"
  by (cases p rule: network.cases; simp)+

lemma network_wf: "ip_wf (addr p) \<Longrightarrow> ip_wf (network p)"
  by (cases p rule: network.cases) (auto simp: network_v4_def Let_def)

lemma network_bits:
  assumes "ip_wf (addr p)"
  shows "ip_bits (network p) =
    take (plen p) (ip_bits (addr p)) @ replicate (ip_width (addr p) - plen p) False"
proof (cases p rule: network.cases)
  case (1 b l)
  then show ?thesis using assms network_v4_bits[of b l]
    by (simp add: ip_bits_def plen_def)
next
  case (2 b l)
  then show ?thesis using assms network_v6_bits[of b l]
    by (simp add: ip_bits_def plen_def)
qed

lemma ip_bits_inject:
  "ip_bits a = ip_bits b \<Longrightarrow> is_ipv4 a = is_ipv4 b \<Longrightarrow> a = b"
  by (cases a; cases b) (auto simp: ip_bits_def bits_of_inject)

lemma plen_le_width: "plen p \<le> ip_width (addr p)"
  by (simp add: plen_def)

lemma plen_ip_net [simp]: "plen (ip_net p) = plen p"
  by (simp add: plen_def ip_net_def)

lemma network_idem: "ip_wf (addr p) \<Longrightarrow> network (ip_net p) = network p"
  using network_bits[of p] network_bits[of "ip_net p"] network_wf[of p] length_ip_bits[of "addr p"]
  by (intro ip_bits_inject) (auto simp: ip_net_def plen_def)

subsection \<open>Containment\<close>

lemma take_bits_of: "take (8 * n) (bits_of bs) = bits_of (take n bs)"
proof (induction n arbitrary: bs)
  case (Suc n)
  then show ?case by (cases bs) (simp_all add: take_append)
qed simp

lemma masked_word_eq:
  fixes v w :: "'a::len word"
  assumes "k \<le> LENGTH('a)"
  shows "v AND push_bit (LENGTH('a) - k) (- 1) = w AND push_bit (LENGTH('a) - k) (- 1) \<longleftrightarrow>
    take k (word_bits v) = take k (word_bits w)"
  using word_bits_and_mask[OF assms, of v] word_bits_and_mask[OF assms, of w]
  by (simp flip: word_bits_inject)

lemma masked_byte_eq:
  assumes "r < 8"
  shows "v AND push_bit (8 - r) 0xff = w AND push_bit (8 - r) (0xff :: u8) \<longleftrightarrow>
    take r (word_bits v) = take r (word_bits w)"
proof -
  have eq: "(0xff :: u8) = - 1" by simp
  show ?thesis unfolding eq using masked_word_eq[of r v w] assms by simp
qed

lemma word_bits_u8: "word_bits (b :: u8) = bits_of [b]"
  by (simp add: word_bits_def)

lemma take_bits_split:
  assumes "full < length bs" "r < 8"
  shows "take (8 * full + r) (bits_of bs) =
    bits_of (take full bs) @ take r (word_bits (bs ! full))"
proof -
  have bs: "bs = take full bs @ bs ! full # drop (Suc full) bs"
    using assms(1) by (simp add: id_take_nth_drop)
  have app: "bits_of (as @ bs) = bits_of as @ bits_of bs" for as bs
    by (simp add: bits_of_def)
  have "bits_of bs = bits_of (take full bs) @ bits_of [bs ! full] @ bits_of (drop (Suc full) bs)"
    by (subst bs, simp only: app[symmetric]) simp
  then show ?thesis using assms by (simp add: word_bits_u8 take_append del: bits_of_simps)
qed

lemma contains_v4:
  assumes "length net = 4" "length a = 4"
  shows "prefix_contains (Prefix (V4 net) l) (V4 a) \<longleftrightarrow>
    take (min (unat l) 32) (bits_of net) = take (min (unat l) 32) (bits_of a)"
proof -
  let ?k = "min (unat l) 32"
  have k: "unat (min l 32) = ?k" by (simp add: unat_min_u8)
  have z: "min l 32 = 0 \<longleftrightarrow> ?k = 0" using k by (metis unat_eq_zero)
  show ?thesis
    using masked_word_eq[of ?k "from_be_bytes net :: u32" "from_be_bytes a"] assms
    by (simp add: Let_def z k word_bits_from_be_bytes)
qed

lemma contains_v6:
  assumes "length net = 16" "length a = 16"
  shows "prefix_contains (Prefix (V6 net) l) (V6 a) \<longleftrightarrow>
    take (min (unat l) 128) (bits_of net) = take (min (unat l) 128) (bits_of a)"
proof -
  define pl where "pl = unat (min l 128)"
  define full where "full = pl div 8"
  define r where "r = pl mod 8"
  have pl: "pl = 8 * full + r" and r: "r < 8" by (simp_all add: full_def r_def)
  have min: "min (unat l) 128 = pl" by (simp add: pl_def unat_min_u8)
  then have full: "full \<le> 16" "full = 16 \<Longrightarrow> r = 0" using pl by auto
  have len: "length (bits_of (take full net)) = length (bits_of (take full a))"
    using assms by simp
  have lhs: "prefix_contains (Prefix (V6 net) l) (V6 a) \<longleftrightarrow>
      take full net = take full a \<and>
      (0 < r \<and> full < 16 \<longrightarrow> net ! full AND push_bit (8 - r) 0xff = a ! full AND push_bit (8 - r) 0xff)"
    by (auto simp: Let_def simp flip: pl_def full_def r_def)
  show ?thesis
  proof (cases "0 < r")
    case True
    then have "full < 16" using full by linarith
    then show ?thesis unfolding lhs min pl using assms True r len masked_byte_eq[OF r]
      by (simp add: take_bits_split bits_of_inject)
  next
    case False
    then show ?thesis unfolding lhs min pl by (simp add: take_bits_of bits_of_inject)
  qed
qed

lemma contains_bits:
  assumes "ip_wf (addr p)" "ip_wf a"
  shows "prefix_contains p a \<longleftrightarrow>
    is_ipv4 (addr p) = is_ipv4 a \<and> take (plen p) (ip_bits (addr p)) = take (plen p) (ip_bits a)"
proof (cases p)
  case (Prefix pa l)
  then show ?thesis using assms contains_v4 contains_v6
    by (cases pa; cases a) (simp_all add: ip_bits_def plen_def del: prefix_contains.simps,
      simp_all)
qed

lemma is_ipv4_width: "is_ipv4 a = is_ipv4 b \<Longrightarrow> ip_width a = ip_width b"
  by (cases a; cases b) auto

lemma contains_prefix_bits:
  assumes "ip_wf (addr p)" "ip_wf (addr q)"
  shows "contains_prefix p q \<longleftrightarrow>
    is_ipv4 (addr p) = is_ipv4 (addr q) \<and> prefix_len p \<le> prefix_len q \<and>
    take (plen p) (ip_bits (addr p)) = take (plen p) (ip_bits (addr q))"
  using contains_bits[OF assms] by (auto simp: contains_prefix_def)

lemma plen_mono:
  "is_ipv4 (addr p) = is_ipv4 (addr q) \<Longrightarrow> prefix_len p \<le> prefix_len q \<Longrightarrow> plen p \<le> plen q"
  using is_ipv4_width[of "addr p" "addr q"] by (simp add: plen_def word_le_nat_alt)

text \<open>Flipping one bit of an address, to separate prefixes of different length.\<close>

lemma flip_bits:
  assumes "k < 8 * length b"
  obtains b' where "length b' = length b"
    and "\<And>i. i < 8 * length b \<Longrightarrow> bits_of b' ! i = (if i = k then \<not> bits_of b ! i else bits_of b ! i)"
proof
  let ?b' = "b[k div 8 := b ! (k div 8) XOR push_bit (7 - k mod 8) 1]"
  show "length ?b' = length b" by simp
  fix i assume i: "i < 8 * length b"
  have m: "i mod 8 \<le> 7" "k mod 8 \<le> 7" by simp_all
  have "i div 8 < length b" "k div 8 < length b" using i assms by auto
  moreover have "i = k \<longleftrightarrow> i div 8 = k div 8 \<and> 7 - i mod 8 = 7 - k mod 8"
  proof
    assume r: "i div 8 = k div 8 \<and> 7 - i mod 8 = 7 - k mod 8"
    then have "i mod 8 = k mod 8"
      using diff_diff_cancel[OF m(1)] diff_diff_cancel[OF m(2)] by metis
    then show "i = k" using r div_mult_mod_eq[of i 8] div_mult_mod_eq[of k 8] by metis
  qed simp
  moreover have "bit (x XOR push_bit a 1) c \<longleftrightarrow> (if c = a then \<not> bit x c else bit x c)"
    if "a < 8" "c < 8" for x :: u8 and a c
    using that by (auto simp: bit_simps)
  ultimately show "bits_of ?b' ! i = (if i = k then \<not> bits_of b ! i else bits_of b ! i)"
    using i by (auto simp: nth_bits_of nth_list_update)
qed

lemma flip_ip:
  assumes "ip_wf a" "k < ip_width a"
  obtains a' where "ip_wf a'" "is_ipv4 a' = is_ipv4 a"
    and "\<And>i. i < ip_width a \<Longrightarrow> ip_bits a' ! i = (if i = k then \<not> ip_bits a ! i else ip_bits a ! i)"
proof (cases a)
  case (V4 b)
  with assms have "k < 8 * length b" by simp
  from flip_bits[OF this] obtain b' where "length b' = length b"
    "\<And>i. i < 8 * length b \<Longrightarrow> bits_of b' ! i = (if i = k then \<not> bits_of b ! i else bits_of b ! i)" by blast
  then show thesis using that[of "V4 b'"] V4 assms by (simp add: ip_bits_def)
next
  case (V6 b)
  with assms have "k < 8 * length b" by simp
  from flip_bits[OF this] obtain b' where "length b' = length b"
    "\<And>i. i < 8 * length b \<Longrightarrow> bits_of b' ! i = (if i = k then \<not> bits_of b ! i else bits_of b ! i)" by blast
  then show thesis using that[of "V6 b'"] V6 assms by (simp add: ip_bits_def)
qed

lemma plen_wf: "prefix_wf p \<Longrightarrow> plen p = unat (prefix_len p)"
  by (simp add: plen_def prefix_wf_def)

lemma contained_length:
  assumes "prefix_wf p" "prefix_wf q" "is_ipv4 (addr p) = is_ipv4 (addr q)"
    and sub: "\<And>a. ip_wf a \<Longrightarrow> prefix_contains q a \<Longrightarrow> prefix_contains p a"
  shows "plen p \<le> plen q"
proof (rule ccontr)
  assume less: "\<not> plen p \<le> plen q"
  have wf: "ip_wf (addr p)" "ip_wf (addr q)" using assms by (simp_all add: prefix_wf_def)
  have w: "ip_width (addr p) = ip_width (addr q)" using assms(3) by (rule is_ipv4_width)
  have k: "plen q < ip_width (addr q)" using less plen_le_width[of p] w by simp
  obtain a where a: "ip_wf a" "is_ipv4 a = is_ipv4 (addr q)"
    "\<And>i. i < ip_width (addr q) \<Longrightarrow>
      ip_bits a ! i = (if i = plen q then \<not> ip_bits (addr q) ! i else ip_bits (addr q) ! i)"
    using flip_ip[OF wf(2) k] by blast
  have len: "length (ip_bits a) = ip_width (addr q)" "length (ip_bits (addr q)) = ip_width (addr q)"
    using length_ip_bits[OF a(1)] length_ip_bits[OF wf(2)] is_ipv4_width[OF a(2)] by simp_all
  have "take (plen q) (ip_bits (addr q)) = take (plen q) (ip_bits a)"
    using a(3) k len by (intro nth_equalityI) simp_all
  then have "prefix_contains q a" using a wf by (simp add: contains_bits)
  from sub[OF a(1) this] have pa: "take (plen p) (ip_bits (addr p)) = take (plen p) (ip_bits a)"
    using a wf by (simp add: contains_bits)
  have "prefix_contains q (addr q)" using wf by (simp add: contains_bits)
  from sub[OF wf(2) this] have "take (plen p) (ip_bits (addr p)) = take (plen p) (ip_bits (addr q))"
    using wf by (simp add: contains_bits)
  with pa have "take (plen p) (ip_bits a) = take (plen p) (ip_bits (addr q))" by simp
  then have "take (plen p) (ip_bits a) ! plen q = take (plen p) (ip_bits (addr q)) ! plen q" by simp
  then show False using less a(3)[OF k] by simp
qed

section \<open>Text form of IPv4 addresses\<close>

text \<open>
  Strings are byte lists.  \<open>split_on\<close> is \<open>str::split\<close> by a character: it always
  yields at least one (possibly empty) piece.
\<close>

fun split_on :: "char \<Rightarrow> string \<Rightarrow> string list" where
  "split_on c [] = [[]]"
| "split_on c (x # xs) =
     (if x = c then [] # split_on c xs
      else case split_on c xs of [] \<Rightarrow> [[x]] | y # ys \<Rightarrow> (x # y) # ys)"

definition is_ascii_digit :: "char \<Rightarrow> bool" where
  "is_ascii_digit c \<longleftrightarrow> 48 \<le> (of_char c :: nat) \<and> (of_char c :: nat) \<le> 57"

fun octet_loop :: "nat \<Rightarrow> string \<Rightarrow> nat option" where
  "octet_loop v [] = Some v"
| "octet_loop v (c # cs) =
     (if \<not> is_ascii_digit c then None
      else let v' = v * 10 + (of_char c - 48)
           in if 255 < v' then None else octet_loop v' cs)"

definition parse_ipv4_octet :: "string \<Rightarrow> u8 option" where
  "parse_ipv4_octet p =
     (if p = [] \<or> 3 < length p then None else map_option of_nat (octet_loop 0 p))"

fun parse_octets :: "string list \<Rightarrow> bytes option" where
  "parse_octets [] = Some []"
| "parse_octets (p # ps) =
     (case parse_ipv4_octet p of
        None \<Rightarrow> None
      | Some b \<Rightarrow> map_option (\<lambda>bs. b # bs) (parse_octets ps))"

definition parse_ipv4 :: "string \<Rightarrow> bytes option" where
  "parse_ipv4 s =
     (let parts = split_on (CHR ''.'') s
      in if length parts \<noteq> 4 then None else parse_octets parts)"

text \<open>\<open>Display\<close> of a \<open>u8\<close> is its decimal form without leading zeros.\<close>

definition digit :: "nat \<Rightarrow> char" where
  "digit d = char_of (48 + d)"

definition show_u8 :: "u8 \<Rightarrow> string" where
  "show_u8 b =
     (let n = unat b
      in if n < 10 then [digit n]
         else if n < 100 then [digit (n div 10), digit (n mod 10)]
         else [digit (n div 100), digit (n div 10 mod 10), digit (n mod 10)])"

definition show_ipv4 :: "bytes \<Rightarrow> string" where
  "show_ipv4 b =
     show_u8 (b ! 0) @ ''.'' @ show_u8 (b ! 1) @ ''.'' @ show_u8 (b ! 2) @ ''.'' @ show_u8 (b ! 3)"

lemma of_char_digit: "d < 10 \<Longrightarrow> of_char (digit d) = 48 + d"
  by (simp add: digit_def)

lemma digit_simps:
  assumes "d < 10"
  shows "is_ascii_digit (digit d)" "(of_char (digit d) :: nat) - 48 = d" "digit d \<noteq> CHR ''.''"
proof -
  show "is_ascii_digit (digit d)" "(of_char (digit d) :: nat) - 48 = d"
    using assms of_char_digit[OF assms] by (simp_all add: is_ascii_digit_def)
  have "(of_char (CHR ''.'') :: nat) = 46" by simp
  then show "digit d \<noteq> CHR ''.''" using of_char_digit[OF assms] by force
qed

lemma unat_u8_less: "unat (b :: u8) < 256"
proof -
  have "unat b < 2 ^ LENGTH(8)" by (rule unsigned_less)
  then show ?thesis by simp
qed

lemma octet_loop_digit:
  "d < 10 \<Longrightarrow> octet_loop v (digit d # cs) =
     (if 255 < v * 10 + d then None else octet_loop (v * 10 + d) cs)"
  by (simp add: digit_simps)

lemma parse_show_u8: "parse_ipv4_octet (show_u8 b) = Some b"
proof -
  have b: "unat b < 256" by (rule unat_u8_less)
  have d: "unat b div 100 < 10" "unat b div 10 mod 10 < 10" "unat b mod 10 < 10" using b by auto
  have s: "unat b = (unat b div 100 * 10 + unat b div 10 mod 10) * 10 + unat b mod 10"
proof -
    have "unat b div 100 * 10 + unat b div 10 mod 10 = unat b div 10"
      using div_mult2_eq[of "unat b" 10 10] div_mult_mod_eq[of "unat b div 10" 10] by simp
    then show ?thesis by simp
  qed
  consider "unat b < 10" | "10 \<le> unat b" "unat b < 100" | "100 \<le> unat b" by linarith
  then have "\<exists>n. octet_loop 0 (show_u8 b) = Some n \<and> n = unat b"
  proof cases
    case 1
    then show ?thesis by (simp add: show_u8_def digit_simps)
  next
    case 2
    then have "unat b div 10 < 10" by auto
    then show ?thesis using 2 d by (simp add: show_u8_def Let_def digit_simps)
  next
    case 3
    have "\<not> 255 < unat b div 100 * 10 + unat b div 10 mod 10" using s b by linarith
    moreover have "\<not> 255 < (unat b div 100 * 10 + unat b div 10 mod 10) * 10 + unat b mod 10"
      using s b by linarith
    moreover have "\<not> 255 < unat b div 100" using d by linarith
    moreover have "show_u8 b = [digit (unat b div 100), digit (unat b div 10 mod 10), digit (unat b mod 10)]"
      using 3 by (simp add: show_u8_def Let_def)
    ultimately have "octet_loop 0 (show_u8 b) =
        Some ((unat b div 100 * 10 + unat b div 10 mod 10) * 10 + unat b mod 10)"
      using d by (simp add: octet_loop_digit del: octet_loop.simps(2))
    then show ?thesis using s by metis
  qed
  then show ?thesis by (auto simp: parse_ipv4_octet_def show_u8_def Let_def)
qed

lemma dot_notin_show_u8: "CHR ''.'' \<notin> set (show_u8 b)"
proof -
  have "unat b < 256" by (rule unat_u8_less)
  then have "unat b div 100 < 10" "unat b div 10 mod 10 < 10" "unat b mod 10 < 10"
    "unat b < 100 \<Longrightarrow> unat b div 10 < 10" by auto
  then show ?thesis using digit_simps(3)[symmetric] by (auto simp: show_u8_def Let_def)
qed

lemma split_on_single: "c \<notin> set xs \<Longrightarrow> split_on c xs = [xs]"
  by (induction xs) auto

lemma split_on_append: "c \<notin> set xs \<Longrightarrow> split_on c (xs @ c # ys) = xs # split_on c ys"
  by (induction xs) auto

lemma parse_show_ipv4:
  assumes "length b = 4"
  shows "parse_ipv4 (show_ipv4 b) = Some b"
proof -
  obtain b0 b1 b2 b3 where b: "b = [b0, b1, b2, b3]"
    using assms by (auto simp: length_Suc_conv eval_nat_numeral)
  have "split_on (CHR ''.'') (show_ipv4 b) = [show_u8 b0, show_u8 b1, show_u8 b2, show_u8 b3]"
    using dot_notin_show_u8 by (simp add: show_ipv4_def b split_on_append split_on_single)
  then show ?thesis by (simp add: parse_ipv4_def parse_show_u8 b)
qed

section \<open>Properties\<close>

text \<open>
  \<open>Prefix::network\<close> keeps the first \<open>prefix_len\<close> bits of the address and clears the rest, for
  both families (a 32-bit mask for IPv4, a bytewise loop for IPv6), so masking twice is masking
  once.
\<close>

theorem network_masks:
  assumes "ip_wf (addr p)"
  shows "ip_bits (network p) =
      take (plen p) (ip_bits (addr p)) @ replicate (ip_width (addr p) - plen p) False \<and>
    ip_wf (network p) \<and> ip_net (ip_net p) = ip_net p"
  using network_bits[OF assms] network_wf[OF assms] network_idem[OF assms] by (simp add: ip_net_def)

theorem network_masks_witness:
  "ip_bits (network (Prefix (V4 [192, 0, 2, 255]) 24)) =
     take 24 (ip_bits (V4 [192, 0, 2, 255])) @ replicate 8 False"
  using network_masks[of "Prefix (V4 [192, 0, 2, 255]) 24"] by (simp add: plen_def)

text \<open>
  An address lies in a prefix exactly when it is of the same family and agrees with the
  prefix on the first \<open>prefix_len\<close> bits, for the mask comparison of IPv4 and for the byte
  comparison of IPv6 alike.
\<close>

theorem contains_iff_bits:
  assumes "ip_wf (addr p)" "ip_wf a"
  shows "prefix_contains p a \<longleftrightarrow>
    is_ipv4 (addr p) = is_ipv4 a \<and> take (plen p) (ip_bits (addr p)) = take (plen p) (ip_bits a)"
  by (rule contains_bits[OF assms])

theorem contains_iff_bits_witness:
  "prefix_contains (Prefix (V4 [10, 0, 0, 0]) 8) (V4 [10, 1, 2, 3]) \<longleftrightarrow>
     take 8 (ip_bits (V4 [10, 0, 0, 0])) = take 8 (ip_bits (V4 [10, 1, 2, 3]))"
  using contains_iff_bits[of "Prefix (V4 [10, 0, 0, 0]) 8" "V4 [10, 1, 2, 3]"]
  by (simp add: plen_def del: prefix_contains.simps)

text \<open>
  \<open>contains_prefix\<close> is inclusion: one prefix contains another exactly when they are of the
  same family and every address of the second lies in the first.
\<close>

theorem contains_prefix_inclusion:
  assumes "prefix_wf p" "prefix_wf q"
  shows "contains_prefix p q \<longleftrightarrow> is_ipv4 (addr p) = is_ipv4 (addr q) \<and>
    (\<forall>a. ip_wf a \<longrightarrow> prefix_contains q a \<longrightarrow> prefix_contains p a)"
proof
  have wf: "ip_wf (addr p)" "ip_wf (addr q)" using assms by (simp_all add: prefix_wf_def)
  {
    assume c: "contains_prefix p q"
    then have fam: "is_ipv4 (addr p) = is_ipv4 (addr q)" and le: "plen p \<le> plen q"
      and t: "take (plen p) (ip_bits (addr p)) = take (plen p) (ip_bits (addr q))"
      using plen_mono by (auto simp: contains_prefix_bits[OF wf])
    have "prefix_contains p a" if "ip_wf a" "prefix_contains q a" for a
    proof -
      have "take (plen q) (ip_bits (addr q)) = take (plen q) (ip_bits a)" "is_ipv4 (addr q) = is_ipv4 a"
        using that wf by (simp_all add: contains_bits)
      then have "take (plen p) (ip_bits (addr q)) = take (plen p) (ip_bits a)"
        using le by (metis min.absorb1 take_take)
      then show ?thesis using that wf fam t \<open>is_ipv4 (addr q) = is_ipv4 a\<close> by (simp add: contains_bits)
    qed
    with fam show "is_ipv4 (addr p) = is_ipv4 (addr q) \<and>
        (\<forall>a. ip_wf a \<longrightarrow> prefix_contains q a \<longrightarrow> prefix_contains p a)" by blast
  }
  assume sub: "is_ipv4 (addr p) = is_ipv4 (addr q) \<and>
    (\<forall>a. ip_wf a \<longrightarrow> prefix_contains q a \<longrightarrow> prefix_contains p a)"
  have "plen p \<le> plen q" using contained_length[OF assms] sub by blast
  then have "prefix_len p \<le> prefix_len q" using assms by (simp add: plen_wf word_le_nat_alt)
  moreover have "prefix_contains p (addr q)" using sub wf by (simp add: contains_bits)
  ultimately show "contains_prefix p q" using sub by (simp add: contains_prefix_def)
qed

theorem contains_prefix_inclusion_witness:
  "contains_prefix (Prefix (V4 [10, 0, 0, 0]) 8) (Prefix (V4 [10, 1, 0, 0]) 16) \<longleftrightarrow>
     (\<forall>a. ip_wf a \<longrightarrow> prefix_contains (Prefix (V4 [10, 1, 0, 0]) 16) a \<longrightarrow>
       prefix_contains (Prefix (V4 [10, 0, 0, 0]) 8) a)"
  using contains_prefix_inclusion[of "Prefix (V4 [10, 0, 0, 0]) 8" "Prefix (V4 [10, 1, 0, 0]) 16"]
  by (simp add: prefix_wf_def del: prefix_contains.simps)

end
