(* ===== verification/LR_BTree.thy ===== *)
theory LR_BTree
  imports LR_Prelude
begin

text \<open>
  \<open>BTreeMap\<close> as the sources use it: a finite map that iterates in ascending key order and
  answers inclusive range queries.  The map is a list of entries with strictly ascending keys
  (\<open>bt_inv\<close>).  The locale \<open>finite_map\<close> is the interface the routing tables rely on:
  the lookup laws of insertion and removal, from which the bulk operations of the tables
  (removing a collected list of keys, rewriting every entry of a list of keys) are derived
  once.
\<close>

section \<open>The interface\<close>

locale finite_map =
  fixes empty :: "'m"
    and get :: "'m \<Rightarrow> 'k \<Rightarrow> 'v option"
    and put :: "'k \<Rightarrow> 'v \<Rightarrow> 'm \<Rightarrow> 'm"
    and del :: "'k \<Rightarrow> 'm \<Rightarrow> 'm"
    and inv :: "'m \<Rightarrow> bool"
  assumes get_empty: "get empty k = None"
    and get_put: "inv m \<Longrightarrow> get (put k v m) k' = (if k' = k then Some v else get m k')"
    and get_del: "inv m \<Longrightarrow> get (del k m) k' = (if k' = k then None else get m k')"
    and inv_empty: "inv empty"
    and inv_put: "inv m \<Longrightarrow> inv (put k v m)"
    and inv_del: "inv m \<Longrightarrow> inv (del k m)"
begin

text \<open>\<open>for k in keys { map.remove(&k); }\<close>\<close>

lemma inv_fold_del: "inv m \<Longrightarrow> inv (fold del ks m)"
  by (induction ks arbitrary: m) (auto intro: inv_del)

lemma get_fold_del:
  "inv m \<Longrightarrow> get (fold del ks m) k = (if k \<in> set ks then None else get m k)"
  by (induction ks arbitrary: m) (auto simp: inv_del get_del)

text \<open>\<open>for k in keys { let v = map.remove(&k); if let Some(w) = f(v) { map.insert(k, w); } }\<close>\<close>

lemma inv_update: "inv m \<Longrightarrow> inv (case f v of None \<Rightarrow> del k m | Some w \<Rightarrow> put k w (del k m))"
  by (auto intro: inv_del inv_put split: option.split)

lemma get_update:
  "inv m \<Longrightarrow> get (case f v of None \<Rightarrow> del k m | Some w \<Rightarrow> put k w (del k m)) k' =
     (if k' = k then f v else get m k')"
  by (auto simp: get_del get_put inv_del split: option.split)

end

section \<open>Sorted entry lists\<close>

type_synonym ('k, 'v) btree = "('k \<times> 'v) list"

definition bt_inv :: "('k::linorder, 'v) btree \<Rightarrow> bool" where
  "bt_inv m \<longleftrightarrow> sorted_wrt (<) (map fst m)"

fun bt_get :: "('k, 'v) btree \<Rightarrow> 'k \<Rightarrow> 'v option" where
  "bt_get [] k = None"
| "bt_get ((k', v) # m) k = (if k' = k then Some v else bt_get m k)"

fun bt_put :: "'k::linorder \<Rightarrow> 'v \<Rightarrow> ('k, 'v) btree \<Rightarrow> ('k, 'v) btree" where
  "bt_put k v [] = [(k, v)]"
| "bt_put k v ((k', w) # m) =
     (if k < k' then (k, v) # (k', w) # m
      else if k = k' then (k, v) # m
      else (k', w) # bt_put k v m)"

definition bt_del :: "'k \<Rightarrow> ('k, 'v) btree \<Rightarrow> ('k, 'v) btree" where
  "bt_del k m = filter (\<lambda>(k', _). k' \<noteq> k) m"

text \<open>\<open>map.range(lo..=hi)\<close>, in ascending order.\<close>

definition bt_range :: "'k::linorder \<Rightarrow> 'k \<Rightarrow> ('k, 'v) btree \<Rightarrow> ('k, 'v) btree" where
  "bt_range lo hi m = filter (\<lambda>(k, _). lo \<le> k \<and> k \<le> hi) m"

lemma bt_inv_Nil [simp]: "bt_inv []"
  by (simp add: bt_inv_def)

lemma bt_inv_Cons: "bt_inv ((k, v) # m) \<longleftrightarrow> (\<forall>k' \<in> fst ` set m. k < k') \<and> bt_inv m"
  by (auto simp: bt_inv_def)

lemma bt_inv_distinct: "bt_inv m \<Longrightarrow> distinct (map fst m)"
  unfolding bt_inv_def using strict_sorted_iff by blast

lemma bt_get_map_of: "bt_get m k = map_of m k"
  by (induction m k rule: bt_get.induct) auto

lemma bt_get_in: "bt_inv m \<Longrightarrow> bt_get m k = Some v \<longleftrightarrow> (k, v) \<in> set m"
  using bt_inv_distinct[of m] by (auto simp: bt_get_map_of)

lemma bt_get_None: "bt_get m k = None \<longleftrightarrow> k \<notin> fst ` set m"
  by (simp add: bt_get_map_of map_of_eq_None_iff)

lemma fst_set_bt_put: "fst ` set (bt_put k v m) = insert k (fst ` set m)"
  by (induction k v m rule: bt_put.induct) auto

lemma bt_inv_put: "bt_inv m \<Longrightarrow> bt_inv (bt_put k v m)"
proof (induction k v m rule: bt_put.induct)
  case (2 k v k' w m)
  then show ?case by (auto simp: bt_inv_Cons fst_set_bt_put)
qed (simp add: bt_inv_def)

lemma bt_get_put: "bt_inv m \<Longrightarrow> bt_get (bt_put k v m) k' = (if k' = k then Some v else bt_get m k')"
  by (induction k v m rule: bt_put.induct) (auto simp: bt_inv_Cons)

lemma bt_inv_filter: "bt_inv m \<Longrightarrow> bt_inv (filter P m)"
  unfolding bt_inv_def by (induction m) auto

lemma bt_get_del: "bt_get (bt_del k m) k' = (if k' = k then None else bt_get m k')"
  unfolding bt_del_def by (induction m) auto

lemma bt_inv_del: "bt_inv m \<Longrightarrow> bt_inv (bt_del k m)"
  by (simp add: bt_del_def bt_inv_filter)

interpretation bt: finite_map "[]" bt_get "bt_put :: 'k::linorder \<Rightarrow> _" bt_del bt_inv
  by unfold_locales (auto simp: bt_get_put bt_get_del bt_inv_put bt_inv_del)

lemma bt_put_values: "set (bt_put k v m) \<subseteq> insert (k, v) (set m)"
  by (induction k v m rule: bt_put.induct) auto

lemma bt_put_not_Nil [simp]: "bt_put k v m \<noteq> []"
  by (cases "(k, v, m)" rule: bt_put.cases) auto

lemma set_bt_del: "set (bt_del k m) = {(k', v) \<in> set m. k' \<noteq> k}"
  by (auto simp: bt_del_def)

lemma set_bt_range: "set (bt_range lo hi m) = {(k, v) \<in> set m. lo \<le> k \<and> k \<le> hi}"
  by (auto simp: bt_range_def)

lemma bt_inv_range: "bt_inv m \<Longrightarrow> bt_inv (bt_range lo hi m)"
  by (simp add: bt_range_def bt_inv_filter)

lemma bt_put_length:
  "length (bt_put k v m) = (if bt_get m k = None then Suc (length m) else length m)"
  if "bt_inv m"
  using that
proof (induction k v m rule: bt_put.induct)
  case (2 k v k' w m)
  have "bt_get m k = None" if "k < k'"
    using that 2(2) by (auto simp: bt_inv_Cons bt_get_None)
  with 2 show ?case by (auto simp: bt_inv_Cons)
qed simp

lemma bt_distinct_filter: "bt_inv m \<Longrightarrow> distinct (map fst (filter P m))"
  by (rule bt_inv_distinct, rule bt_inv_filter)

lemma bt_keys_filter:
  assumes "bt_inv m"
  shows "k \<in> set (map fst (filter (\<lambda>(k, e). P e) m)) \<longleftrightarrow> (\<exists>e. bt_get m k = Some e \<and> P e)"
  using assms by (force simp: bt_get_in)

end
