(* ===== verification/LR_RibTypes.thy ===== *)
theory LR_RibTypes
  imports LR_Addr LR_BTree
begin

text \<open>
  The route vocabulary shared by the tables: \<open>crates/lr-core/src/rib.rs\<close> (\<open>RouteOrigin\<close>,
  \<open>RouteKey\<close>, \<open>Protocol\<close>, \<open>Preference\<close>, \<open>Route\<close>), \<open>nlri.rs\<close> (\<open>NlriFamily\<close>) and
  \<open>attr.rs\<close> (\<open>Attributes\<close>), with the derived orderings that key the ordered maps.
\<close>

section \<open>Address families\<close>

datatype nlri_family = NlriFamily (afi: u16) (safi: u8)

definition IPV4_UNICAST :: nlri_family where
  "IPV4_UNICAST = NlriFamily 1 1"

definition IPV6_UNICAST :: nlri_family where
  "IPV6_UNICAST = NlriFamily 2 1"

definition IPV4_LABELED_UNICAST :: nlri_family where
  "IPV4_LABELED_UNICAST = NlriFamily 1 4"

fun family_key :: "nlri_family \<Rightarrow> u16 \<times> u8" where
  "family_key (NlriFamily a s) = (a, s)"

lemma family_key_inject: "family_key x = family_key y \<longleftrightarrow> x = y"
  by (cases x; cases y) auto

instantiation nlri_family :: linorder
begin

definition less_eq_nlri_family :: "nlri_family \<Rightarrow> nlri_family \<Rightarrow> bool" where
  "less_eq_nlri_family x y \<longleftrightarrow> family_key x \<le> family_key y"

definition less_nlri_family :: "nlri_family \<Rightarrow> nlri_family \<Rightarrow> bool" where
  "less_nlri_family x y \<longleftrightarrow> family_key x < family_key y"

instance
  by standard
    (auto simp: less_eq_nlri_family_def less_nlri_family_def family_key_inject[symmetric]
      less_le_not_le intro: order_trans)

end

section \<open>Origins and keys\<close>

datatype route_origin = RouteOrigin (proto: u32) (peer: u64)

fun origin_key :: "route_origin \<Rightarrow> u32 \<times> u64" where
  "origin_key (RouteOrigin p q) = (p, q)"

lemma origin_key_inject: "origin_key x = origin_key y \<longleftrightarrow> x = y"
  by (cases x; cases y) auto

instantiation route_origin :: linorder
begin

definition less_eq_route_origin :: "route_origin \<Rightarrow> route_origin \<Rightarrow> bool" where
  "less_eq_route_origin x y \<longleftrightarrow> origin_key x \<le> origin_key y"

definition less_route_origin :: "route_origin \<Rightarrow> route_origin \<Rightarrow> bool" where
  "less_route_origin x y \<longleftrightarrow> origin_key x < origin_key y"

instance
  by standard
    (auto simp: less_eq_route_origin_def less_route_origin_def origin_key_inject[symmetric]
      less_le_not_le intro: order_trans)

end

datatype route_key =
  RouteKey (rk_prefix: prefix) (rk_family: nlri_family) (rk_source: "prefix option")

fun key_tuple :: "route_key \<Rightarrow> prefix \<times> nlri_family \<times> prefix option" where
  "key_tuple (RouteKey p f s) = (p, f, s)"

lemma key_tuple_inject: "key_tuple x = key_tuple y \<longleftrightarrow> x = y"
  by (cases x; cases y) auto

instantiation route_key :: linorder
begin

definition less_eq_route_key :: "route_key \<Rightarrow> route_key \<Rightarrow> bool" where
  "less_eq_route_key x y \<longleftrightarrow> key_tuple x \<le> key_tuple y"

definition less_route_key :: "route_key \<Rightarrow> route_key \<Rightarrow> bool" where
  "less_route_key x y \<longleftrightarrow> key_tuple x < key_tuple y"

instance
  by standard
    (auto simp: less_eq_route_key_def less_route_key_def key_tuple_inject[symmetric]
      less_le_not_le intro: order_trans)

end

lemmas order_defs =
  less_eq_route_key_def less_route_key_def less_eq_route_origin_def less_route_origin_def
  less_eq_nlri_family_def less_nlri_family_def less_eq_prefix_def less_prefix_def
  less_eq_ip_addr_def less_ip_addr_def

section \<open>Attributes, preferences, routes\<close>

record attribute =
  attr_tag :: u8
  attr_flags :: u8
  attr_value :: bytes

type_synonym attributes = "(u8, attribute) btree"

definition attrs_insert :: "attribute \<Rightarrow> attributes \<Rightarrow> attributes" where
  "attrs_insert a m = bt_put (attr_tag a) a m"

definition attrs_get :: "attributes \<Rightarrow> u8 \<Rightarrow> attribute option" where
  "attrs_get m t = bt_get m t"

definition attrs_remove :: "u8 \<Rightarrow> attributes \<Rightarrow> attributes" where
  "attrs_remove t m = bt_del t m"

definition attrs_get_u32_be :: "attributes \<Rightarrow> u8 \<Rightarrow> u32 option" where
  "attrs_get_u32_be m t =
     (case attrs_get m t of
        None \<Rightarrow> None
      | Some a \<Rightarrow> if length (attr_value a) = 4 then Some (from_be_bytes (attr_value a)) else None)"

datatype protocol = Bgp | Ospfv2 | Ospfv3 | Babel | Static | Connected | Other u16

fun default_admin_distance :: "protocol \<Rightarrow> u32" where
  "default_admin_distance Connected = 0"
| "default_admin_distance Static = 1"
| "default_admin_distance Bgp = 20"
| "default_admin_distance Ospfv2 = 110"
| "default_admin_distance Ospfv3 = 110"
| "default_admin_distance Babel = 120"
| "default_admin_distance (Other _) = 200"

record preference =
  admin_distance :: u32
  metric :: u32

text \<open>The derived \<open>PartialOrd\<close> of \<open>Preference\<close>: distance first, then metric.\<close>

definition pref_le :: "preference \<Rightarrow> preference \<Rightarrow> bool" where
  "pref_le p q \<longleftrightarrow> (admin_distance p, metric p) \<le> (admin_distance q, metric q)"

record route =
  key :: route_key
  origin :: route_origin
  route_protocol :: protocol
  preference :: preference
  next_hop :: "ip_addr option"
  attributes :: attributes
  age_ms :: u64
  path_id :: u32
  tag :: "u32 option"

text \<open>A concrete key and a family of concrete routes, for the examples.\<close>

definition sample_key :: route_key where
  "sample_key = RouteKey (Prefix (V4 [10, 0, 0, 0]) 8) IPV4_UNICAST None"

definition sample_route :: "u32 \<Rightarrow> route" where
  "sample_route i =
     \<lparr>key = sample_key, origin = RouteOrigin 1 7, route_protocol = Bgp,
      preference = \<lparr>admin_distance = 20, metric = 0\<rparr>, next_hop = None, attributes = [],
      age_ms = 0, path_id = i, tag = None\<rparr>"

section \<open>The extreme keys\<close>

definition min_route_key :: route_key where
  "min_route_key = RouteKey (Prefix (V4 (replicate 4 0)) 0) (NlriFamily 0 0) None"

definition max_route_key :: route_key where
  "max_route_key =
     RouteKey (Prefix (V6 (replicate 16 0xff)) 128) (NlriFamily (- 1) (- 1))
       (Some (Prefix (V6 (replicate 16 0xff)) 128))"

definition key_wf :: "route_key \<Rightarrow> bool" where
  "key_wf k \<longleftrightarrow> prefix_wf (rk_prefix k) \<and> (\<forall>s. rk_source k = Some s \<longrightarrow> prefix_wf s)"

lemma less_max_word: "a < (- 1 :: 'a::len word) \<longleftrightarrow> a \<noteq> - 1"
  using word_order.not_eq_extremum[of a] by simp

lemma replicate_0_le: "length b = n \<Longrightarrow> replicate n (0 :: 'a::len word) \<le> b"
proof (induction n arbitrary: b)
  case (Suc n)
  then show ?case by (cases b) (auto simp: word_neq_0_conv)
qed simp

lemma le_replicate_max: "length b = n \<Longrightarrow> b \<le> replicate n (- 1 :: 'a::len word)"
proof (induction n arbitrary: b)
  case (Suc n)
  then show ?case by (cases b) (auto simp: less_max_word)
qed simp

lemma prefix_between:
  assumes "prefix_wf p"
  shows "Prefix (V4 (replicate 4 0)) 0 \<le> p" and "p \<le> Prefix (V6 (replicate 16 0xff)) 128"
proof -
  obtain a l where p: "p = Prefix a l" by (cases p)
  have ff: "(0xff :: u8) = - 1" by simp
  show "Prefix (V4 (replicate 4 0)) 0 \<le> p"
    using assms replicate_0_le[of _ 4]
    by (cases a) (auto simp: p prefix_wf_def less_eq_prefix_def less_prefix_def less_eq_ip_addr_def
        less_ip_addr_def order.order_iff_strict word_neq_0_conv)
  have "unat l \<le> 128 \<Longrightarrow> l \<le> 128" by (simp add: word_le_nat_alt)
  then show "p \<le> Prefix (V6 (replicate 16 0xff)) 128"
    using assms le_replicate_max[of _ 16] unfolding ff
    by (cases a) (auto simp: p prefix_wf_def less_eq_prefix_def less_prefix_def less_eq_ip_addr_def
        less_ip_addr_def order.order_iff_strict)
qed

lemma key_between:
  assumes "key_wf k"
  shows "min_route_key \<le> k" and "k \<le> max_route_key"
proof -
  obtain p f s where k: "k = RouteKey p f s" by (cases k)
  obtain a sf where f: "f = NlriFamily a sf" by (cases f)
  have p: "prefix_wf p" and s: "\<And>q. s = Some q \<Longrightarrow> prefix_wf q"
    using assms by (simp_all add: key_wf_def k)
  have fam: "NlriFamily 0 0 \<le> f" "f \<le> NlriFamily (- 1) (- 1)"
    by (auto simp: f less_eq_nlri_family_def order.order_iff_strict word_neq_0_conv
        less_max_word)
  show "min_route_key \<le> k"
    using prefix_between(1)[OF p] fam(1)
    by (cases s) (auto simp: k min_route_key_def less_eq_route_key_def order.order_iff_strict)
  have "s \<le> Some (Prefix (V6 (replicate 16 0xff)) 128)"
    using prefix_between(2)[OF s] by (cases s) auto
  then show "k \<le> max_route_key"
    using prefix_between(2)[OF p] fam(2)
    by (auto simp: k max_route_key_def less_eq_route_key_def order.order_iff_strict)
qed

end
