(* ===== verification/LR_LocRib.thy ===== *)
theory LR_LocRib
  imports LR_RibTypes
begin

text \<open>
  The Loc-RIB of \<open>crates/lr-rib/src/loc_rib.rs\<close>: ranked path sets per route key, a generation
  counter and the bounded history of changes behind \<open>diff_since\<close>.  The generation counter is a \<open>u64\<close> and
  wraps around, as it does in a release build.  The second half gives the contract of the table,
  a total map from keys to path sets with an unbounded log of what changed, and proves that every sequence
  of operations on the table implements it.
\<close>

section \<open>The table\<close>

record rib_diff =
  added :: "route list"
  removed :: "route_key list"
  modified :: "route list"

record loc_rib =
  inner :: "(route_key, route list) btree"
  gen :: u64
  history :: "(u64 \<times> rib_diff) list"

definition locrib_new :: loc_rib where
  "locrib_new = \<lparr>inner = [], gen = 0, history = []\<rparr>"

fun first_path :: "'a list \<Rightarrow> 'a option" where
  "first_path [] = None"
| "first_path (r # _) = Some r"

definition push_history :: "rib_diff \<Rightarrow> loc_rib \<Rightarrow> loc_rib" where
  "push_history d t =
     t\<lparr>history := (if length (history t) \<ge> 16 then tl (history t) else history t) @ [(gen t, d)]\<rparr>"

definition locrib_best :: "loc_rib \<Rightarrow> route_key \<Rightarrow> route option" where
  "locrib_best t k = Option.bind (bt_get (inner t) k) first_path"

definition locrib_paths :: "loc_rib \<Rightarrow> route_key \<Rightarrow> route list" where
  "locrib_paths t k = (case bt_get (inner t) k of None \<Rightarrow> [] | Some s \<Rightarrow> s)"

text \<open>The \<open>iter_mut().find(..)\<close> of \<open>install\<close>: overwrite the first path with the identifier, or push.\<close>

fun upsert_path :: "route \<Rightarrow> route list \<Rightarrow> route list" where
  "upsert_path r [] = [r]"
| "upsert_path r (x # xs) = (if path_id x = path_id r then r # xs else x # upsert_path r xs)"

definition locrib_install :: "route \<Rightarrow> loc_rib \<Rightarrow> loc_rib \<times> bool" where
  "locrib_install r t =
     (let was_present = bt_get (inner t) (key r) \<noteq> None;
          set = locrib_paths t (key r)
      in if find (\<lambda>x. path_id x = path_id r) set = Some r then (t, False)
         else
           let t' = t\<lparr>inner := bt_put (key r) (upsert_path r set) (inner t), gen := gen t + 1\<rparr>;
               best = (case locrib_best t' (key r) of None \<Rightarrow> [] | Some b \<Rightarrow> [b]);
               diff = (if was_present then \<lparr>added = [], removed = [], modified = best\<rparr>
                       else \<lparr>added = best, removed = [], modified = []\<rparr>)
           in (push_history diff t', True))"

definition locrib_uninstall :: "route_key \<Rightarrow> loc_rib \<Rightarrow> loc_rib \<times> route option" where
  "locrib_uninstall k t =
     (case bt_get (inner t) k of
        None \<Rightarrow> (t, None)
      | Some s \<Rightarrow>
          (push_history \<lparr>added = [], removed = [k], modified = []\<rparr>
             (t\<lparr>inner := bt_del k (inner t), gen := gen t + 1\<rparr>), first_path s))"

definition locrib_install_set :: "route_key \<Rightarrow> route list \<Rightarrow> loc_rib \<Rightarrow> loc_rib" where
  "locrib_install_set k ranked t =
     (case ranked of
        [] \<Rightarrow> fst (locrib_uninstall k t)
      | new_best # _ \<Rightarrow>
          if bt_get (inner t) k = Some ranked then t
          else
            let t' = t\<lparr>inner := bt_put k ranked (inner t), gen := gen t + 1\<rparr>;
                diff = (case locrib_best t k of
                    None \<Rightarrow> \<lparr>added = [new_best], removed = [], modified = []\<rparr>
                  | Some old \<Rightarrow>
                      if path_id old = path_id new_best
                      then \<lparr>added = [], removed = [], modified = [new_best]\<rparr>
                      else \<lparr>added = [new_best], removed = [k], modified = []\<rparr>)
            in push_history diff t')"

definition locrib_iter_best :: "loc_rib \<Rightarrow> route list" where
  "locrib_iter_best t = List.map_filter (\<lambda>(_, s). first_path s) (inner t)"

definition locrib_iter_paths :: "loc_rib \<Rightarrow> route list" where
  "locrib_iter_paths t = concat (map snd (inner t))"

definition locrib_len :: "loc_rib \<Rightarrow> nat" where
  "locrib_len t = length (inner t)"

definition locrib_paths_len :: "loc_rib \<Rightarrow> nat" where
  "locrib_paths_len t = sum_list (map (\<lambda>(_, s). length s) (inner t))"

fun extend_diff :: "(u64 \<times> rib_diff) list \<Rightarrow> u64 \<Rightarrow> rib_diff \<Rightarrow> rib_diff" where
  "extend_diff [] g out = out"
| "extend_diff ((g', d) # hs) g out =
     (if g' \<le> g then out
      else extend_diff hs g
             \<lparr>added = added out @ added d, removed = removed out @ removed d,
              modified = modified out @ modified d\<rparr>)"

definition diff_since :: "loc_rib \<Rightarrow> u64 \<Rightarrow> rib_diff" where
  "diff_since t g = extend_diff (rev (history t)) g \<lparr>added = [], removed = [], modified = []\<rparr>"

datatype locrib_op = Install route | InstallSet route_key "route list" | Uninstall route_key

fun locrib_step :: "locrib_op \<Rightarrow> loc_rib \<Rightarrow> loc_rib" where
  "locrib_step (Install r) t = fst (locrib_install r t)"
| "locrib_step (InstallSet k rs) t = locrib_install_set k rs t"
| "locrib_step (Uninstall k) t = fst (locrib_uninstall k t)"

definition locrib_run :: "locrib_op list \<Rightarrow> loc_rib" where
  "locrib_run ops = fold locrib_step ops locrib_new"

section \<open>The contract\<close>

text \<open>
  A total map from keys to path sets (absent keys have the empty set) and the log of every change of a path set
  since the table was created: the key, the set before and the set after.
\<close>

record rib_change =
  ch_key :: route_key
  ch_old :: "route list"
  ch_new :: "route list"

record rib_spec =
  sp_paths :: "route_key \<Rightarrow> route list"
  sp_log :: "rib_change list"

definition spec_new :: rib_spec where
  "spec_new = \<lparr>sp_paths = (\<lambda>_. []), sp_log = []\<rparr>"

definition spec_replace :: "route_key \<Rightarrow> route list \<Rightarrow> rib_spec \<Rightarrow> rib_spec" where
  "spec_replace k new sp =
     (if new = sp_paths sp k then sp
      else \<lparr>sp_paths = (sp_paths sp)(k := new),
            sp_log = sp_log sp @ [\<lparr>ch_key = k, ch_old = sp_paths sp k, ch_new = new\<rparr>]\<rparr>)"

fun spec_step :: "locrib_op \<Rightarrow> rib_spec \<Rightarrow> rib_spec" where
  "spec_step (Install r) sp = spec_replace (key r) (upsert_path r (sp_paths sp (key r))) sp"
| "spec_step (InstallSet k rs) sp = spec_replace k rs sp"
| "spec_step (Uninstall k) sp = spec_replace k [] sp"

definition spec_run :: "locrib_op list \<Rightarrow> rib_spec" where
  "spec_run ops = fold spec_step ops spec_new"

text \<open>
  The events of a change as the comment on \<open>install_set\<close> describes them, by the best path before and after: none
  when it is the same, a modification when the new one has the identifier of the old one, and a removal and an
  addition otherwise.
\<close>

definition no_event :: rib_diff where
  "no_event = \<lparr>added = [], removed = [], modified = []\<rparr>"

definition documented_diff :: "rib_change \<Rightarrow> rib_diff" where
  "documented_diff c =
     (case (first_path (ch_old c), first_path (ch_new c)) of
        (None, None) \<Rightarrow> no_event
      | (None, Some b) \<Rightarrow> no_event\<lparr>added := [b]\<rparr>
      | (Some _, None) \<Rightarrow> no_event\<lparr>removed := [ch_key c]\<rparr>
      | (Some a, Some b) \<Rightarrow>
          if a = b then no_event
          else if path_id a = path_id b then no_event\<lparr>modified := [b]\<rparr>
          else no_event\<lparr>added := [b], removed := [ch_key c]\<rparr>)"

text \<open>What the table records differs in one case: a change behind an unchanged best path is a modification of it.\<close>

definition same_best :: "rib_change \<Rightarrow> bool" where
  "same_best c \<longleftrightarrow> first_path (ch_old c) = first_path (ch_new c)"

definition recorded_diff :: "rib_change \<Rightarrow> rib_diff" where
  "recorded_diff c =
     (if same_best c then no_event\<lparr>modified := (case first_path (ch_new c) of None \<Rightarrow> [] | Some b \<Rightarrow> [b])\<rparr>
      else documented_diff c)"

text \<open>Entry \<open>n\<close> of the log, counted from 1, was recorded as generation \<open>n\<close>, up to wrap-around.\<close>

definition log_window :: "rib_change list \<Rightarrow> (u64 \<times> rib_diff) list" where
  "log_window log = map (\<lambda>(n, c). (of_nat n, recorded_diff c)) (drop (length log - 16) (enumerate 1 log))"

definition rib_rel :: "loc_rib \<Rightarrow> rib_spec \<Rightarrow> bool" where
  "rib_rel t sp \<longleftrightarrow>
     bt_inv (inner t) \<and> [] \<notin> snd ` set (inner t) \<and> locrib_paths t = sp_paths sp \<and>
     gen t = of_nat (length (sp_log sp)) \<and> history t = log_window (sp_log sp)"

definition merge_diffs :: "rib_diff list \<Rightarrow> rib_diff" where
  "merge_diffs ds =
     \<lparr>added = concat (map added ds), removed = concat (map removed ds),
      modified = concat (map modified ds)\<rparr>"

section \<open>Refinement\<close>

lemma upsert_path_not_Nil [simp]: "upsert_path r xs \<noteq> []"
  by (cases xs) auto

lemma upsert_path_same: "upsert_path r xs = xs \<longleftrightarrow> find (\<lambda>x. path_id x = path_id r) xs = Some r"
  by (induction xs) auto

lemma push_history_window:
  assumes "gen t = of_nat (Suc (length log))" "history t = log_window log"
  shows "history (push_history (recorded_diff c) t) = log_window (log @ [c])"
proof -
  have "length (history t) = min 16 (length log)"
    using assms(2) by (simp add: log_window_def)
  moreover have "tl (log_window log) = map (\<lambda>(n, c). (of_nat n, recorded_diff c)) (drop (Suc (length log) - 16) (enumerate 1 log))"
    if "length log \<ge> 16"
    using that by (simp add: log_window_def map_tl[symmetric] tl_drop drop_Suc[symmetric] flip: Suc_diff_le)
  ultimately show ?thesis
    using assms
    by (auto simp: push_history_def log_window_def enumerate_append_eq not_le min_def)
qed

lemma push_history_simps [simp]:
  "inner (push_history d t) = inner t" "gen (push_history d t) = gen t"
  by (simp_all add: push_history_def)

lemma rib_rel_get:
  assumes "rib_rel t sp"
  shows "bt_get (inner t) k = (if sp_paths sp k = [] then None else Some (sp_paths sp k))"
proof -
  have "bt_get (inner t) k \<noteq> Some []"
    using assms by (force simp: rib_rel_def bt_get_in)
  moreover have "sp_paths sp k = locrib_paths t k"
    using assms by (simp add: rib_rel_def)
  ultimately show ?thesis
    by (auto simp: locrib_paths_def split: option.splits)
qed

lemma rib_rel_best:
  "rib_rel t sp \<Longrightarrow> locrib_best t k = first_path (sp_paths sp k)"
  by (simp add: locrib_best_def rib_rel_get)

lemma rib_rel_put:
  assumes "rib_rel t sp" "new \<noteq> sp_paths sp k" "new \<noteq> []"
  shows "rib_rel (push_history (recorded_diff \<lparr>ch_key = k, ch_old = sp_paths sp k, ch_new = new\<rparr>)
           (t\<lparr>inner := bt_put k new (inner t), gen := gen t + 1\<rparr>)) (spec_replace k new sp)"
  using assms bt_put_values[of k new "inner t"]
    push_history_window[of "t\<lparr>inner := bt_put k new (inner t), gen := gen t + 1\<rparr>" "sp_log sp"
      "\<lparr>ch_key = k, ch_old = sp_paths sp k, ch_new = new\<rparr>"]
  by (auto simp: rib_rel_def spec_replace_def locrib_paths_def bt.get_put bt.inv_put fun_eq_iff)

lemma rib_rel_del:
  assumes "rib_rel t sp" "sp_paths sp k \<noteq> []"
  shows "rib_rel (push_history (recorded_diff \<lparr>ch_key = k, ch_old = sp_paths sp k, ch_new = []\<rparr>)
           (t\<lparr>inner := bt_del k (inner t), gen := gen t + 1\<rparr>)) (spec_replace k [] sp)"
  using assms
    push_history_window[of "t\<lparr>inner := bt_del k (inner t), gen := gen t + 1\<rparr>" "sp_log sp"
      "\<lparr>ch_key = k, ch_old = sp_paths sp k, ch_new = []\<rparr>"]
  by (auto simp: rib_rel_def spec_replace_def locrib_paths_def bt.get_del bt.inv_del fun_eq_iff
      set_bt_del)

lemmas diff_defs = recorded_diff_def documented_diff_def same_best_def no_event_def

lemma rib_rel_uninstall:
  assumes "rib_rel t sp"
  shows "rib_rel (fst (locrib_uninstall k t)) (spec_step (Uninstall k) sp)"
proof (cases "sp_paths sp k")
  case Nil
  with assms show ?thesis by (simp add: locrib_uninstall_def rib_rel_get spec_replace_def)
next
  case (Cons a as)
  with assms rib_rel_del[OF assms, of k] show ?thesis by (simp add: locrib_uninstall_def rib_rel_get diff_defs)
qed

lemma rib_rel_install_set:
  assumes "rib_rel t sp"
  shows "rib_rel (locrib_install_set k rs t) (spec_step (InstallSet k rs) sp)"
proof (cases rs)
  case Nil
  then show ?thesis using rib_rel_uninstall[OF assms, of k] by (simp add: locrib_install_set_def)
next
  case (Cons b bs)
  show ?thesis
  proof (cases "rs = sp_paths sp k")
    case True
    with Cons assms show ?thesis
      by (auto simp: locrib_install_set_def rib_rel_get[OF assms] spec_replace_def)
  next
    case False
    define d where "d = (case first_path (sp_paths sp k) of
        None \<Rightarrow> \<lparr>added = [b], removed = [], modified = []\<rparr>
      | Some old \<Rightarrow>
          if path_id old = path_id b then \<lparr>added = [], removed = [], modified = [b]\<rparr>
          else \<lparr>added = [b], removed = [k], modified = []\<rparr>)"
    have d: "recorded_diff \<lparr>ch_key = k, ch_old = sp_paths sp k, ch_new = rs\<rparr> = d"
      using Cons by (cases "sp_paths sp k") (auto simp: diff_defs d_def)
    have "locrib_install_set k rs t = push_history d (t\<lparr>inner := bt_put k rs (inner t), gen := gen t + 1\<rparr>)"
      using Cons False by (simp add: locrib_install_set_def rib_rel_get[OF assms] rib_rel_best[OF assms] d_def Let_def)
    moreover have "rs \<noteq> []" using Cons by simp
    ultimately show ?thesis using rib_rel_put[OF assms False, unfolded d] by simp
  qed
qed

lemma upsert_path_id: "old \<noteq> [] \<Longrightarrow> path_id (hd (upsert_path r old)) = path_id (hd old)"
  by (cases old) auto

lemma first_path_hd: "first_path xs = (if xs = [] then None else Some (hd xs))"
  by (cases xs) auto

lemma rib_rel_install:
  assumes "rib_rel t sp"
  shows "rib_rel (fst (locrib_install r t)) (spec_step (Install r) sp)"
proof -
  define old where "old = sp_paths sp (key r)"
  have paths: "locrib_paths t (key r) = old"
    using assms by (simp add: rib_rel_def old_def)
  define t' where "t' = t\<lparr>inner := bt_put (key r) (upsert_path r old) (inner t), gen := gen t + 1\<rparr>"
  have best: "locrib_best t' (key r) = Some (hd (upsert_path r old))"
    using assms by (simp add: locrib_best_def t'_def rib_rel_def bt.get_put first_path_hd)
  have same: "find (\<lambda>x. path_id x = path_id r) old = Some r \<longleftrightarrow> upsert_path r old = old"
    by (simp add: upsert_path_same)
  show ?thesis
  proof (cases "upsert_path r old = old")
    case True
    with assms show ?thesis
      by (simp add: locrib_install_def paths same spec_replace_def Let_def flip: old_def)
  next
    case False
    have d: "recorded_diff \<lparr>ch_key = key r, ch_old = old, ch_new = upsert_path r old\<rparr> =
        (if old \<noteq> [] then \<lparr>added = [], removed = [], modified = [hd (upsert_path r old)]\<rparr>
         else \<lparr>added = [hd (upsert_path r old)], removed = [], modified = []\<rparr>)"
      using upsert_path_id[of old r] by (auto simp: diff_defs first_path_hd)
    note put = rib_rel_put[OF assms, of "upsert_path r old" "key r", folded old_def, OF False upsert_path_not_Nil, unfolded d]
    from put False best show ?thesis
      by (cases "old = []")
        (simp_all add: locrib_install_def paths same rib_rel_get[OF assms] Let_def t'_def
          flip: old_def)
  qed
qed

lemma rib_rel_step: "rib_rel t sp \<Longrightarrow> rib_rel (locrib_step op t) (spec_step op sp)"
  using rib_rel_install rib_rel_install_set rib_rel_uninstall by (cases op) (simp_all only: locrib_step.simps)

lemma rib_rel_new: "rib_rel locrib_new spec_new"
  by (simp add: rib_rel_def locrib_new_def spec_new_def locrib_paths_def log_window_def fun_eq_iff)

lemma rib_rel_fold: "rib_rel t sp \<Longrightarrow> rib_rel (fold locrib_step ops t) (fold spec_step ops sp)"
  by (induction ops arbitrary: t sp) (auto simp del: locrib_step.simps spec_step.simps intro: rib_rel_step)

lemma rib_rel_run: "rib_rel (locrib_run ops) (spec_run ops)"
  unfolding locrib_run_def spec_run_def by (rule rib_rel_fold[OF rib_rel_new])

lemma extend_diff_takeWhile:
  "extend_diff hs g out =
     (let ds = map snd (takeWhile (\<lambda>(g', _). g < g') hs)
      in \<lparr>added = added out @ concat (map added ds), removed = removed out @ concat (map removed ds),
          modified = modified out @ concat (map modified ds)\<rparr>)"
  by (induction hs g out rule: extend_diff.induct) (auto simp: Let_def)

lemma takeWhile_window:
  "takeWhile (\<lambda>(g', _). g < g') (rev (drop m (enumerate (Suc 0) log))) =
     rev (drop (max g m) (enumerate (Suc 0) log))"
proof (induction log rule: rev_induct)
  case (snoc d log)
  then show ?case
    by (cases "m \<le> length log"; cases "g \<le> length log") (auto simp: enumerate_append_eq)
qed simp

lemma snd_rev_drop_enumerate: "map snd (rev (drop n (enumerate m xs))) = rev (drop n xs)"
  by (simp add: rev_map[symmetric] drop_map[symmetric])

lemma takeWhile_log_window:
  assumes "length log < 2 ^ 64"
  shows "takeWhile (\<lambda>(g', _). g < g') (rev (log_window log)) =
    map (\<lambda>(n, c). (of_nat n, recorded_diff c)) (rev (drop (max (unat g) (length log - 16)) (enumerate (Suc 0) log)))"
proof -
  have lt: "g < of_nat n \<longleftrightarrow> unat g < n" if "(n, c) \<in> set (rev (drop (length log - 16) (enumerate (Suc 0) log)))" for n c
  proof -
    have "n < 2 ^ 64" using that assms in_set_dropD[of "(n, c)"] by (fastforce simp: in_set_enumerate_eq)
    then show ?thesis by (simp add: word_less_nat_alt unat_of_nat take_bit_nat_eq_self)
  qed
  have "takeWhile (\<lambda>(g', _). g < g') (rev (log_window log)) =
      map (\<lambda>(n, c). (of_nat n, recorded_diff c))
        (takeWhile (\<lambda>(n, _). g < of_nat n) (rev (drop (length log - 16) (enumerate (Suc 0) log))))"
    by (simp add: log_window_def rev_map takeWhile_map comp_def case_prod_unfold)
  also have "takeWhile (\<lambda>(n, _). g < of_nat n) (rev (drop (length log - 16) (enumerate (Suc 0) log))) =
      takeWhile (\<lambda>(n, _). unat g < n) (rev (drop (length log - 16) (enumerate (Suc 0) log)))"
    by (rule takeWhile_cong[OF refl]) (auto simp only: lt split: prod.split)
  finally show ?thesis by (simp only: takeWhile_window)
qed

lemma rib_rel_diff_since:
  assumes "rib_rel t sp" and "length (sp_log sp) < 2 ^ 64"
  shows "diff_since t g = merge_diffs (map recorded_diff (rev (drop (max (unat g) (length (sp_log sp) - 16)) (sp_log sp))))"
proof -
  have "map snd (takeWhile (\<lambda>(g', _). g < g') (rev (history t))) =
      map recorded_diff (map snd (rev (drop (max (unat g) (length (sp_log sp) - 16)) (enumerate (Suc 0) (sp_log sp)))))"
    using assms takeWhile_log_window[OF assms(2), of g] by (simp add: rib_rel_def comp_def case_prod_unfold)
  then show ?thesis
    by (simp only: diff_since_def extend_diff_takeWhile Let_def snd_rev_drop_enumerate merge_diffs_def rib_diff.simps append_Nil)
qed

section \<open>Properties\<close>

text \<open>
  C1.  Any sequence of \<open>install\<close>, \<open>install_set\<close> and \<open>uninstall\<close> calls on a new Loc-RIB implements the
  contract: \<open>paths\<close> answers the total map, \<open>best\<close> is the head of that answer, the generation is the number
  of changes modulo \<open>2 ^ 64\<close>, and the history holds the last sixteen changes.  Each is recorded with the events the
  comment on \<open>install_set\<close> gives it, except that a change behind an unchanged best path, for which the comment
  has no event, is recorded as a modification of the best path.
\<close>

theorem locrib_refines_spec:
  "let t = locrib_run ops; sp = spec_run ops
   in locrib_paths t k = sp_paths sp k \<and> locrib_best t k = first_path (sp_paths sp k) \<and>
      gen t = of_nat (length (sp_log sp)) \<and> history t = log_window (sp_log sp)"
  using rib_rel_run[of ops] rib_rel_best[OF rib_rel_run[of ops]]
  by (simp add: rib_rel_def Let_def)

text \<open>
  \<open>diff_since(g)\<close> reports, newest first, exactly the logged changes after generation \<open>g\<close>, cut to
  the last sixteen: a caller that is at most sixteen generations behind misses nothing, and one
  that is further behind silently misses the older changes.  This holds until the counter wraps around.
\<close>

theorem diff_since_window:
  assumes "length (sp_log (spec_run ops)) < 2 ^ 64"
  shows "diff_since (locrib_run ops) g =
     merge_diffs (map recorded_diff
       (rev (drop (max (unat g) (length (sp_log (spec_run ops)) - 16)) (sp_log (spec_run ops)))))"
  by (rule rib_rel_diff_since[OF rib_rel_run assms])

text \<open>
  \<open>install\<close> on a reachable Loc-RIB reports \<open>false\<close> exactly when nothing changed; otherwise the
  generation grows by one, the route is among the paths of its key, paths with other identifiers
  stay, and every other key is untouched.
\<close>

theorem install_behaviour:
  "let t = locrib_run ops; res = locrib_install r t; t' = fst res
   in (snd res \<longleftrightarrow> t' \<noteq> t) \<and> gen t' = gen t + (if snd res then 1 else 0) \<and>
      r \<in> set (locrib_paths t' (key r)) \<and>
      filter (\<lambda>x. path_id x \<noteq> path_id r) (locrib_paths t' (key r)) =
        filter (\<lambda>x. path_id x \<noteq> path_id r) (locrib_paths t (key r)) \<and>
      (\<forall>k. k = key r \<or> locrib_paths t' k = locrib_paths t k)"
proof -
  define t where "t = locrib_run ops"
  define res where "res = locrib_install r t"
  define sp where "sp = spec_run ops"
  have rel: "rib_rel t sp" unfolding t_def sp_def by (rule rib_rel_run)
  have g: "gen (fst res) = gen t + (if snd res then 1 else 0)"
    by (simp add: res_def t_def locrib_install_def Let_def)
  have ch: "snd res \<longleftrightarrow> fst res \<noteq> t"
  proof
    assume "snd res"
    with g have "gen (fst res) \<noteq> gen t" by simp
    then show "fst res \<noteq> t" by auto
  qed (auto simp: res_def t_def locrib_install_def Let_def split: if_splits)
  have rel': "rib_rel (fst res) (spec_step (Install r) sp)"
    using rib_rel_install[OF rel] by (simp add: res_def t_def)
  have paths: "locrib_paths (fst res) k = (if k = key r then upsert_path r (locrib_paths t k)
      else locrib_paths t k)" for k
    using rel rel' by (auto simp: rib_rel_def spec_replace_def Let_def)
  have "r \<in> set (upsert_path r xs)" for xs by (induction xs) auto
  moreover have "filter (\<lambda>x. path_id x \<noteq> path_id r) (upsert_path r xs) =
      filter (\<lambda>x. path_id x \<noteq> path_id r) xs" for xs by (induction xs) auto
  ultimately show ?thesis
    using ch g paths unfolding Let_def t_def[symmetric] res_def[symmetric] by auto
qed

text \<open>
  Replacing a path set by one with the same best path but other runner-ups is recorded as a
  modification of the best path, with a new generation, although the best path did not change.
\<close>

theorem install_set_same_best_event:
  assumes "t = locrib_run ops" "locrib_paths t k = b # rs" "rs' \<noteq> rs"
  shows "gen (locrib_install_set k (b # rs') t) = gen t + 1 \<and>
    locrib_best (locrib_install_set k (b # rs') t) k = locrib_best t k \<and>
    last (history (locrib_install_set k (b # rs') t)) =
      (gen t + 1, \<lparr>added = [], removed = [], modified = [b]\<rparr>)"
proof -
  have get: "bt_get (inner t) k = Some (b # rs)"
    using assms(2) by (auto simp: locrib_paths_def split: option.splits)
  have "bt_inv (inner t)"
    using rib_rel_run[of ops] by (simp add: assms(1) rib_rel_def)
  then show ?thesis
    using assms(3) get
    by (simp add: locrib_install_set_def locrib_best_def Let_def push_history_def bt.get_put)
qed

theorem install_set_same_best_event_witness:
  "let t = locrib_run [InstallSet sample_key [sample_route 1, sample_route 2]]
   in gen (locrib_install_set sample_key [sample_route 1, sample_route 3] t) = gen t + 1 \<and>
      locrib_best (locrib_install_set sample_key [sample_route 1, sample_route 3] t) sample_key =
        locrib_best t sample_key \<and>
      last (history (locrib_install_set sample_key [sample_route 1, sample_route 3] t)) =
        (gen t + 1, \<lparr>added = [], removed = [], modified = [sample_route 1]\<rparr>)"
  unfolding Let_def
  by (rule install_set_same_best_event[OF refl, where rs = "[sample_route 2]"])
    (simp_all add: sample_route_def locrib_run_def locrib_new_def locrib_install_set_def
      locrib_paths_def locrib_best_def push_history_def)

end
