(* ===== verification/LR_AdjRib.thy ===== *)
theory LR_AdjRib
  imports LR_RibTypes
begin

text \<open>
  The per-peer tables \<open>crates/lr-rib/src/adj_rib_in.rs\<close> and \<open>adj_rib_out.rs\<close>, the cross-protocol
  multiplexer \<open>merging.rs\<close> and the route comparator of \<open>selection.rs\<close>.  The bulk operations of the
  per-peer tables walk the key range between the extreme route keys; the lemmas show that this
  range is exactly the peer's slice of the table, so that a bulk operation reaches every route of
  the peer and no route of another one.
\<close>

section \<open>Adj-RIB-In\<close>

type_synonym adj_rib_in = "(route_origin \<times> route_key \<times> u32, route) btree"

definition feed_pre_policy :: "route_origin \<Rightarrow> route \<Rightarrow> adj_rib_in \<Rightarrow> adj_rib_in" where
  "feed_pre_policy ori r m = bt_put (ori, key r, path_id r) r m"

definition adj_withdraw ::
    "route_origin \<Rightarrow> route_key \<Rightarrow> u32 \<Rightarrow> adj_rib_in \<Rightarrow> adj_rib_in \<times> route option" where
  "adj_withdraw ori k pid m = (bt_del (ori, k, pid) m, bt_get m (ori, k, pid))"

definition origin_range :: "route_origin \<Rightarrow> adj_rib_in \<Rightarrow> adj_rib_in" where
  "origin_range ori m = bt_range (ori, min_route_key, 0) (ori, max_route_key, - 1) m"

definition iter_origin :: "adj_rib_in \<Rightarrow> route_origin \<Rightarrow> route list" where
  "iter_origin m ori = map snd (origin_range ori m)"

definition adj_get :: "adj_rib_in \<Rightarrow> route_origin \<Rightarrow> route_key \<Rightarrow> u32 \<Rightarrow> route option" where
  "adj_get m ori k pid = bt_get m (ori, k, pid)"

text \<open>
  One turn of the loop of \<open>mutate_origin\<close>; the \<open>expect\<close> panic of the source is the value \<open>None\<close>.
\<close>

definition mutate_step ::
    "(route \<Rightarrow> route option) \<Rightarrow> route_origin \<times> route_key \<times> u32 \<Rightarrow>
     adj_rib_in \<times> nat \<Rightarrow> (adj_rib_in \<times> nat) option" where
  "mutate_step f k st =
     (case bt_get (fst st) k of
        None \<Rightarrow> None
      | Some r \<Rightarrow>
          (case f r of
             Some r' \<Rightarrow> Some (bt_put k r' (bt_del k (fst st)), snd st)
           | None \<Rightarrow> Some (bt_del k (fst st), snd st + 1)))"

fun mutate_keys ::
    "(route \<Rightarrow> route option) \<Rightarrow> (route_origin \<times> route_key \<times> u32) list \<Rightarrow>
     adj_rib_in \<times> nat \<Rightarrow> (adj_rib_in \<times> nat) option" where
  "mutate_keys f [] st = Some st"
| "mutate_keys f (k # ks) st = Option.bind (mutate_step f k st) (mutate_keys f ks)"

definition mutate_origin ::
    "route_origin \<Rightarrow> (route \<Rightarrow> route option) \<Rightarrow> adj_rib_in \<Rightarrow> (adj_rib_in \<times> nat) option" where
  "mutate_origin ori f m = mutate_keys f (map fst (origin_range ori m)) (m, 0)"

definition origins_for :: "adj_rib_in \<Rightarrow> route_key \<Rightarrow> route_origin list" where
  "origins_for m k = map fst (filter (\<lambda>(_, k', _). k' = k) (map fst m))"

definition adj_in_clear_for :: "route_origin \<Rightarrow> adj_rib_in \<Rightarrow> adj_rib_in" where
  "adj_in_clear_for ori m = fold bt_del (map fst (origin_range ori m)) m"

section \<open>Adj-RIB-Out\<close>

type_synonym adj_rib_out = "(route_origin \<times> route_key, (u32, route) btree) btree"

definition advertise :: "route_origin \<Rightarrow> route \<Rightarrow> u32 \<Rightarrow> adj_rib_out \<Rightarrow> adj_rib_out" where
  "advertise dest r tx m =
     (let cur = (case bt_get m (dest, key r) of None \<Rightarrow> [] | Some s \<Rightarrow> s)
      in bt_put (dest, key r) (bt_put tx r cur) m)"

definition suppress ::
    "route_origin \<Rightarrow> route_key \<Rightarrow> u32 \<Rightarrow> adj_rib_out \<Rightarrow> adj_rib_out \<times> route option" where
  "suppress dest k tx m =
     (case bt_get m (dest, k) of
        None \<Rightarrow> (m, None)
      | Some s \<Rightarrow>
          let s' = bt_del tx s
          in (if s' = [] then bt_del (dest, k) m else bt_put (dest, k) s' m, bt_get s tx))"

definition paths_for :: "adj_rib_out \<Rightarrow> route_origin \<Rightarrow> route_key \<Rightarrow> (u32 \<times> route) list" where
  "paths_for m dest k = (case bt_get m (dest, k) of None \<Rightarrow> [] | Some s \<Rightarrow> s)"

definition tx_path_ids :: "adj_rib_out \<Rightarrow> route_origin \<Rightarrow> route_key \<Rightarrow> u32 list" where
  "tx_path_ids m dest k = (case bt_get m (dest, k) of None \<Rightarrow> [] | Some s \<Rightarrow> map fst s)"

definition dest_range :: "route_origin \<Rightarrow> adj_rib_out \<Rightarrow> adj_rib_out" where
  "dest_range dest m = bt_range (dest, min_route_key) (dest, max_route_key) m"

definition advertised_keys ::
    "adj_rib_out \<Rightarrow> route_origin \<Rightarrow> nlri_family \<Rightarrow> (route_key \<times> u32 list) list" where
  "advertised_keys m dest fam =
     map (\<lambda>((_, k), s). (k, map fst s))
       (filter (\<lambda>((_, k), _). rk_family k = fam) (dest_range dest m))"

definition iter_for :: "adj_rib_out \<Rightarrow> route_origin \<Rightarrow> route list" where
  "iter_for m dest = concat (map (\<lambda>(_, s). map snd s) (dest_range dest m))"

definition adj_out_len :: "adj_rib_out \<Rightarrow> nat" where
  "adj_out_len m = sum_list (map (\<lambda>(_, s). length s) m)"

definition adj_out_clear_for :: "route_origin \<Rightarrow> adj_rib_out \<Rightarrow> adj_rib_out" where
  "adj_out_clear_for dest m = fold bt_del (map fst (dest_range dest m)) m"

text \<open>The path a peer was last told under an identifier.\<close>

definition advertised :: "adj_rib_out \<Rightarrow> route_origin \<Rightarrow> route_key \<Rightarrow> u32 \<Rightarrow> route option" where
  "advertised m dest k tx = Option.bind (bt_get m (dest, k)) (\<lambda>s. bt_get s tx)"

definition adj_out_inv :: "adj_rib_out \<Rightarrow> bool" where
  "adj_out_inv m \<longleftrightarrow> bt_inv m \<and> (\<forall>s \<in> snd ` set m. s \<noteq> [] \<and> bt_inv s)"

section \<open>The multiplexer and the comparator\<close>

type_synonym rib_mux = "(route_key, route) btree"

definition mux_install :: "route \<Rightarrow> rib_mux \<Rightarrow> rib_mux" where
  "mux_install r m =
     (case bt_get m (key r) of
        Some prev \<Rightarrow> if pref_le (preference prev) (preference r) then m else bt_put (key r) r m
      | None \<Rightarrow> bt_put (key r) r m)"

definition mux_uninstall :: "route_key \<Rightarrow> rib_mux \<Rightarrow> rib_mux \<times> route option" where
  "mux_uninstall k m = (bt_del k m, bt_get m k)"

definition mux_get :: "rib_mux \<Rightarrow> route_key \<Rightarrow> route option" where
  "mux_get m k = bt_get m k"

fun proto_priority :: "protocol \<Rightarrow> u8" where
  "proto_priority Connected = 0"
| "proto_priority Static = 1"
| "proto_priority Bgp = 2"
| "proto_priority Ospfv2 = 3"
| "proto_priority Ospfv3 = 3"
| "proto_priority Babel = 4"
| "proto_priority (Other _) = 9"

definition selector_compare :: "route \<Rightarrow> route \<Rightarrow> ordering" where
  "selector_compare a b =
     (let by_admin = cmp (admin_distance (preference a)) (admin_distance (preference b));
          by_metric = cmp (metric (preference a)) (metric (preference b));
          by_age = cmp (age_ms a) (age_ms b)
      in if by_admin \<noteq> Equal then by_admin
         else if by_metric \<noteq> Equal then by_metric
         else if by_age \<noteq> Equal then by_age
         else cmp (proto_priority (route_protocol a)) (proto_priority (route_protocol b)))"

definition selector_select :: "route list \<Rightarrow> route option" where
  "selector_select routes = min_by selector_compare routes"

section \<open>A peer's slice of the table\<close>

definition adj_in_wf :: "adj_rib_in \<Rightarrow> bool" where
  "adj_in_wf m \<longleftrightarrow> bt_inv m \<and> (\<forall>(_, k, _) \<in> fst ` set m. key_wf k)"

definition adj_out_wf :: "adj_rib_out \<Rightarrow> bool" where
  "adj_out_wf m \<longleftrightarrow> adj_out_inv m \<and> (\<forall>(_, k) \<in> fst ` set m. key_wf k)"

lemma origin_range_slice:
  assumes "adj_in_wf m"
  shows "origin_range ori m = filter (\<lambda>((o', _), _). o' = ori) m"
  unfolding origin_range_def bt_range_def
proof (rule filter_cong[OF refl], clarify)
  fix o' k pid r assume "((o', k, pid), r) \<in> set m"
  with assms have "key_wf k" by (force simp: adj_in_wf_def)
  from key_between[OF this] show "((ori, min_route_key, 0) \<le> (o', k, pid) \<and>
      (o', k, pid) \<le> (ori, max_route_key, - 1)) = (o' = ori)"
    by (auto simp: order.order_iff_strict word_gt_0 less_max_word)
qed

lemma dest_range_slice:
  assumes "adj_out_wf m"
  shows "dest_range dest m = filter (\<lambda>((d, _), _). d = dest) m"
  unfolding dest_range_def bt_range_def
proof (rule filter_cong[OF refl], clarify)
  fix d k s assume "((d, k), s) \<in> set m"
  with assms have "key_wf k" by (force simp: adj_out_wf_def)
  from key_between[OF this] show "((dest, min_route_key) \<le> (d, k) \<and>
      (d, k) \<le> (dest, max_route_key)) = (d = dest)"
    by (auto simp: order.order_iff_strict)
qed

lemma origin_range_keys:
  assumes "adj_in_wf m"
  shows "(o', k, pid) \<in> fst ` set (origin_range ori m) \<longleftrightarrow>
    o' = ori \<and> bt_get m (o', k, pid) \<noteq> None"
  using assms by (force simp: origin_range_slice bt_get_None)

lemma mutate_keys_total:
  assumes "bt_inv m" "distinct ks" "\<forall>k \<in> set ks. bt_get m k \<noteq> None"
  shows "\<exists>m' n'. mutate_keys f ks (m, n) = Some (m', n') \<and> bt_inv m' \<and>
    (\<forall>k. bt_get m' k = (if k \<in> set ks then Option.bind (bt_get m k) f else bt_get m k)) \<and>
    n' = n + length (filter (\<lambda>k. Option.bind (bt_get m k) f = None) ks)"
  using assms
proof (induction ks arbitrary: m n)
  case (Cons k ks)
  then obtain r where r: "bt_get m k = Some r" by auto
  define m1 where "m1 = (case f r of None \<Rightarrow> bt_del k m | Some w \<Rightarrow> bt_put k w (bt_del k m))"
  define n1 where "n1 = (if f r = None then n + 1 else n)"
  have step: "mutate_step f k (m, n) = Some (m1, n1)"
    by (auto simp: mutate_step_def r m1_def n1_def split: option.split)
  have inv1: "bt_inv m1" unfolding m1_def by (rule bt.inv_update[OF Cons.prems(1)])
  have get1: "bt_get m1 k' = (if k' = k then f r else bt_get m k')" for k'
    unfolding m1_def by (rule bt.get_update[OF Cons.prems(1)])
  have ks: "distinct ks" "\<forall>k' \<in> set ks. bt_get m1 k' \<noteq> None"
    using Cons.prems by (auto simp: get1)
  from Cons.IH[OF inv1 ks, of n1] obtain m' n' where
    "mutate_keys f ks (m1, n1) = Some (m', n')" "bt_inv m'"
    "\<forall>k. bt_get m' k = (if k \<in> set ks then Option.bind (bt_get m1 k) f else bt_get m1 k)"
    "n' = n1 + length (filter (\<lambda>k. Option.bind (bt_get m1 k) f = None) ks)"
    by blast
  moreover have "filter (\<lambda>k. Option.bind (bt_get m1 k) f = None) ks =
      filter (\<lambda>k. Option.bind (bt_get m k) f = None) ks"
    using Cons.prems(2) by (intro filter_cong) (auto simp: get1)
  ultimately show ?case
    using Cons.prems(2) by (auto simp: step get1 r n1_def)
qed simp

lemma origin_range_distinct: "adj_in_wf m \<Longrightarrow> distinct (map fst (origin_range ori m))"
  by (simp add: origin_range_def bt_inv_distinct bt_inv_range adj_in_wf_def)

lemma adj_in_clear_for_get:
  assumes "adj_in_wf m"
  shows "adj_get (adj_in_clear_for ori m) o' k pid = (if o' = ori then None else adj_get m o' k pid)"
  using assms origin_range_keys[OF assms, of o' k pid ori]
  by (auto simp: adj_get_def adj_in_clear_for_def adj_in_wf_def bt.get_fold_del)

lemma adj_in_wf_sub:
  assumes "bt_inv m'" "\<And>k. bt_get m' k \<noteq> None \<Longrightarrow> bt_get m k \<noteq> None" "adj_in_wf m"
  shows "adj_in_wf m'"
proof -
  have "k \<in> fst ` set m" if "k \<in> fst ` set m'" for k
    using assms(2)[of k] that by (simp add: bt_get_None)
  then have "fst ` set m' \<subseteq> fst ` set m" by (rule subsetI)
  then show ?thesis using assms(1,3) unfolding adj_in_wf_def by (meson subsetD)
qed

lemma adj_in_wf_feed: "adj_in_wf m \<Longrightarrow> key_wf (key r) \<Longrightarrow> adj_in_wf (feed_pre_policy ori r m)"
  by (auto simp: adj_in_wf_def feed_pre_policy_def bt.inv_put fst_set_bt_put)

lemma adj_in_wf_withdraw: "adj_in_wf m \<Longrightarrow> adj_in_wf (fst (adj_withdraw ori k pid m))"
  by (rule adj_in_wf_sub) (auto simp: adj_in_wf_def adj_withdraw_def bt.inv_del bt.get_del split: if_splits)

lemma adj_in_wf_clear_for: "adj_in_wf m \<Longrightarrow> adj_in_wf (adj_in_clear_for ori m)"
  by (rule adj_in_wf_sub)
    (auto simp: adj_in_wf_def adj_in_clear_for_def bt.inv_fold_del bt.get_fold_del split: if_splits)

lemma adj_out_get_inv: "adj_out_inv m \<Longrightarrow> bt_get m k = Some s \<Longrightarrow> s \<noteq> [] \<and> bt_inv s"
  by (force simp: adj_out_inv_def bt_get_in)

lemma adj_out_inv_put: "adj_out_inv m \<Longrightarrow> bt_inv s \<Longrightarrow> s \<noteq> [] \<Longrightarrow> adj_out_inv (bt_put k s m)"
  using bt_put_values[of k s m] by (auto simp: adj_out_inv_def bt.inv_put)

lemma adj_out_inv_del: "adj_out_inv m \<Longrightarrow> adj_out_inv (bt_del k m)"
  by (auto simp: adj_out_inv_def bt.inv_del set_bt_del)

lemma adj_out_inv_advertise:
  assumes "adj_out_inv m"
  shows "adj_out_inv (advertise dest r tx m)"
  unfolding advertise_def Let_def using assms
  by (auto intro!: adj_out_inv_put bt.inv_put simp: bt_inv_Cons dest: adj_out_get_inv split: option.split)

lemma adj_out_inv_suppress:
  assumes "adj_out_inv m"
  shows "adj_out_inv (fst (suppress dest k tx m))"
  unfolding suppress_def Let_def using assms
  by (auto intro!: adj_out_inv_put adj_out_inv_del bt.inv_del dest: adj_out_get_inv split: option.split)

definition selector_key :: "route \<Rightarrow> u32 \<times> u32 \<times> u64 \<times> u8" where
  "selector_key r = (admin_distance (preference r), metric (preference r), age_ms r,
     proto_priority (route_protocol r))"

interpretation sel: key_comparator selector_compare selector_key
  by unfold_locales (auto simp: selector_compare_def selector_key_def cmp_def Let_def)

definition pref_cmp :: "route \<Rightarrow> route \<Rightarrow> ordering" where
  "pref_cmp a b = cmp (admin_distance (preference a), metric (preference a))
     (admin_distance (preference b), metric (preference b))"

interpretation mux: key_comparator pref_cmp "\<lambda>r. (admin_distance (preference r), metric (preference r))"
  by unfold_locales (simp add: pref_cmp_def)

lemma mux_install_get:
  assumes "bt_inv m"
  shows "bt_inv (mux_install r m)"
    and "mux_get (mux_install r m) k =
      (if k = key r
       then (case mux_get m k of None \<Rightarrow> Some r | Some p \<Rightarrow> Some (if pref_cmp p r = Greater then r else p))
       else mux_get m k)"
  using assms
  by (auto simp: mux_install_def mux_get_def bt.inv_put bt.get_put pref_le_def pref_cmp_def cmp_def
      split: option.split)

lemma mux_fold_get:
  assumes "bt_inv m"
  shows "mux_get (fold mux_install rs m) k =
    (case mux_get m k of
       None \<Rightarrow> min_by pref_cmp (filter (\<lambda>r. key r = k) rs)
     | Some p \<Rightarrow> min_by pref_cmp (p # filter (\<lambda>r. key r = k) rs))"
  using assms
proof (induction rs arbitrary: m)
  case (Cons r rs)
  then show ?case
    using mux_install_get[OF Cons.prems] by (auto split: option.split)
qed (auto split: option.split)

section \<open>Properties\<close>

text \<open>
  The range walk behind \<open>iter_origin\<close> visits exactly the routes of the peer, whatever their
  address family and source prefix.
\<close>

theorem iter_origin_exact:
  assumes "adj_in_wf m"
  shows "set (iter_origin m ori) = {r. \<exists>k pid. adj_get m ori k pid = Some r}"
proof -
  have "bt_inv m" using assms by (simp add: adj_in_wf_def)
  then show ?thesis
    by (force simp: iter_origin_def origin_range_slice[OF assms] adj_get_def bt_get_in)
qed

definition sample_v6_route :: route where
  "sample_v6_route = (sample_route 4)\<lparr>key := RouteKey (Prefix (V6 (replicate 16 0x20)) 64) IPV6_UNICAST
     (Some (Prefix (V6 (replicate 16 0x30)) 48))\<rparr>"

definition sample_adj_in :: adj_rib_in where
  "sample_adj_in = fold (\<lambda>(ori, r). feed_pre_policy ori r)
     [(RouteOrigin 1 7, sample_route 1), (RouteOrigin 1 8, sample_route 1),
      (RouteOrigin 1 7, sample_v6_route)] []"

lemma sample_adj_in_wf: "adj_in_wf sample_adj_in"
proof -
  have "adj_in_wf []" by (simp add: adj_in_wf_def)
  moreover have "key_wf (key (sample_route 1))" "key_wf (key sample_v6_route)"
    by (simp_all add: key_wf_def sample_route_def sample_key_def sample_v6_route_def prefix_wf_def)
  ultimately show ?thesis by (simp add: sample_adj_in_def adj_in_wf_feed)
qed

theorem iter_origin_exact_witness:
  "adj_in_wf sample_adj_in \<and>
   set (iter_origin sample_adj_in (RouteOrigin 1 7)) =
     {r. \<exists>k pid. adj_get sample_adj_in (RouteOrigin 1 7) k pid = Some r}"
  using iter_origin_exact[OF sample_adj_in_wf] sample_adj_in_wf by blast

text \<open>
  \<open>clear_for\<close> removes every route of the peer and leaves every other peer's routes alone, and
  the table stays well formed.
\<close>

theorem adj_in_clear_for_exact:
  assumes "adj_in_wf m"
  shows "adj_get (adj_in_clear_for ori m) o' k pid =
      (if o' = ori then None else adj_get m o' k pid) \<and> adj_in_wf (adj_in_clear_for ori m)"
  using adj_in_clear_for_get[OF assms] adj_in_wf_clear_for[OF assms] by simp

theorem adj_in_clear_for_exact_witness:
  "adj_in_wf sample_adj_in \<and>
   adj_get (adj_in_clear_for (RouteOrigin 1 7) sample_adj_in) (RouteOrigin 1 8) sample_key 1 =
     adj_get sample_adj_in (RouteOrigin 1 8) sample_key 1"
  using adj_in_clear_for_exact[OF sample_adj_in_wf, of "RouteOrigin 1 7" "RouteOrigin 1 8" sample_key 1]
    sample_adj_in_wf by simp

text \<open>
  C25.  \<open>mutate_origin\<close> never reaches its \<open>expect\<close> panic.  Every route of the peer is replaced by the
  closure's answer under the key it was stored with, or removed; other peers' routes stay; and the
  returned count is the number of routes that were removed.
\<close>

theorem mutate_origin_exact:
  assumes "adj_in_wf m"
  shows "\<exists>m' n. mutate_origin ori f m = Some (m', n) \<and> adj_in_wf m' \<and>
    (\<forall>o' k pid. adj_get m' o' k pid =
       (if o' = ori then Option.bind (adj_get m o' k pid) f else adj_get m o' k pid)) \<and>
    n = length (filter (\<lambda>r. f r = None) (iter_origin m ori))"
proof -
  define ks where "ks = map fst (origin_range ori m)"
  have inv: "bt_inv m" using assms by (simp add: adj_in_wf_def)
  have mem: "(o', k, pid) \<in> set ks \<longleftrightarrow> o' = ori \<and> bt_get m (o', k, pid) \<noteq> None" for o' k pid
    using origin_range_keys[OF assms, of o' k pid ori] by (simp add: ks_def)
  have "\<forall>k \<in> set ks. bt_get m k \<noteq> None" using mem by auto
  from mutate_keys_total[OF inv origin_range_distinct[OF assms, of ori, folded ks_def] this, of f 0]
  obtain m' n' where run: "mutate_origin ori f m = Some (m', n')" "bt_inv m'"
    and get: "\<And>k. bt_get m' k = (if k \<in> set ks then Option.bind (bt_get m k) f else bt_get m k)"
    and n': "n' = length (filter (\<lambda>k. Option.bind (bt_get m k) f = None) ks)"
    by (auto simp: mutate_origin_def ks_def)
  have "filter (\<lambda>k. Option.bind (bt_get m k) f = None) ks =
      map fst (filter (\<lambda>(_, r). f r = None) (origin_range ori m))"
    unfolding ks_def filter_map o_def
    using inv by (intro arg_cong[where f = "map fst"] filter_cong)
      (auto simp: origin_range_def set_bt_range bt_get_in[THEN iffD2])
  then have "n' = length (filter (\<lambda>r. f r = None) (iter_origin m ori))"
    by (simp add: n' iter_origin_def filter_map o_def case_prod_unfold)
  moreover have "adj_in_wf m'"
    by (rule adj_in_wf_sub[OF run(2) _ assms]) (auto simp: get bind_eq_Some_conv split: if_splits)
  moreover have "adj_get m' o' k pid =
      (if o' = ori then Option.bind (adj_get m o' k pid) f else adj_get m o' k pid)" for o' k pid
    by (auto simp: adj_get_def get mem)
  ultimately show ?thesis using run by blast
qed

theorem mutate_origin_exact_witness:
  "adj_in_wf sample_adj_in \<and> (\<exists>m' n. mutate_origin (RouteOrigin 1 7) (\<lambda>r. None) sample_adj_in = Some (m', n) \<and>
     n = length (iter_origin sample_adj_in (RouteOrigin 1 7)))"
proof -
  obtain m' n where "mutate_origin (RouteOrigin 1 7) (\<lambda>r. None) sample_adj_in = Some (m', n)"
    "n = length (filter (\<lambda>r. None = (None :: route option)) (iter_origin sample_adj_in (RouteOrigin 1 7)))"
    using mutate_origin_exact[OF sample_adj_in_wf, of "RouteOrigin 1 7" "\<lambda>r. None"] by blast
  then show ?thesis using sample_adj_in_wf by simp
qed

text \<open>
  On an Adj-RIB-Out whose invariant holds (ascending keys, no empty path map), \<open>advertise\<close> and
  \<open>suppress\<close> change exactly the addressed path, keep the invariant, and \<open>suppress\<close> returns the path
  that was advertised.
\<close>

theorem adj_out_update:
  assumes "adj_out_inv m"
  shows "adj_out_inv (advertise dest r tx m) \<and> adj_out_inv (fst (suppress dest k tx m)) \<and>
    advertised (advertise dest r tx m) d' k' tx' =
      (if (d', k', tx') = (dest, key r, tx) then Some r else advertised m d' k' tx') \<and>
    advertised (fst (suppress dest k tx m)) d' k' tx' =
      (if (d', k', tx') = (dest, k, tx) then None else advertised m d' k' tx') \<and>
    snd (suppress dest k tx m) = advertised m dest k tx"
proof -
  have m: "bt_inv m" using assms by (simp add: adj_out_inv_def)
  have "advertised (advertise dest r tx m) d' k' tx' =
      (if (d', k', tx') = (dest, key r, tx) then Some r else advertised m d' k' tx')"
    using adj_out_get_inv[OF assms]
    by (auto simp: advertised_def advertise_def bt.get_put[OF m] bt.get_put Let_def split: option.split)
  moreover have "advertised (fst (suppress dest k tx m)) d' k' tx' =
      (if (d', k', tx') = (dest, k, tx) then None else advertised m d' k' tx')"
  proof (cases "bt_get m (dest, k)")
    case (Some s)
    then have s: "bt_get (bt_del tx s) tx' = (if tx' = tx then None else bt_get s tx')"
      using adj_out_get_inv[OF assms Some] by (simp add: bt.get_del)
    show ?thesis
    proof (cases "bt_del tx s = []")
      case True
      with s Some show ?thesis by (auto simp: advertised_def suppress_def bt.get_del[OF m])
    next
      case False
      with s Some show ?thesis by (auto simp: advertised_def suppress_def bt.get_put[OF m])
    qed
  qed (auto simp: advertised_def suppress_def)
  moreover have "snd (suppress dest k tx m) = advertised m dest k tx"
    by (auto simp: advertised_def suppress_def Let_def split: option.split)
  ultimately show ?thesis using adj_out_inv_advertise adj_out_inv_suppress assms by blast
qed

theorem adj_out_update_witness:
  "adj_out_inv [] \<and> advertised (advertise (RouteOrigin 1 7) (sample_route 1) 5 []) (RouteOrigin 1 7) sample_key 5 =
     Some (sample_route 1)"
  using adj_out_update[of "[]" "RouteOrigin 1 7" "sample_route 1" 5 sample_key "RouteOrigin 1 7" sample_key 5]
  by (simp add: adj_out_inv_def sample_route_def)

text \<open>
  After any sequence of installs the multiplexer holds, for each key, the earliest of the
  installed routes whose preference (administrative distance, then metric) is least.
\<close>

theorem mux_holds_best:
  "mux_get (fold mux_install rs []) k = min_by pref_cmp (filter (\<lambda>r. key r = k) rs)"
  using mux_fold_get[of "[]" rs k] by (simp add: mux_get_def)

text \<open>
  The route selector returns a route exactly when there is one, and the route it returns is
  one of the candidates that is least by administrative distance, then metric, then age, then
  protocol priority.
\<close>

theorem selector_select_least:
  "(selector_select rs = None \<longleftrightarrow> rs = []) \<and>
   (case selector_select rs of
      None \<Rightarrow> True
    | Some m \<Rightarrow> m \<in> set rs \<and> list_all (\<lambda>r. selector_key m \<le> selector_key r) rs)"
proof -
  have "selector_key m \<le> selector_key r" if "min_by selector_compare rs = Some m" "r \<in> set rs" for m r
    using sel.min_by_least[OF that] by (auto simp: sel.by_key cmp_def split: if_splits)
  moreover have "min_by selector_compare rs = None \<longleftrightarrow> rs = []" by (cases rs) auto
  ultimately show ?thesis
    using min_by_in_set[of selector_compare rs]
    by (auto simp: selector_select_def list_all_iff split: option.split)
qed

end
