(* ===== verification/LR_Timer.thy ===== *)
theory LR_Timer
  imports LR_Prelude "HOL-Library.Multiset"
begin

text \<open>
  The logical timer queue of \<open>crates/lr-core/src/timer.rs\<close> with the timer specifications of
  \<open>fsm.rs\<close>.  The \<open>BinaryHeap\<close> is a bag of entries: \<open>pop\<close> removes one of the entries with the least
  \<open>fire_at\<close>, and which one among equals is not specified.  The relation \<open>tick_step\<close> allows every
  choice; the function \<open>tick\<close> makes one.  The loop of \<open>tick\<close> is a partial function, since it need
  not end.
\<close>

section \<open>The queue\<close>

type_synonym timer_id = u32

record timer_spec =
  after_ms :: u64
  periodic_ms :: u64

definition timer_once :: "u64 \<Rightarrow> timer_spec" where
  "timer_once after = \<lparr>after_ms = after, periodic_ms = 0\<rparr>"

definition timer_periodic :: "u64 \<Rightarrow> u64 \<Rightarrow> timer_spec" where
  "timer_periodic after p = \<lparr>after_ms = after, periodic_ms = p\<rparr>"

record entry =
  fire_at :: u64
  period :: u64
  entry_id :: timer_id

type_synonym timer_queue = "entry list"

definition arm :: "u64 \<Rightarrow> timer_id \<Rightarrow> timer_spec \<Rightarrow> timer_queue \<Rightarrow> timer_queue" where
  "arm now i spec q =
     q @ [\<lparr>fire_at = saturating_add now (after_ms spec), period = periodic_ms spec, entry_id = i\<rparr>]"

definition timer_cancel :: "timer_id \<Rightarrow> timer_queue \<Rightarrow> timer_queue" where
  "timer_cancel i q = filter (\<lambda>e. entry_id e \<noteq> i) q"

definition cancel_all :: "timer_queue \<Rightarrow> timer_queue" where
  "cancel_all q = []"

definition entry_cmp :: "entry \<Rightarrow> entry \<Rightarrow> ordering" where
  "entry_cmp a b = cmp (fire_at b) (fire_at a)"

text \<open>\<open>peek\<close>: a greatest entry in the reversed order of \<open>Entry::cmp\<close>.\<close>

definition heap_peek :: "timer_queue \<Rightarrow> entry option" where
  "heap_peek q = min_by (\<lambda>a b. reverse (entry_cmp a b)) q"

definition next_fire :: "timer_queue \<Rightarrow> u64 option" where
  "next_fire q = map_option fire_at (heap_peek q)"

definition reschedule :: "entry \<Rightarrow> entry list" where
  "reschedule e =
     (if 0 < period e then [e\<lparr>fire_at := saturating_add (fire_at e) (period e)\<rparr>] else [])"

partial_function (option) tick_loop ::
    "u64 \<Rightarrow> timer_queue \<Rightarrow> timer_id list \<Rightarrow> (timer_queue \<times> timer_id list) option" where
  "tick_loop now q fired =
     (case heap_peek q of
        None \<Rightarrow> Some (q, fired)
      | Some e \<Rightarrow>
          if fire_at e \<le> now
          then tick_loop now (remove1 e q @ reschedule e) (fired @ [entry_id e])
          else Some (q, fired))"

definition tick :: "u64 \<Rightarrow> timer_queue \<Rightarrow> (timer_queue \<times> timer_id list) option" where
  "tick now q = tick_loop now q []"

text \<open>One turn of the loop with any admissible choice of \<open>pop\<close>; the log keeps the popped entries.\<close>

inductive tick_step ::
    "u64 \<Rightarrow> entry multiset \<times> entry list \<Rightarrow> entry multiset \<times> entry list \<Rightarrow> bool" for now where
  fire: "e \<in># h \<Longrightarrow> \<forall>e' \<in># h. fire_at e \<le> fire_at e' \<Longrightarrow> fire_at e \<le> now \<Longrightarrow>
    tick_step now (h, log) (h - {#e#} + mset (reschedule e), log @ [e])"

inductive_cases tick_stepE: "tick_step now (h, log) st"

section \<open>The timetable of an entry\<close>

text \<open>The instants up to \<open>now\<close> at which an entry is due, and what is left of it afterwards.\<close>

definition due_count :: "u64 \<Rightarrow> entry \<Rightarrow> nat" where
  "due_count now e =
     (if now < fire_at e then 0
      else if period e = 0 then 1
      else (unat now - unat (fire_at e)) div unat (period e) + 1)"

definition due :: "u64 \<Rightarrow> entry \<Rightarrow> (nat \<times> timer_id) list" where
  "due now e = map (\<lambda>i. (unat (fire_at e) + i * unat (period e), entry_id e)) [0..<due_count now e]"

definition all_due :: "u64 \<Rightarrow> entry multiset \<Rightarrow> (nat \<times> timer_id) multiset" where
  "all_due now h = (\<Sum>e \<in># h. mset (due now e))"

definition stamp :: "entry \<Rightarrow> nat \<times> timer_id" where
  "stamp e = (unat (fire_at e), entry_id e)"

lemma max_word_gt: "now < (- 1 :: u64) \<Longrightarrow> unat now < 2 ^ 64 - 1"
  by (simp add: word_less_nat_alt unat_max)

lemma due_reschedule:
  assumes "fire_at e \<le> now" "now < - 1"
  shows "due now e = stamp e # concat (map (due now) (reschedule e))"
proof (cases "period e = 0")
  case True
  with assms show ?thesis by (simp add: due_def due_count_def stamp_def reschedule_def)
next
  case False
  define f p n where "f = unat (fire_at e)" and "p = unat (period e)" and "n = unat now"
  define f' where "f' = min (f + p) (2 ^ 64 - 1)"
  have p: "0 < p" using False by (simp add: p_def unat_gt_0)
  have n: "f \<le> n" "n < 2 ^ 64 - 1"
    using assms(1) max_word_gt[OF assms(2)] by (simp_all add: f_def n_def word_le_nat_alt)
  define e' where "e' = e\<lparr>fire_at := saturating_add (fire_at e) (period e)\<rparr>"
  have e': "unat (fire_at e') = f'" "period e' = period e" "entry_id e' = entry_id e"
    by (simp_all add: e'_def f'_def f_def p_def unat_saturating_add)
  have c: "due_count now e = (n - f) div p + 1"
    using assms False by (simp add: due_count_def n_def f_def p_def not_less)
  have c': "due_count now e' = (if n < f' then 0 else (n - f') div p + 1)"
    using False by (simp add: due_count_def e' n_def p_def word_less_nat_alt)
  have cc: "due_count now e = Suc (due_count now e')"
  proof (cases "n < f + p")
    case True
    then have "n < f'" using n by (simp add: f'_def)
    moreover have "(n - f) div p = 0" using True n p by (simp add: less_diff_conv2 add.commute)
    ultimately show ?thesis by (simp add: c c')
  next
    case ge: False
    then have f': "f' = f + p" using n by (simp add: f'_def)
    have "n - f = (n - (f + p)) + p" using ge by simp
    then have "(n - f) div p = (n - (f + p)) div p + 1" using p by (metis div_add_self2 neq0_conv)
    then show ?thesis using ge by (simp add: c c' f')
  qed
  have f'_eq: "f' = f + p" if "0 < due_count now e'"
    using that n by (auto simp: c' f'_def min_def split: if_splits)
  have "map (\<lambda>i. (f + Suc i * p, entry_id e)) [0..<due_count now e'] =
      map (\<lambda>i. (f' + i * p, entry_id e)) [0..<due_count now e']"
    using f'_eq by (cases "due_count now e'") auto
  then show ?thesis
    using False
    by (simp add: due_def cc stamp_def reschedule_def e' upt_conv_Cons map_Suc_upt[symmetric]
        word_gt_0 o_def flip: f_def p_def e'_def del: upt_Suc)
qed

lemma all_due_step:
  assumes "tick_step now (h, log) (h', log')" "now < - 1"
  shows "all_due now h + mset (map stamp log) = all_due now h' + mset (map stamp log')"
    and "size (all_due now h) = Suc (size (all_due now h'))"
proof -
  from assms(1) obtain e where e: "e \<in># h" "fire_at e \<le> now"
    and h': "h' = h - {#e#} + mset (reschedule e)" "log' = log @ [e]"
    by (auto elim: tick_stepE)
  obtain g where g: "h = add_mset e g" using e(1) by (metis mset_add)
  have "(\<Sum>x \<in># mset (reschedule e). mset (due now x)) = mset (concat (map (due now) (reschedule e)))"
    by (simp add: reschedule_def)
  then have "all_due now h = add_mset (stamp e) (all_due now h')"
    using due_reschedule[OF e(2) assms(2)] by (simp add: all_due_def g h')
  then show "all_due now h + mset (map stamp log) = all_due now h' + mset (map stamp log')"
    and "size (all_due now h) = Suc (size (all_due now h'))"
    by (simp_all add: h')
qed

text \<open>What an entry turns into once it has fired for every instant up to \<open>now\<close>.\<close>

definition left_over :: "u64 \<Rightarrow> entry \<Rightarrow> entry list" where
  "left_over now e =
     (if now < fire_at e then [e]
      else if period e = 0 then []
      else [e\<lparr>fire_at := of_nat (min (unat (fire_at e) + due_count now e * unat (period e)) (2 ^ 64 - 1))\<rparr>])"

definition all_left :: "u64 \<Rightarrow> entry multiset \<Rightarrow> entry multiset" where
  "all_left now h = (\<Sum>e \<in># h. mset (left_over now e))"

lemma left_reschedule:
  assumes "fire_at e \<le> now" "now < - 1"
  shows "left_over now e = concat (map (left_over now) (reschedule e))"
proof (cases "period e = 0")
  case True
  with assms show ?thesis by (simp add: left_over_def reschedule_def not_less)
next
  case False
  define f p n where "f = unat (fire_at e)" and "p = unat (period e)" and "n = unat now"
  define e' where "e' = e\<lparr>fire_at := saturating_add (fire_at e) (period e)\<rparr>"
  have f': "unat (fire_at e') = min (f + p) (2 ^ 64 - 1)"
    by (simp add: e'_def f_def p_def unat_saturating_add)
  have n: "n < 2 ^ 64 - 1" using max_word_gt[OF assms(2)] by (simp add: n_def)
  have "length (due now e) = Suc (length (due now e'))"
    using due_reschedule[OF assms] False by (simp add: reschedule_def e'_def word_gt_0)
  then have c: "due_count now e = Suc (due_count now e')" by (simp add: due_def)
  have "left_over now e = left_over now e'"
  proof (cases "now < fire_at e'")
    case True
    then have "due_count now e' = 0" by (simp add: due_count_def)
    then have "left_over now e = [e\<lparr>fire_at := of_nat (unat (fire_at e'))\<rparr>]"
      using assms False by (simp add: left_over_def c f' not_less flip: f_def p_def)
    then show ?thesis using True by (simp add: left_over_def e'_def)
  next
    case ge: False
    then have "unat (fire_at e') = f + p"
      using n f' by (simp add: word_less_nat_alt n_def split: if_splits)
    then show ?thesis
      using assms False ge
      by (simp add: left_over_def c not_less e'_def add.assoc flip: f_def p_def)
  qed
  then show ?thesis using False by (simp add: reschedule_def e'_def word_gt_0)
qed

lemma all_left_step:
  assumes "tick_step now (h, log) (h', log')" "now < - 1"
  shows "all_left now h = all_left now h'"
proof -
  from assms(1) obtain e where e: "e \<in># h" "fire_at e \<le> now"
    and h': "h' = h - {#e#} + mset (reschedule e)"
    by (auto elim: tick_stepE)
  obtain g where g: "h = add_mset e g" using e(1) by (metis mset_add)
  have "(\<Sum>x \<in># mset (reschedule e). mset (left_over now x)) =
      mset (concat (map (left_over now) (reschedule e)))"
    by (simp add: reschedule_def)
  then show ?thesis
    using left_reschedule[OF e(2) assms(2)] by (simp add: all_left_def g h')
qed

section \<open>Runs\<close>

definition log_sorted :: "entry multiset \<times> entry list \<Rightarrow> bool" where
  "log_sorted st \<longleftrightarrow>
     sorted (map fire_at (snd st)) \<and> (\<forall>e \<in># fst st. \<forall>l \<in> set (snd st). fire_at l \<le> fire_at e)"

lemma log_sorted_step: "tick_step now st st' \<Longrightarrow> log_sorted st \<Longrightarrow> log_sorted st'"
  by (induction rule: tick_step.induct)
    (auto simp: log_sorted_def sorted_append reschedule_def saturating_add_ge
      dest: in_diffD intro: order_trans[OF _ saturating_add_ge])

lemma run_invariant:
  assumes "(tick_step now)\<^sup>*\<^sup>* (h, log) (h', log')" "now < - 1" "log_sorted (h, log)"
  shows "log_sorted (h', log') \<and> all_left now h' = all_left now h \<and>
    all_due now h' + mset (map stamp log') = all_due now h + mset (map stamp log)"
  using assms(1)
proof (induction "(h', log')" arbitrary: h' log' rule: rtranclp_induct)
  case base
  then show ?case using assms(3) by simp
next
  case (step st)
  obtain h1 log1 where st: "st = (h1, log1)" by (cases st)
  show ?case
    using step.hyps(3)[OF st] step.hyps(2) all_due_step(1)[OF _ assms(2)]
      all_left_step[OF _ assms(2)] log_sorted_step
    unfolding st by metis
qed

lemma idle_due: "\<forall>e \<in># h. now < fire_at e \<Longrightarrow> all_due now h = {#} \<and> all_left now h = h"
  by (induction h) (auto simp: all_due_def due_def due_count_def all_left_def left_over_def)

lemma no_step_idle: "(\<nexists>st. tick_step now (h, log) st) \<Longrightarrow> \<forall>e \<in># h. now < fire_at e"
proof (rule ccontr)
  assume no: "\<nexists>st. tick_step now (h, log) st" and "\<not> (\<forall>e \<in># h. now < fire_at e)"
  then obtain d where d: "d \<in># h" "fire_at d \<le> now" by (auto simp: not_less)
  then obtain e where e: "e \<in># h" "\<forall>e' \<in># h. fire_at e \<le> fire_at e'"
    using arg_min_if_finite[of "set_mset h" fire_at] by (metis arg_min_least finite_set_mset set_mset_eq_empty_iff empty_iff)
  then have "fire_at e \<le> now" using d by (meson order_trans)
  from tick_step.fire[OF e this] no show False by blast
qed

lemma steps_bounded:
  assumes "(tick_step now ^^ n) (h, log) (h', log')" "now < - 1"
  shows "size (all_due now h) = n + size (all_due now h')"
  using assms(1)
proof (induction n arbitrary: h' log')
  case (Suc n)
  then obtain h1 log1 where "(tick_step now ^^ n) (h, log) (h1, log1)" "tick_step now (h1, log1) (h', log')"
    by auto
  then show ?case using Suc.IH all_due_step(2)[OF _ assms(2)] by fastforce
qed simp

interpretation heap: key_comparator "\<lambda>a b. reverse (entry_cmp a b)" fire_at
  by unfold_locales (auto simp: entry_cmp_def cmp_def)

lemma heap_peek_Some:
  assumes "heap_peek q = Some e"
  shows "e \<in> set q" "\<And>e'. e' \<in> set q \<Longrightarrow> fire_at e \<le> fire_at e'"
proof -
  show "e \<in> set q" using assms min_by_in_set by (fastforce simp: heap_peek_def)
  show "fire_at e \<le> fire_at e'" if "e' \<in> set q" for e'
    using heap.min_by_least[OF assms[unfolded heap_peek_def] that]
    by (simp add: heap.by_key cmp_def split: if_splits)
qed

lemma heap_peek_None: "heap_peek q = None \<longleftrightarrow> q = []"
  by (cases q) (auto simp: heap_peek_def)

lemma peek_step:
  assumes "heap_peek q = Some e" "fire_at e \<le> now"
  shows "tick_step now (mset q, log) (mset (remove1 e q @ reschedule e), log @ [e])"
  using tick_step.fire[of e "mset q" now log] heap_peek_Some[OF assms(1)] assms(2) by simp

lemma tick_loop_runs:
  assumes "now < - 1"
  shows "\<exists>q' es. tick_loop now q (map entry_id log) = Some (q', map entry_id (log @ es)) \<and>
    (tick_step now)\<^sup>*\<^sup>* (mset q, log) (mset q', log @ es) \<and> (\<forall>e \<in> set q'. now < fire_at e)"
proof (induction "size (all_due now (mset q))" arbitrary: q log)
  case 0
  show ?case
  proof (cases "heap_peek q")
    case None
    then have "tick_loop now q (map entry_id log) = Some (q, map entry_id log)"
      by (subst tick_loop.simps) simp
    moreover have "q = []" using None by (simp add: heap_peek_None)
    ultimately show ?thesis by (intro exI[of _ q] exI[of _ "[]"]) simp
  next
    case (Some e)
    have "now < fire_at e"
      using all_due_step(2)[OF peek_step[OF Some] assms] 0 by (force simp: not_less)
    then show ?thesis
      using Some heap_peek_Some(2)[OF Some]
      by (subst tick_loop.simps) (auto simp: not_le intro!: exI[of _ "[]"] intro: less_le_trans)
  qed
next
  case (Suc n)
  then have "q \<noteq> []" by (auto simp: all_due_def)
  then obtain e where e: "heap_peek q = Some e" using heap_peek_None by blast
  have due: "fire_at e \<le> now"
  proof (rule ccontr)
    assume "\<not> fire_at e \<le> now"
    then have "\<forall>e \<in># mset q. now < fire_at e"
      using heap_peek_Some(2)[OF e] by (auto simp: not_le intro: less_le_trans)
    from idle_due[OF this] Suc.hyps(2) show False by simp
  qed
  define q1 where "q1 = remove1 e q @ reschedule e"
  have step: "tick_step now (mset q, log) (mset q1, log @ [e])"
    unfolding q1_def by (rule peek_step[OF e due])
  have "n = size (all_due now (mset q1))"
    using all_due_step(2)[OF step assms] Suc.hyps(2) by simp
  from Suc.hyps(1)[OF this, of "log @ [e]"] obtain q' es where IH:
    "tick_loop now q1 (map entry_id (log @ [e])) = Some (q', map entry_id ((log @ [e]) @ es))"
    "(tick_step now)\<^sup>*\<^sup>* (mset q1, log @ [e]) (mset q', (log @ [e]) @ es)"
    "\<forall>e \<in> set q'. now < fire_at e" by blast
  have "tick_loop now q (map entry_id log) = Some (q', map entry_id (log @ e # es))"
    using IH(1) by (subst tick_loop.simps) (simp add: e due flip: q1_def)
  then show ?case
    using converse_rtranclp_into_rtranclp[OF step IH(2)] IH(3)
    by (intro exI[of _ q'] exI[of _ "e # es"]) simp
qed

lemma tick_loop_stuck:
  assumes "tick_loop now q fired = Some r"
  shows "now = - 1 \<longrightarrow> \<not> (\<exists>e \<in> set q. 0 < period e)"
proof (rule tick_loop.raw_induct
    [of "\<lambda>now q fired r. now = - 1 \<longrightarrow> \<not> (\<exists>e \<in> set q. 0 < period e)", OF _ assms])
  fix loop :: "u64 \<Rightarrow> timer_queue \<Rightarrow> timer_id list \<Rightarrow> (timer_queue \<times> timer_id list) option"
  fix now q fired r
  assume IH: "\<And>now q fired r. loop now q fired = Some r \<Longrightarrow>
      now = - 1 \<longrightarrow> \<not> (\<exists>e \<in> set q. 0 < period e)"
    and body: "(case heap_peek q of None \<Rightarrow> Some (q, fired)
      | Some e \<Rightarrow> if fire_at e \<le> now then loop now (remove1 e q @ reschedule e) (fired @ [entry_id e])
          else Some (q, fired)) = Some r"
  show "now = - 1 \<longrightarrow> \<not> (\<exists>e \<in> set q. 0 < period e)"
  proof (cases "heap_peek q")
    case None
    then show ?thesis by (simp add: heap_peek_None)
  next
    case (Some e)
    show ?thesis
    proof
      assume max: "now = - 1"
      then have "loop now (remove1 e q @ reschedule e) (fired @ [entry_id e]) = Some r"
        using body Some by simp
      from IH[OF this, THEN mp, OF max]
      have none: "\<forall>x \<in> set (remove1 e q @ reschedule e). \<not> 0 < period x" by blast
      then have "\<forall>x \<in> set (reschedule e). \<not> 0 < period x" by simp
      then have "\<not> 0 < period e" by (simp add: reschedule_def split: if_splits)
      moreover have "set q \<subseteq> insert e (set (remove1 e q))" by (induction q) auto
      ultimately show "\<not> (\<exists>e \<in> set q. 0 < period e)" using none by (metis Un_iff insertE set_append subsetD)
    qed
  qed
qed

section \<open>Properties\<close>

text \<open>
  C4.  Below the last representable instant \<open>tick\<close> returns.  It fires every timer once for each
  instant of its timetable up to \<open>now\<close>, in order of time, and leaves each entry at its first
  instant after \<open>now\<close> (one-shot timers that fired are gone).
\<close>

theorem tick_timetable:
  assumes "now < - 1"
  shows "\<exists>q' log. tick now q = Some (q', map snd log) \<and> sorted (map fst log) \<and>
    mset log = all_due now (mset q) \<and> mset q' = all_left now (mset q)"
proof -
  from tick_loop_runs[OF assms, of q "[]"] obtain q' es where
    run: "tick now q = Some (q', map entry_id es)" "(tick_step now)\<^sup>*\<^sup>* (mset q, []) (mset q', es)"
      "\<forall>e \<in># mset q'. now < fire_at e" by (auto simp: tick_def)
  from run_invariant[OF run(2) assms] idle_due[OF run(3)]
  have "sorted (map fire_at es)" "mset (map stamp es) = all_due now (mset q)"
    "mset q' = all_left now (mset q)" by (auto simp: log_sorted_def)
  then show ?thesis using run(1)
    by (intro exI[of _ q'] exI[of _ "map stamp es"])
      (auto simp: stamp_def o_def sorted_map word_le_nat_alt)
qed

theorem tick_timetable_witness:
  "\<exists>q' log. tick 5000 [\<lparr>fire_at = 1000, period = 2000, entry_id = 1\<rparr>] = Some (q', map snd log) \<and>
     mset log = all_due 5000 {#\<lparr>fire_at = 1000, period = 2000, entry_id = 1\<rparr>#}"
  using tick_timetable[of 5000 "[\<lparr>fire_at = 1000, period = 2000, entry_id = 1\<rparr>]"] by auto

text \<open>
  Whatever the heap does among entries with equal times, a run of the loop below the last
  instant takes a fixed number of turns, and when it can go no further it has fired exactly the
  timetable, in order of time, and holds the same left-over entries.
\<close>

theorem tick_any_order:
  assumes "(tick_step now ^^ n) (h, []) (h', log)" "\<nexists>st. tick_step now (h', log) st" "now < - 1"
  shows "n = size (all_due now h) \<and> sorted (map fire_at log) \<and>
    mset (map stamp log) = all_due now h \<and> h' = all_left now h"
proof -
  have "(tick_step now)\<^sup>*\<^sup>* (h, []) (h', log)" using assms(1) by (rule relpowp_imp_rtranclp)
  from run_invariant[OF this assms(3)] idle_due[OF no_step_idle[OF assms(2)]]
    steps_bounded[OF assms(1,3)]
  show ?thesis by (auto simp: log_sorted_def)
qed

theorem tick_any_order_witness:
  "let e = \<lparr>fire_at = 5, period = 0, entry_id = 1\<rparr>
   in (tick_step 7 ^^ 1) ({#e#}, []) ({#}, [e]) \<and> (1::nat) = size (all_due 7 {#e#})"
proof -
  define e where "e = \<lparr>fire_at = 5, period = 0, entry_id = (1::u32)\<rparr>"
  have "tick_step 7 ({#e#}, []) ({#}, [e])"
    using tick_step.fire[of e "{#e#}" 7 "[]"] by (simp add: e_def reschedule_def)
  then have step: "(tick_step 7 ^^ 1) ({#e#}, []) ({#}, [e])" by auto
  have "\<nexists>st. tick_step 7 ({#}, [e]) st" by (auto elim: tick_stepE)
  from tick_any_order[OF step this] step show ?thesis by (simp add: Let_def flip: e_def)
qed

text \<open>
  C40.  At the last representable instant the loop of \<open>tick\<close> never returns once a periodic timer is
  armed: rescheduling saturates at that instant, so the timer is due again for ever.
\<close>

theorem tick_diverges_at_max:
  assumes "e \<in> set q" "0 < period e"
  shows "tick (- 1) q = None"
  using tick_loop_stuck[of "- 1" q "[]"] assms unfolding tick_def by (cases "tick_loop (- 1) q []") auto

theorem tick_diverges_at_max_witness:
  "tick (- 1) (arm 0 7 (timer_periodic 10 10) []) = None"
  by (rule tick_diverges_at_max[where e = "\<lparr>fire_at = saturating_add 0 10, period = 10, entry_id = 7\<rparr>"])
    (simp_all add: arm_def timer_periodic_def)

text \<open>
  A cancelled timer does not fire: after \<open>cancel\<close> no later \<open>tick\<close> reports the identifier, and
  the timetables of the other timers are unchanged.
\<close>

theorem cancelled_never_fires:
  assumes "now < - 1"
  shows "\<exists>q' fired. tick now (timer_cancel i q) = Some (q', fired) \<and> i \<notin> set fired \<and>
    mset fired = image_mset snd (filter_mset (\<lambda>(_, j). j \<noteq> i) (all_due now (mset q)))"
proof -
  have flt: "all_due now (mset (timer_cancel i q)) = filter_mset (\<lambda>(_, j). j \<noteq> i) (all_due now (mset q))"
    for q
  proof (induction q)
    case (Cons e q)
    have "filter_mset (\<lambda>(_, j). j \<noteq> i) (mset (due now e)) =
        (if entry_id e = i then {#} else mset (due now e))"
      by (auto simp: due_def filter_mset_eq_conv)
    with Cons show ?case by (auto simp: all_due_def timer_cancel_def)
  qed (simp add: all_due_def timer_cancel_def)
  from tick_loop_runs[OF assms, of "timer_cancel i q" "[]"] obtain q' es where
    run: "tick now (timer_cancel i q) = Some (q', map entry_id es)"
      "(tick_step now)\<^sup>*\<^sup>* (mset (timer_cancel i q), []) (mset q', es)"
      "\<forall>e \<in># mset q'. now < fire_at e" by (auto simp: tick_def)
  from run_invariant[OF run(2) assms] idle_due[OF run(3)]
  have log: "mset (map stamp es) = filter_mset (\<lambda>(_, j). j \<noteq> i) (all_due now (mset q))"
    by (simp add: log_sorted_def flt)
  have "map entry_id es = map snd (map stamp es)" by (simp add: stamp_def)
  then have fired: "mset (map entry_id es) = image_mset snd (mset (map stamp es))"
    by (simp only: mset_map)
  have "i \<notin># mset (map entry_id es)" unfolding fired log by auto
  then show ?thesis using run(1) fired log by auto
qed

theorem cancelled_never_fires_witness:
  "\<exists>q' fired. tick 50 (timer_cancel 7 (arm 0 7 (timer_once 10) [])) = Some (q', fired) \<and> 7 \<notin> set fired"
  using cancelled_never_fires[of 50 7 "arm 0 7 (timer_once 10) []"] by auto

end
