(* ===== verification/LR_Fletcher.thy ===== *)
theory LR_Fletcher
  imports LR_Prelude "HOL-Library.Signed_Division"
begin

text \<open>
  The OSPF checksums of \<open>crates/lr-core/src/util/fletcher.rs\<close>.  The running sums are \<open>u32\<close> values
  that stay below 255 (below 65535 for \<open>fletcher32\<close>), so they are natural numbers here; the signed
  arithmetic of \<open>fletcher_checksum_pair\<close> is over \<open>i32\<close>, with its wrap-around written out and the
  truncating remainder of Rust.
\<close>

section \<open>The checksums\<close>

definition LSA_CHECKSUM_OFFSET :: nat where
  "LSA_CHECKSUM_OFFSET = 16"

definition fletcher_step :: "bool \<Rightarrow> nat \<times> nat \<times> nat \<Rightarrow> nat \<times> u8 \<Rightarrow> nat \<times> nat \<times> nat" where
  "fletcher_step include_checksum = (\<lambda>(c0, c1, n) (i, raw).
     let b = (if \<not> include_checksum \<and> LSA_CHECKSUM_OFFSET \<le> i \<and> i < LSA_CHECKSUM_OFFSET + 2
              then 0 else raw);
         c0' = (c0 + unat b) mod 255
     in (c0', (c1 + c0') mod 255, n + 1))"

definition fletcher_sums :: "bytes \<Rightarrow> bool \<Rightarrow> nat \<times> nat \<times> nat" where
  "fletcher_sums lsa include_checksum =
     foldl (fletcher_step include_checksum) (0, 0, 0) (drop 2 (enumerate 0 lsa))"

definition i32 :: "int \<Rightarrow> int" where
  "i32 k = signed_take_bit 31 k"

definition fletcher_checksum_pair :: "nat \<Rightarrow> nat \<Rightarrow> nat \<Rightarrow> int \<times> int" where
  "fletcher_checksum_pair c0 c1 n =
     (let c0 = int c0; c1 = int c1;
          x = i32 (i32 (i32 (i32 (int n) - 15) * c0) - c1) smod 255;
          x = (if x \<le> 0 then x + 255 else x);
          y = i32 (510 - c0 - x);
          y = (if y > 255 then y - 255 else y)
      in (x, y))"

definition ospf_lsa_checksum :: "bytes \<Rightarrow> u16" where
  "ospf_lsa_checksum lsa =
     (if length lsa < LSA_CHECKSUM_OFFSET + 2 then 0
      else
        let (c0, c1, n) = fletcher_sums lsa False;
            (x, y) = fletcher_checksum_pair c0 c1 n
        in push_bit 8 (ucast (of_int x :: u8)) OR ucast (of_int y :: u8))"

definition ospf_lsa_checksum_ok :: "bytes \<Rightarrow> bool" where
  "ospf_lsa_checksum_ok lsa =
     (if length lsa < LSA_CHECKSUM_OFFSET + 2 then False
      else let (c0, c1, _) = fletcher_sums lsa True in c0 = 0 \<and> c1 = 0)"

fun fletcher32_loop :: "nat \<Rightarrow> nat \<Rightarrow> bytes \<Rightarrow> nat \<times> nat" where
  "fletcher32_loop s1 s2 (a # b # rest) =
     (let w = unat a * 256 + unat b; s1' = (s1 + w) mod 0xffff; s2' = (s2 + s1') mod 0xffff
      in fletcher32_loop s1' s2' rest)"
| "fletcher32_loop s1 s2 [a] =
     (let w = unat a * 256; s1' = (s1 + w) mod 0xffff in (s1', (s2 + s1') mod 0xffff))"
| "fletcher32_loop s1 s2 [] = (s1, s2)"

definition fletcher32 :: "bytes \<Rightarrow> u32" where
  "fletcher32 bs = (let (s1, s2) = fletcher32_loop 0 0 bs in push_bit 16 (of_nat s2) OR of_nat s1)"

text \<open>Storing a checksum in its field, as the LSA encoder does with the two bytes of the result.\<close>

definition store_checksum :: "bytes \<Rightarrow> u16 \<Rightarrow> bytes" where
  "store_checksum lsa c = lsa[16 := ucast (drop_bit 8 c), 17 := ucast c]"

section \<open>Closed forms\<close>

text \<open>The plain sum and the position-weighted sum that the two running sums are residues of.\<close>

fun wsum :: "nat list \<Rightarrow> nat" where
  "wsum [] = 0"
| "wsum (b # bs) = (length bs + 1) * b + wsum bs"

definition summed :: "bytes \<Rightarrow> bool \<Rightarrow> nat list" where
  "summed lsa inc = map (\<lambda>(i, raw). if \<not> inc \<and> 16 \<le> i \<and> i < 18 then 0 else unat raw)
     (drop 2 (enumerate 0 lsa))"

lemma wsum_append: "wsum (as @ bs) = wsum as + length bs * sum_list as + wsum bs"
  by (induction as) (auto simp: algebra_simps)

lemma foldl_fletcher:
  "foldl (fletcher_step inc) (a mod 255, c mod 255, n) xs =
     (let bs = map (\<lambda>(i, raw). if \<not> inc \<and> 16 \<le> i \<and> i < 18 then 0 else unat raw) xs
      in ((a + sum_list bs) mod 255, (c + length bs * a + wsum bs) mod 255, n + length bs))"
proof (induction xs arbitrary: a c n)
  case (Cons x xs)
  obtain i raw where x: "x = (i, raw)" by (cases x)
  define b where "b = (if \<not> inc \<and> 16 \<le> i \<and> i < 18 then 0 else unat raw)"
  have "(c + (a mod 255 + b)) mod 255 = (c + (a + b)) mod 255" for b
    unfolding add.left_commute[of c] by (rule mod_add_left_eq)
  then have "fletcher_step inc (a mod 255, c mod 255, n) x =
      ((a + b) mod 255, (c + (a + b)) mod 255, n + 1)"
    by (simp add: fletcher_step_def x b_def LSA_CHECKSUM_OFFSET_def Let_def mod_simps)
  then show ?case
    using Cons.IH[of "a + b" "c + (a + b)" "n + 1"]
    by (simp add: x Let_def algebra_simps flip: b_def)
qed simp

lemma fletcher_sums_closed:
  "fletcher_sums lsa inc =
     (sum_list (summed lsa inc) mod 255, wsum (summed lsa inc) mod 255, length (summed lsa inc))"
  using foldl_fletcher[of inc 0 0 0 "drop 2 (enumerate 0 lsa)"]
  by (simp add: fletcher_sums_def summed_def Let_def)

lemma checksum_ok_closed:
  "ospf_lsa_checksum_ok lsa \<longleftrightarrow> 18 \<le> length lsa \<and>
     255 dvd sum_list (summed lsa True) \<and> 255 dvd wsum (summed lsa True)"
  by (simp add: ospf_lsa_checksum_ok_def fletcher_sums_closed LSA_CHECKSUM_OFFSET_def not_less
      mod_eq_0_iff_dvd)

lemma summed_plain:
  fixes xs :: "(nat \<times> u8) list"
  assumes "\<And>i r. (i, r) \<in> set xs \<Longrightarrow> inc \<or> i < 16 \<or> 18 \<le> i"
  shows "map (\<lambda>(i, raw). if \<not> inc \<and> 16 \<le> i \<and> i < 18 then 0 else unat raw) xs = map unat (map snd xs)"
  unfolding map_map
proof (rule map_cong[OF refl])
  fix x assume "x \<in> set xs"
  then show "(case x of (i, raw) \<Rightarrow> if \<not> inc \<and> 16 \<le> i \<and> i < 18 then 0 else unat raw) = (unat \<circ> snd) x"
    using assms[of "fst x" "snd x"] by (auto simp: case_prod_unfold)
qed

lemma summed_True: "summed lsa True = map unat (drop 2 lsa)"
  unfolding summed_def by (subst summed_plain) (simp_all add: drop_map[symmetric] del: map_map)

lemma summed_split:
  assumes "length pre = 16"
  shows "summed (pre @ p # q # post) True = map unat (drop 2 pre) @ unat p # unat q # map unat post"
    and "summed (pre @ p # q # post) False = map unat (drop 2 pre) @ 0 # 0 # map unat post"
proof -
  show "summed (pre @ p # q # post) True = map unat (drop 2 pre) @ unat p # unat q # map unat post"
    using assms by (simp add: summed_True)
  have pre: "i < 16" if "(i, r) \<in> set (drop 2 (enumerate 0 pre))" for i r
    using set_drop_subset[of 2 "enumerate 0 pre"] that assms by (auto simp: in_set_enumerate_eq)
  have post: "18 \<le> i" if "(i, r) \<in> set (enumerate 18 post)" for i r
    using that by (auto simp: in_set_enumerate_eq)
  have "drop 2 (enumerate 0 (pre @ p # q # post)) =
      drop 2 (enumerate 0 pre) @ (16, p) # (17, q) # enumerate 18 post"
    using assms by (simp add: enumerate_append_eq)
  then show "summed (pre @ p # q # post) False = map unat (drop 2 pre) @ 0 # 0 # map unat post"
    unfolding summed_def map_append list.map
    by (simp only: summed_plain[OF disjI2[OF disjI1[OF pre]]] summed_plain[OF disjI2[OF disjI2[OF post]]]
        map_append list.map) (simp add: drop_map[symmetric] del: map_map)
qed

text \<open>The 16-bit words \<open>fletcher32\<close> sums.\<close>

fun be_words :: "bytes \<Rightarrow> nat list" where
  "be_words (a # b # rest) = (unat a * 256 + unat b) # be_words rest"
| "be_words [a] = [unat a * 256]"
| "be_words [] = []"

lemma unat_u8_le: "unat (b :: u8) \<le> 255"
proof -
  have "unat b < 2 ^ LENGTH(8)" by (rule unsigned_less)
  then show ?thesis by simp
qed

lemma unat_or_push_bit16:
  assumes "s1 < 65536" "s2 < 65536"
  shows "unat (push_bit 16 (of_nat s2) OR of_nat s1 :: u32) = s2 * 65536 + s1"
proof -
  have s1: "take_bit 16 s1 = s1" using assms(1) by (simp add: take_bit_nat_eq_self)
  have "push_bit 16 s2 AND s1 = 0"
    by (subst s1[symmetric], rule bit_eqI) (auto simp: bit_simps)
  then have "push_bit 16 s2 OR s1 = push_bit 16 s2 + s1"
    by (simp add: disjunctive_add_eq_or)
  then have or: "push_bit 16 s2 OR s1 = s2 * 65536 + s1" by (simp add: push_bit_eq_mult)
  have "(push_bit 16 (of_nat s2) OR of_nat s1 :: u32) = of_nat (push_bit 16 s2 OR s1)"
    by (simp add: of_nat_or_eq of_nat_push_bit)
  also have "unat \<dots> = (s2 * 65536 + s1) mod 2 ^ 32"
    by (simp only: or unat_of_nat take_bit_eq_mod) simp
  finally show ?thesis using assms by simp
qed

section \<open>The stored pair\<close>

lemma i32_id: "- (2 ^ 31) \<le> k \<Longrightarrow> k < 2 ^ 31 \<Longrightarrow> i32 k = k"
  unfolding i32_def by (rule signed_take_bit_int_eq_self) simp_all

lemma smod_mod: "k smod 255 mod 255 = k mod (255 :: int)" "- 255 < k smod 255" "k smod 255 < 255"
proof -
  have "\<bar>k smod 255\<bar> < 255"
    by (simp add: signed_modulo_int_def abs_mult abs_sgn_eq)
  then show "- 255 < k smod 255" "k smod 255 < 255" by simp_all
  have "k smod 255 = k - (k sdiv 255) * 255"
    using sdiv_mult_smod_eq[of k 255] by linarith
  then show "k smod 255 mod 255 = k mod 255" by (simp add: mod_diff_right_eq flip: mod_diff_right_eq)
qed

lemma checksum_pair:
  assumes "c0 < 255" "c1 < 255" "n \<le> 65535" "fletcher_checksum_pair c0 c1 n = (x, y)"
  shows "1 \<le> x" "x \<le> 255" "1 \<le> y" "y \<le> 255"
    and "x mod 255 = ((int n - 15) * int c0 - int c1) mod 255"
    and "(int c0 + x + y) mod 255 = 0"
proof -
  define z where "z = (int n - 15) * int c0 - int c1"
  have "int n * int c0 \<le> 65535 * 255" by (rule mult_mono) (use assms in simp_all)
  moreover have "(int n - 15) * int c0 = int n * int c0 - 15 * int c0"
    by (simp add: left_diff_distrib)
  moreover have "0 \<le> int n * int c0" by simp
  ultimately have b: "- 15 * 255 \<le> (int n - 15) * int c0" "(int n - 15) * int c0 \<le> 65535 * 255"
    using assms(1) by linarith+
  have i: "i32 (i32 (i32 (i32 (int n) - 15) * int c0) - int c1) = z"
    using assms(1-3) b by (simp add: i32_id z_def)
  define w where "w = z smod 255"
  note pair = assms(4)[unfolded fletcher_checksum_pair_def Let_def i, folded w_def]
  have x: "x = (if w \<le> 0 then w + 255 else w)" using pair by simp
  then show xb: "1 \<le> x" "x \<le> 255" using smod_mod(2,3)[of z] by (auto simp: w_def)
  show "x mod 255 = ((int n - 15) * int c0 - int c1) mod 255"
    using smod_mod(1)[of z] by (auto simp: x w_def z_def)
  define v where "v = 510 - int c0 - x"
  have v: "i32 v = v" using xb assms(1) by (simp add: i32_id v_def)
  have y: "y = (if v > 255 then v - 255 else v)"
    using pair v unfolding x[symmetric] v_def[symmetric] by (simp split: if_splits)
  then show "1 \<le> y" "y \<le> 255" using xb assms(1) by (auto simp: v_def)
  show "(int c0 + x + y) mod 255 = 0" by (auto simp: y v_def)
qed

lemma store_checksum_split:
  assumes "length pre = 16"
  shows "store_checksum (pre @ p # q # post) c = pre @ ucast (drop_bit 8 c) # ucast c # post"
proof -
  have "(pre @ p # q # post)[16 := a, 17 := b] = pre @ a # b # post" for a b
    using assms by (simp add: list_update_append)
  then show ?thesis by (simp add: store_checksum_def)
qed

lemma u16_bytes:
  "ucast (drop_bit 8 (push_bit 8 (ucast (a :: u8)) OR ucast (b :: u8) :: u16)) = a"
  "ucast (push_bit 8 (ucast (a :: u8)) OR ucast (b :: u8) :: u16) = b"
  using bit_imp_le_length[of b] by (fastforce intro!: bit_word_eqI simp: bit_simps)+

lemma checksum_bytes:
  assumes "18 \<le> length lsa" "fletcher_sums lsa False = (c0, c1, n)"
    and "fletcher_checksum_pair c0 c1 n = (x, y)"
  shows "ucast (drop_bit 8 (ospf_lsa_checksum lsa)) = (of_int x :: u8)"
    and "ucast (ospf_lsa_checksum lsa) = (of_int y :: u8)"
proof -
  have "ospf_lsa_checksum lsa = push_bit 8 (ucast (of_int x :: u8)) OR ucast (of_int y :: u8)"
    using assms by (simp add: ospf_lsa_checksum_def LSA_CHECKSUM_OFFSET_def)
  then show "ucast (drop_bit 8 (ospf_lsa_checksum lsa)) = (of_int x :: u8)"
    and "ucast (ospf_lsa_checksum lsa) = (of_int y :: u8)"
    by (simp_all only: u16_bytes)
qed

lemma unat_of_int_u8: "1 \<le> x \<Longrightarrow> x \<le> 255 \<Longrightarrow> int (unat (of_int x :: u8)) = x"
  by (simp add: unat_eq_nat_uint uint_word_of_int_eq take_bit_int_eq_self)

lemma weighted_zero:
  assumes "x mod 255 = ((n - 15) * c0 - c1) mod 255" "(c0 + x + y) mod 255 = (0 :: int)"
  shows "(c1 + (n - 14) * x + (n - 15) * y) mod 255 = 0"
proof -
  have 1: "255 dvd ((n - 15) * c0 - c1) - x" using assms(1) by (metis mod_eq_dvd_iff)
  have 2: "255 dvd (n - 15) * (c0 + x + y)" using assms(2) by (simp add: dvd_mult mod_eq_0_iff_dvd)
  have "c1 + (n - 14) * x + (n - 15) * y = (n - 15) * (c0 + x + y) - (((n - 15) * c0 - c1) - x)"
    by (simp add: algebra_simps)
  then have "255 dvd c1 + (n - 14) * x + (n - 15) * y" using dvd_diff[OF 2 1] by (simp only:)
  then show ?thesis by (simp only: mod_eq_0_iff_dvd)
qed

section \<open>Properties\<close>

text \<open>
  C19.  Storing the computed checksum in its field makes the LSA verify, for every LSA that holds a
  checksum field and fits the 16-bit length of an LSA header; both checksum bytes are non-zero.
\<close>

theorem checksum_verifies:
  assumes "18 \<le> length lsa" "length lsa \<le> 65535"
  shows "ospf_lsa_checksum_ok (store_checksum lsa (ospf_lsa_checksum lsa)) \<and>
    ucast (drop_bit 8 (ospf_lsa_checksum lsa)) \<noteq> (0 :: u8) \<and>
    ucast (ospf_lsa_checksum lsa) \<noteq> (0 :: u8)"
proof -
  obtain pre p q post where lsa: "lsa = pre @ p # q # post" and pre: "length pre = 16"
  proof
    show "lsa = take 16 lsa @ lsa ! 16 # lsa ! 17 # drop 18 lsa"
      using assms(1) Cons_nth_drop_Suc[of 16 lsa] Cons_nth_drop_Suc[of 17 lsa]
        append_take_drop_id[of 16 lsa] by simp
  qed (use assms(1) in simp)
  obtain c0 c1 n where sums: "fletcher_sums lsa False = (c0, c1, n)" by (cases "fletcher_sums lsa False")
  obtain x y where pair: "fletcher_checksum_pair c0 c1 n = (x, y)"
    by (cases "fletcher_checksum_pair c0 c1 n")
  define A B where "A = map unat (drop 2 pre)" and "B = map unat post"
  have c: "c0 = (sum_list A + sum_list B) mod 255" "n = length B + 16"
    "c1 = (wsum A + (length B + 2) * sum_list A + wsum B) mod 255"
    using sums pre
    by (auto simp: fletcher_sums_closed lsa summed_split(2)[OF pre] wsum_append A_def B_def)
  have n: "n \<le> 65535" using assms(2) c(2) pre by (simp add: lsa B_def)
  have "c0 < 255" "c1 < 255" by (simp_all add: c)
  note cp = checksum_pair[OF this n pair]
  define X Y where "X = (of_int x :: u8)" and "Y = (of_int y :: u8)"
  have XY: "int (unat X) = x" "int (unat Y) = y"
    unfolding X_def Y_def using cp(1-4) by (simp_all only: unat_of_int_u8)
  have bytes: "ucast (drop_bit 8 (ospf_lsa_checksum lsa)) = X" "ucast (ospf_lsa_checksum lsa) = Y"
    unfolding X_def Y_def by (rule checksum_bytes[OF assms(1) sums pair])+
  have sum: "summed (store_checksum lsa (ospf_lsa_checksum lsa)) True = A @ unat X # unat Y # B"
    using summed_split(1)[OF pre] store_checksum_split[OF pre]
    unfolding lsa[symmetric] bytes by (simp add: lsa A_def B_def bytes[unfolded lsa])
  have "(int c0 + x + y) mod 255 = (int (sum_list A + sum_list B) + x + y) mod 255"
    by (simp only: c(1) zmod_int of_nat_numeral add.assoc mod_add_left_eq)
  then have s0: "255 dvd sum_list (A @ unat X # unat Y # B)"
    using cp(6) XY by (simp add: int_dvd_int_iff[symmetric] mod_eq_0_iff_dvd algebra_simps)
  have "(int c1 + (int n - 14) * x + (int n - 15) * y) mod 255 =
      (int (wsum A + (length B + 2) * sum_list A + wsum B) + (int n - 14) * x + (int n - 15) * y) mod 255"
    by (simp only: c(3) zmod_int of_nat_numeral add.assoc mod_add_left_eq)
  then have s1: "255 dvd wsum (A @ unat X # unat Y # B)"
    using weighted_zero[OF cp(5,6)] XY c(2)
    by (simp add: wsum_append int_dvd_int_iff[symmetric] mod_eq_0_iff_dvd algebra_simps)
  have "length (store_checksum lsa (ospf_lsa_checksum lsa)) = length lsa"
    by (simp add: store_checksum_def)
  then have "ospf_lsa_checksum_ok (store_checksum lsa (ospf_lsa_checksum lsa))"
    using s0 s1 assms(1) by (simp only: checksum_ok_closed sum simp_thms)
  moreover have "X \<noteq> 0" "Y \<noteq> 0" using XY cp(1,3) by auto
  ultimately show ?thesis by (simp only: bytes simp_thms not_False_eq_True)
qed

theorem checksum_verifies_witness:
  "18 \<le> length (replicate 20 (1 :: u8)) \<and>
   ospf_lsa_checksum_ok (store_checksum (replicate 20 1) (ospf_lsa_checksum (replicate 20 1)))"
  using checksum_verifies[of "replicate 20 1"] by simp

text \<open>
  Changing one covered byte of an LSA that verifies makes verification fail, unless the change
  is between 0 and 255, which the arithmetic modulo 255 cannot tell apart.
\<close>

theorem checksum_detects_change:
  assumes "ospf_lsa_checksum_ok lsa" "2 \<le> i" "i < length lsa" "b \<noteq> lsa ! i" "{b, lsa ! i} \<noteq> {0, 255}"
  shows "\<not> ospf_lsa_checksum_ok (lsa[i := b])"
proof
  assume ok: "ospf_lsa_checksum_ok (lsa[i := b])"
  define xs j where "xs = map unat (drop 2 lsa)" and "j = i - 2"
  have j: "j < length xs" "xs ! j = unat (lsa ! i)" using assms(2,3) by (simp_all add: xs_def j_def Suc_diff_Suc numeral_2_eq_2)
  have "summed (lsa[i := b]) True = xs[j := unat b]"
    using assms(2) by (simp add: summed_True xs_def j_def drop_update_swap map_update)
  then have "255 dvd sum_list xs + unat b - xs ! j" "255 dvd sum_list xs"
    using ok assms(1) j(1) by (simp_all add: checksum_ok_closed sum_list_update summed_True xs_def)
  moreover have "xs ! j \<le> sum_list xs" using j(1) by (simp add: elem_le_sum_list)
  ultimately have "int 255 dvd int (sum_list xs + unat b - xs ! j) - int (sum_list xs)"
    by (intro dvd_diff) (simp_all only: int_dvd_int_iff)
  then have "255 dvd int (unat b) - int (unat (lsa ! i))"
    using \<open>xs ! j \<le> sum_list xs\<close> by (simp add: j(2) of_nat_diff)
  then obtain k where k: "int (unat b) - int (unat (lsa ! i)) = 255 * k" by (rule dvdE)
  have le: "unat b \<le> 255" "unat (lsa ! i) \<le> 255" by (rule unat_u8_le)+
  then have "k = - 1 \<or> k = 0 \<or> k = 1" using k by linarith
  then have "unat b = unat (lsa ! i) \<or> unat b = 0 \<and> unat (lsa ! i) = 255 \<or>
      unat b = 255 \<and> unat (lsa ! i) = 0"
    using k le by linarith
  moreover have "w = 0" if "unat w = 0" for w :: u8
    using that by (simp add: unsigned_eq_0_iff)
  moreover have "w = 255" if "unat w = 255" for w :: u8
    by (rule word_unat_eq_iff[THEN iffD2]) (use that in simp)
  moreover have "unat b \<noteq> unat (lsa ! i)" using assms(4) word_unat_eq_iff by blast
  ultimately have "b = 0 \<and> lsa ! i = 255 \<or> b = 255 \<and> lsa ! i = 0" by blast
  then show False using assms(5) by (elim disjE conjE) (simp_all only: insert_commute)
qed

theorem checksum_detects_change_witness:
  "ospf_lsa_checksum_ok (replicate 20 0) \<and> \<not> ospf_lsa_checksum_ok ((replicate 20 0)[5 := 7])"
proof -
  have "ospf_lsa_checksum_ok (replicate 20 0)"
    by (simp add: checksum_ok_closed summed_True numeral_eq_Suc)
  then show ?thesis using checksum_detects_change[of "replicate 20 0" 5 7]
    by (simp add: doubleton_eq_iff)
qed

text \<open>
  \<open>fletcher32\<close> is the pair of the plain and the position-weighted sum of the big-endian 16-bit
  words of its input (the last one zero-padded), each reduced modulo 65535.
\<close>

theorem fletcher32_closed:
  "unat (fletcher32 bs) = (wsum (be_words bs) mod 65535) * 65536 + sum_list (be_words bs) mod 65535"
proof -
  have loop: "fletcher32_loop (a mod 65535) (c mod 65535) bs =
      ((a + sum_list (be_words bs)) mod 65535,
       (c + length (be_words bs) * a + wsum (be_words bs)) mod 65535)" for a c
  proof (induction bs arbitrary: a c rule: be_words.induct)
    case (1 x y rest)
    define w where "w = unat x * 256 + unat y"
    have "(c + (a mod 65535 + w)) mod 65535 = (c + (a + w)) mod 65535"
      unfolding add.left_commute[of c] by (rule mod_add_left_eq)
    then show ?case
      using 1[of "a + w" "c + (a + w)"]
      by (simp add: Let_def mod_simps algebra_simps w_def)
  next
    case (2 x)
    have "(c + (a mod 65535 + unat x * 256)) mod 65535 = (c + (a + unat x * 256)) mod 65535"
      unfolding add.left_commute[of c] by (rule mod_add_left_eq)
    then show ?case by (simp add: Let_def mod_simps algebra_simps)
  qed simp
  define s1 s2 where "s1 = sum_list (be_words bs) mod 65535" and "s2 = wsum (be_words bs) mod 65535"
  have lt: "s1 < 65536" "s2 < 65536" by (simp_all add: s1_def s2_def less_trans[OF mod_less_divisor])
  have "fletcher32 bs = push_bit 16 (of_nat s2) OR of_nat s1"
    using loop[of 0 0] by (simp add: fletcher32_def s1_def s2_def)
  then show ?thesis using lt by (simp add: unat_or_push_bit16 s1_def s2_def)
qed

end
