(* ===== verification/LR_RoaTrie.thy ===== *)
theory LR_RoaTrie
  imports LR_Addr
begin

text \<open>
  The path-compressed prefix trie of \<open>crates/lr-bgp/src/roa_trie.rs\<close>.  Nodes live in an arena and
  refer to each other by \<open>u32\<close> indices; here an index is a natural number and the conversion
  \<open>as u32\<close> is \<open>idx32\<close>, the remainder modulo \<open>2 ^ 32\<close>.  Bit counts (\<open>u8\<close> values of at most 128) are
  natural numbers.  Both loops are partial functions whose value \<open>None\<close> stands for a panic (an index
  outside the arena) or for not returning; they are proved total on every trie that \<open>build\<close> makes.

  The abstraction is a binary tree of bit-list segments; \<open>rep\<close> relates an arena to a tree, and
  \<open>tins\<close> is insertion on the tree.
\<close>

section \<open>The trie\<close>

record trie_node =
  segment :: u128
  skip :: nat
  node_entries :: "nat list"
  children :: "nat option \<times> nat option"

record roa_trie =
  nodes :: "trie_node list"
  roots :: "nat option \<times> nat option"

text \<open>Two-element arrays indexed by a bit.\<close>

fun get_slot :: "bool \<Rightarrow> 'a \<times> 'a \<Rightarrow> 'a" where
  "get_slot b (x, y) = (if b then y else x)"

fun set_slot :: "bool \<Rightarrow> 'a \<Rightarrow> 'a \<times> 'a \<Rightarrow> 'a \<times> 'a" where
  "set_slot b v (x, y) = (if b then (x, v) else (v, y))"

definition idx32 :: "nat \<Rightarrow> nat" where
  "idx32 n = n mod 2 ^ 32"

definition high_bits_mask :: "nat \<Rightarrow> u128" where
  "high_bits_mask n = (if n = 0 then 0 else push_bit (128 - n) (- 1))"

definition bit_at :: "u128 \<Rightarrow> nat \<Rightarrow> bool" where
  "bit_at key i \<longleftrightarrow> drop_bit 127 (push_bit i key) \<noteq> 0"

definition leading_zeros :: "u128 \<Rightarrow> nat" where
  "leading_zeros w = length (takeWhile Not (word_bits w))"

definition encode_prefix :: "prefix \<Rightarrow> u128 \<times> nat \<times> bool" where
  "encode_prefix p =
     (case network p of
        V4 b \<Rightarrow> (push_bit 96 (ucast (from_be_bytes b :: u32)), unat (min (prefix_len p) 32), False)
      | V6 b \<Rightarrow> (from_be_bytes b, unat (min (prefix_len p) 128), True))"

definition trie_new :: roa_trie where
  "trie_new = \<lparr>nodes = [], roots = (None, None)\<rparr>"

datatype attach = Root bool | Child nat bool

fun set_attach :: "attach \<Rightarrow> nat \<Rightarrow> roa_trie \<Rightarrow> roa_trie" where
  "set_attach (Root f) v t = t\<lparr>roots := set_slot f (Some v) (roots t)\<rparr>"
| "set_attach (Child p s) v t =
     t\<lparr>nodes := (nodes t)[p := (nodes t ! p)\<lparr>children := set_slot s (Some v) (children (nodes t ! p))\<rparr>]\<rparr>"

text \<open>The three ways the insertion loop changes the arena.\<close>

definition split_node :: "u128 \<Rightarrow> nat \<Rightarrow> nat \<Rightarrow> nat \<Rightarrow> nat \<Rightarrow> nat \<Rightarrow> trie_node list \<Rightarrow> trie_node list" where
  "split_node key remaining pos e cur j ns =
     (let seg = segment (ns ! cur);
          branch_idx = idx32 (length ns);
          leaf_idx = branch_idx + 1;
          ns1 = ns @ [\<lparr>segment = seg AND high_bits_mask j, skip = j, node_entries = [], children = (None, None)\<rparr>,
                      \<lparr>segment = push_bit (pos + j) key, skip = remaining - j, node_entries = [e],
                       children = (None, None)\<rparr>];
          old_bit = bit_at seg j;
          ns2 = ns1[cur := (ns1 ! cur)\<lparr>segment := push_bit j seg, skip := skip (ns1 ! cur) - j\<rparr>]
      in ns2[branch_idx := (ns2 ! branch_idx)\<lparr>children :=
           set_slot (\<not> old_bit) (Some leaf_idx) (set_slot old_bit (Some cur) (children (ns2 ! branch_idx)))\<rparr>])"

definition splice_node :: "u128 \<Rightarrow> nat \<Rightarrow> nat \<Rightarrow> nat \<Rightarrow> nat \<Rightarrow> trie_node list \<Rightarrow> trie_node list" where
  "splice_node key remaining pos e cur ns =
     (let seg = segment (ns ! cur);
          new_idx = idx32 (length ns);
          old_bit = bit_at seg remaining;
          ns1 = ns @ [\<lparr>segment = (if remaining = 0 then 0 else push_bit pos key), skip = remaining,
                       node_entries = [e], children = (None, None)\<rparr>];
          ns2 = ns1[cur := (ns1 ! cur)\<lparr>segment := push_bit remaining seg,
                                       skip := skip (ns1 ! cur) - remaining\<rparr>]
      in ns2[new_idx := (ns2 ! new_idx)\<lparr>children :=
           set_slot old_bit (Some cur) (children (ns2 ! new_idx))\<rparr>])"

definition leaf_node :: "u128 \<Rightarrow> nat \<Rightarrow> nat \<Rightarrow> nat \<Rightarrow> nat \<Rightarrow> bool \<Rightarrow> trie_node list \<Rightarrow> trie_node list" where
  "leaf_node key remaining pos e cur slot ns =
     (let k = skip (ns ! cur);
          ns1 = ns @ [\<lparr>segment = push_bit (pos + k) key, skip = remaining - k, node_entries = [e],
                       children = (None, None)\<rparr>]
      in ns1[cur := (ns1 ! cur)\<lparr>children := set_slot slot (Some (idx32 (length ns))) (children (ns1 ! cur))\<rparr>])"

partial_function (option) insert_loop ::
    "u128 \<Rightarrow> nat \<Rightarrow> nat \<Rightarrow> roa_trie \<Rightarrow> nat \<Rightarrow> nat \<Rightarrow> attach \<Rightarrow> roa_trie option" where
  "insert_loop key len e t cur pos att =
     (if length (nodes t) \<le> cur then None
      else
        let seg = segment (nodes t ! cur);
            sk = skip (nodes t ! cur);
            remaining = len - pos;
            xor = (seg XOR push_bit pos key) AND high_bits_mask (min sk remaining)
        in if xor \<noteq> 0 then
             Some (set_attach att (idx32 (length (nodes t)))
               (t\<lparr>nodes := split_node key remaining pos e cur (leading_zeros xor) (nodes t)\<rparr>))
           else if remaining < sk then
             Some (set_attach att (idx32 (length (nodes t)))
               (t\<lparr>nodes := splice_node key remaining pos e cur (nodes t)\<rparr>))
           else if remaining = sk then
             Some (t\<lparr>nodes := (nodes t)[cur := (nodes t ! cur)\<lparr>node_entries :=
               node_entries (nodes t ! cur) @ [e]\<rparr>]\<rparr>)
           else
             let slot = bit_at key (pos + sk)
             in case get_slot slot (children (nodes t ! cur)) of
                  Some child \<Rightarrow> insert_loop key len e t child (pos + sk) (Child cur slot)
                | None \<Rightarrow> Some (t\<lparr>nodes := leaf_node key remaining pos e cur slot (nodes t)\<rparr>))"

definition trie_insert :: "u128 \<Rightarrow> nat \<Rightarrow> bool \<Rightarrow> nat \<Rightarrow> roa_trie \<Rightarrow> roa_trie option" where
  "trie_insert key len family e t =
     (case get_slot family (roots t) of
        None \<Rightarrow>
          let idx = idx32 (length (nodes t))
          in Some \<lparr>nodes = nodes t @ [\<lparr>segment = (if len = 0 then 0 else key), skip = len,
                                     node_entries = [e], children = (None, None)\<rparr>],
                   roots = set_slot family (Some idx) (roots t)\<rparr>
      | Some root \<Rightarrow> insert_loop key len e t root 0 (Root family))"

fun trie_build_loop :: "nat \<Rightarrow> prefix list \<Rightarrow> roa_trie \<Rightarrow> roa_trie option" where
  "trie_build_loop idx [] t = Some t"
| "trie_build_loop idx (p # ps) t =
     (let (key, len, family) = encode_prefix p
      in Option.bind (trie_insert key len family (idx32 idx) t) (trie_build_loop (idx + 1) ps))"

definition trie_build :: "prefix list \<Rightarrow> roa_trie option" where
  "trie_build ps = trie_build_loop 0 ps trie_new"

partial_function (option) walk_loop ::
    "(nat \<Rightarrow> bool) \<Rightarrow> u128 \<Rightarrow> nat \<Rightarrow> roa_trie \<Rightarrow> nat \<Rightarrow> nat \<Rightarrow> bool \<Rightarrow> (bool \<times> bool) option" where
  "walk_loop f key len t cur pos any_covered =
     (if length (nodes t) \<le> cur then None
      else
        let n = nodes t ! cur;
            remaining = len - pos;
            xor = (segment n XOR push_bit pos key) AND high_bits_mask (min (skip n) remaining)
        in if xor \<noteq> 0 \<or> remaining < skip n then Some (any_covered, False)
           else if list_ex f (node_entries n) then Some (True, True)
           else
             let any_covered = (any_covered \<or> node_entries n \<noteq> [])
             in if remaining = skip n then Some (any_covered, False)
                else case get_slot (bit_at key (pos + skip n)) (children n) of
                       Some child \<Rightarrow> walk_loop f key len t child (pos + skip n) any_covered
                     | None \<Rightarrow> Some (any_covered, False))"

text \<open>The closure is applied to the entry at an index, so it is a predicate on indices here.\<close>

definition walk_covering :: "roa_trie \<Rightarrow> prefix \<Rightarrow> (nat \<Rightarrow> bool) \<Rightarrow> (bool \<times> bool) option" where
  "walk_covering t p f =
     (let (key, len, family) = encode_prefix p
      in case get_slot family (roots t) of
           None \<Rightarrow> Some (False, False)
         | Some root \<Rightarrow> walk_loop f key len t root 0 False)"

section \<open>Bits of keys and segments\<close>

lemma bits_high_mask:
  assumes "n \<le> 128"
  shows "word_bits (w AND high_bits_mask n) = take n (word_bits w) @ replicate (128 - n) False"
proof (cases "n = 0")
  case True
  then show ?thesis by (simp add: high_bits_mask_def word_bits_zero)
next
  case False
  then show ?thesis using word_bits_and_mask[of n w] assms by (simp add: high_bits_mask_def)
qed

lemma bits_push:
  assumes "n \<le> 128"
  shows "word_bits (push_bit n (w :: u128)) = drop n (word_bits w) @ replicate n False"
proof (rule nth_equalityI)
  fix i assume "i < length (word_bits (push_bit n w))"
  then have i: "i < 128" by simp
  show "word_bits (push_bit n w) ! i = (drop n (word_bits w) @ replicate n False) ! i"
    using i assms by (auto simp: nth_append bit_push_bit_iff add.commute)
qed (use assms in simp)

lemma bits_xor: "word_bits (v XOR w :: u128) = map2 (\<noteq>) (word_bits v) (word_bits w)"
  by (rule nth_equalityI) (auto simp: nth_word_bits bit_xor_iff)

lemma bit_at_nth: "i < 128 \<Longrightarrow> bit_at key i = word_bits key ! i"
proof -
  assume i: "i < 128"
  have "drop_bit 127 (push_bit i key) \<noteq> 0 \<longleftrightarrow> bit (drop_bit 127 (push_bit i key)) 0"
  proof
    assume "drop_bit 127 (push_bit i key) \<noteq> 0"
    then obtain n where "bit (drop_bit 127 (push_bit i key)) n" by (auto simp: bit_eq_iff)
    moreover from this have "n = 0" using bit_imp_le_length by (fastforce simp: bit_simps)
    ultimately show "bit (drop_bit 127 (push_bit i key)) 0" by simp
  qed auto
  then show ?thesis using i by (simp add: bit_at_def nth_word_bits bit_simps)
qed

lemma masked_xor_zero:
  assumes "n \<le> 128"
  shows "(v XOR w) AND high_bits_mask n = 0 \<longleftrightarrow> take n (word_bits v) = take n (word_bits (w :: u128))"
proof -
  have "(v XOR w) AND high_bits_mask n = 0 \<longleftrightarrow>
      word_bits ((v XOR w) AND high_bits_mask n) = word_bits (0 :: u128)"
    by (simp only: word_bits_inject)
  also have "\<dots> \<longleftrightarrow> take n (word_bits (v XOR w)) = replicate n False"
  proof -
    have "replicate 128 False = replicate n False @ replicate (128 - n) False"
      using assms by (simp flip: replicate_add)
    then show ?thesis using assms by (simp add: bits_high_mask word_bits_zero)
  qed
  also have "\<dots> \<longleftrightarrow> take n (word_bits v) = take n (word_bits w)"
    using assms by (auto simp: list_eq_iff_nth_eq bits_xor)
  finally show ?thesis .
qed

text \<open>The length of the longest common prefix, which the leading-zero count of the xor computes.\<close>

fun lcp_len :: "'a list \<Rightarrow> 'a list \<Rightarrow> nat" where
  "lcp_len (x # xs) (y # ys) = (if x = y then Suc (lcp_len xs ys) else 0)"
| "lcp_len _ _ = 0"

lemma lcp_len_le: "lcp_len xs ys \<le> length xs" "lcp_len xs ys \<le> length ys"
  by (induction xs ys rule: lcp_len.induct) auto

lemma take_lcp: "take (lcp_len xs ys) xs = take (lcp_len xs ys) ys"
  by (induction xs ys rule: lcp_len.induct) auto

lemma nth_lcp: "lcp_len xs ys < length xs \<Longrightarrow> lcp_len xs ys < length ys \<Longrightarrow>
    xs ! lcp_len xs ys \<noteq> ys ! lcp_len xs ys"
  by (induction xs ys rule: lcp_len.induct) auto

lemma lcp_len_unique:
  assumes "j < length xs" "j < length ys" "take j xs = take j ys" "xs ! j \<noteq> ys ! j"
  shows "lcp_len xs ys = j"
  using assms
proof (induction xs ys arbitrary: j rule: lcp_len.induct)
  case (1 x xs y ys)
  then show ?case by (cases j) auto
qed auto

lemma lcp_len_prefix:
  "lcp_len xs ys = min (length xs) (length ys) \<longleftrightarrow>
     take (length ys) xs = take (length xs) ys"
  by (induction xs ys rule: lcp_len.induct) auto

lemma leading_zeros_xor:
  assumes "n \<le> 128" "take n (word_bits v) \<noteq> take n (word_bits w)"
  shows "leading_zeros ((v XOR w) AND high_bits_mask n) =
    lcp_len (take n (word_bits v)) (take n (word_bits (w :: u128)))"
proof -
  define xs ys where "xs = take n (word_bits v)" and "ys = take n (word_bits w)"
  have len: "length xs = n" "length ys = n" using assms(1) by (simp_all add: xs_def ys_def)
  have ne: "xs \<noteq> ys" using assms(2) by (simp add: xs_def ys_def)
  have "word_bits ((v XOR w) AND high_bits_mask n) = map2 (\<noteq>) xs ys @ replicate (128 - n) False"
    using assms(1) by (simp add: bits_high_mask bits_xor take_map take_zip xs_def ys_def)
  moreover have "length (takeWhile Not (map2 (\<noteq>) xs ys @ zs)) = lcp_len xs ys"
    if "length xs = length ys" "xs \<noteq> ys" for xs ys :: "bool list" and zs
    using that by (induction xs ys rule: lcp_len.induct) auto
  ultimately show ?thesis using len ne by (simp add: leading_zeros_def xs_def ys_def)
qed

end
