(* ===== verification/LR_RoaTree.thy ===== *)
theory LR_RoaTree
  imports LR_RoaTrie
begin

text \<open>
  The abstraction of the ROA trie: a binary tree of bit-list segments, insertion on it, and the
  proof that the arena loops of \<open>LR_RoaTrie\<close> implement it.
\<close>

section \<open>The abstract tree\<close>

datatype rtree = RLeaf | RNode rtree nat "bool list" "nat list" rtree

fun rroot :: "rtree \<Rightarrow> nat option" where
  "rroot RLeaf = None"
| "rroot (RNode _ i _ _ _) = Some i"

fun rnodes :: "rtree \<Rightarrow> nat list" where
  "rnodes RLeaf = []"
| "rnodes (RNode l i _ _ r) = i # rnodes l @ rnodes r"

definition below :: "bool list \<Rightarrow> (bool list \<times> nat) set \<Rightarrow> (bool list \<times> nat) set" where
  "below p C = (\<lambda>(x, e). (p @ x, e)) ` C"

fun content :: "rtree \<Rightarrow> (bool list \<times> nat) set" where
  "content RLeaf = {}"
| "content (RNode l _ seg es r) =
     Pair seg ` set es \<union> below seg (content l \<union> content r)"

fun starts :: "bool \<Rightarrow> rtree \<Rightarrow> bool" where
  "starts b RLeaf = True"
| "starts b (RNode _ _ seg _ _) = (seg \<noteq> [] \<and> hd seg = b)"

fun twf :: "rtree \<Rightarrow> bool" where
  "twf RLeaf = True"
| "twf (RNode l _ _ _ r) = (starts False l \<and> starts True r \<and> twf l \<and> twf r)"

definition fork :: "bool \<Rightarrow> nat \<Rightarrow> bool list \<Rightarrow> nat list \<Rightarrow> rtree \<Rightarrow> rtree \<Rightarrow> rtree" where
  "fork b i seg es x y = (if b then RNode y i seg es x else RNode x i seg es y)"

text \<open>Insertion of an entry under a bit path; new nodes get the indices \<open>n\<close> and \<open>n + 1\<close>.\<close>

fun tins :: "nat \<Rightarrow> bool list \<Rightarrow> nat \<Rightarrow> rtree \<Rightarrow> rtree" where
  "tins n ks e RLeaf = RNode RLeaf n ks [e] RLeaf"
| "tins n ks e (RNode l i seg es r) =
     (let j = lcp_len seg ks
      in if j < min (length seg) (length ks) then
           fork (seg ! j) n (take j seg) [] (RNode l i (drop j seg) es r)
             (RNode RLeaf (n + 1) (drop j ks) [e] RLeaf)
         else if length ks < length seg then
           fork (seg ! length ks) n ks [e] (RNode l i (drop (length ks) seg) es r) RLeaf
         else if length ks = length seg then RNode l i seg (es @ [e]) r
         else if ks ! length seg then RNode l i seg es (tins n (drop (length seg) ks) e r)
         else RNode (tins n (drop (length seg) ks) e l) i seg es r)"

lemma tins_not_Leaf [simp]: "tins n ks e t \<noteq> RLeaf"
  by (cases t) (auto simp: fork_def Let_def)

text \<open>The five ways an insertion meets a node.\<close>

lemma tins_cases:
  obtains
    (split) j where "j < length seg" "j < length ks" "take j seg = take j ks" "ks ! j = (\<not> seg ! j)"
      "tins n ks e (RNode l i seg es r) = fork (seg ! j) n (take j seg) []
         (RNode l i (drop j seg) es r) (RNode RLeaf (n + 1) (drop j ks) [e] RLeaf)"
  | (splice) "length ks < length seg" "take (length ks) seg = ks"
      "tins n ks e (RNode l i seg es r) = fork (seg ! length ks) n ks [e]
         (RNode l i (drop (length ks) seg) es r) RLeaf"
  | (here) "ks = seg" "tins n ks e (RNode l i seg es r) = RNode l i seg (es @ [e]) r"
  | (down) x where "length seg < length ks" "take (length seg) ks = seg" "ks ! length seg = x"
      "tins n ks e (RNode l i seg es r) =
         (if x then RNode l i seg es (tins n (drop (length seg) ks) e r)
          else RNode (tins n (drop (length seg) ks) e l) i seg es r)"
proof -
  define j where "j = lcp_len seg ks"
  have le: "j \<le> length seg" "j \<le> length ks" using lcp_len_le[of seg ks] by (simp_all add: j_def)
  show thesis
  proof (cases "j < min (length seg) (length ks)")
    case True
    then have "ks ! j = (\<not> seg ! j)" using nth_lcp[of seg ks] by (auto simp: j_def)
    moreover have "take j seg = take j ks" unfolding j_def by (rule take_lcp)
    ultimately show thesis using True split[of j] by (simp add: Let_def flip: j_def)
  next
    case False
    then have "j = min (length seg) (length ks)" using le by linarith
    then have pre: "take (length ks) seg = take (length seg) ks"
      unfolding j_def by (simp only: lcp_len_prefix)
    have neg: "(lcp_len seg ks < min (length seg) (length ks)) = False" using False by (simp add: j_def)
    note eqs = tins.simps Let_def neg if_False if_True
    consider "length ks < length seg" | "length ks = length seg" | "length seg < length ks" by linarith
    then show thesis
    proof cases
      case 1
      then have "take (length ks) seg = ks" using pre by simp
      then show thesis using 1 splice unfolding eqs by simp
    next
      case 2
      then have "ks = seg" using pre by simp
      moreover have "tins n ks e (RNode l i seg es r) = RNode l i seg (es @ [e]) r"
        using 2 unfolding eqs by simp
      ultimately show thesis by (rule here)
    next
      case 3
      then have "take (length seg) ks = seg" using pre by simp
      then show thesis using 3 down[of "ks ! length seg"] unfolding eqs by simp
    qed
  qed
qed

lemma below_simps [simp]:
  "below p {} = {}" "below p (insert (q, e) C) = insert (p @ q, e) (below p C)"
  "below p (C \<union> D) = below p C \<union> below p D" "below p (below q C) = below (p @ q) C"
  "below p (Pair q ` E) = Pair (p @ q) ` E"
  by (auto simp: below_def image_Un image_image case_prod_unfold)

lemma append_take_drop_eq: "take j xs = take j ys \<Longrightarrow> take j xs @ drop j ys = ys"
  by (metis append_take_drop_id)

lemma content_tins: "content (tins n ks e t) = insert (ks, e) (content t)"
proof (induction t arbitrary: ks)
  case (RNode l i seg es r)
  show ?case
  proof (cases rule: tins_cases[of seg ks n e l i es r])
    case (split j)
    then show ?thesis
      using append_take_drop_eq[OF split(3)[symmetric]] by (simp add: fork_def Un_ac del: tins.simps)
  next
    case splice
    have "ks @ drop (length ks) seg = seg" using splice(2) by (metis append_take_drop_id)
    then show ?thesis by (simp add: splice(3) fork_def Un_ac del: tins.simps)
  next
    case here
    then show ?thesis by (simp del: tins.simps)
  next
    case (down x)
    have "seg @ drop (length seg) ks = ks" using down(2) by (metis append_take_drop_id)
    then show ?thesis
      by (simp add: down(4) RNode Un_ac del: tins.simps)
  qed
qed simp

lemma rnodes_tins:
  assumes "distinct (rnodes t)" "\<forall>i \<in> set (rnodes t). i < n"
  shows "distinct (rnodes (tins n ks e t)) \<and>
    set (rnodes (tins n ks e t)) \<subseteq> set (rnodes t) \<union> {n, n + 1}"
  using assms
proof (induction t arbitrary: ks)
  case (RNode l i seg es r)
  have b: "\<forall>k \<in> set (rnodes l) \<union> set (rnodes r). k < n" "i < n" using RNode.prems(2) by auto
  have n: "n \<notin> set (rnodes l)" "n \<notin> set (rnodes r)" "Suc n \<notin> set (rnodes l)" "Suc n \<notin> set (rnodes r)"
    using bspec[OF b(1), of n] bspec[OF b(1), of "Suc n"] b(2) by auto
  show ?case
  proof (cases rule: tins_cases[of seg ks n e l i es r])
    case (split j)
    then show ?thesis using RNode.prems n b(2) by (auto simp: fork_def simp del: tins.simps)
  next
    case splice
    then show ?thesis using RNode.prems n b(2) by (auto simp: fork_def simp del: tins.simps)
  next
    case here
    then show ?thesis using RNode.prems by (auto simp del: tins.simps)
  next
    case (down x)
    define ks' where "ks' = drop (length seg) ks"
    have L: "distinct (rnodes (tins n ks' e l))" "set (rnodes (tins n ks' e l)) \<subseteq> set (rnodes l) \<union> {n, n + 1}"
      and R: "distinct (rnodes (tins n ks' e r))" "set (rnodes (tins n ks' e r)) \<subseteq> set (rnodes r) \<union> {n, n + 1}"
      using RNode.IH RNode.prems by auto
    show ?thesis using RNode.prems n b(2) L(1) R(1) unfolding down(4) ks'_def[symmetric]
      by (cases x) (auto dest!: subsetD[OF L(2)] subsetD[OF R(2)] simp del: tins.simps)
  qed
qed simp

lemma starts_tins:
  assumes "starts b t" "ks \<noteq> []" "hd ks = b"
  shows "starts b (tins n ks e t)"
proof (cases t)
  case (RNode l i seg es r)
  then obtain s' k' where s: "seg = b # s'" "ks = b # k'" using assms by (cases seg; cases ks) auto
  then show ?thesis by (auto simp: RNode fork_def Let_def)
qed (use assms in simp)

lemma twf_tins: "twf t \<Longrightarrow> twf (tins n ks e t)"
proof (induction t arbitrary: ks)
  case (RNode l i seg es r)
  show ?case
  proof (cases rule: tins_cases[of seg ks n e l i es r])
    case (split j)
    then show ?thesis using RNode.prems by (simp add: fork_def hd_drop_conv_nth del: tins.simps)
  next
    case splice
    then show ?thesis using RNode.prems by (simp add: fork_def hd_drop_conv_nth del: tins.simps)
  next
    case here
    then show ?thesis using RNode.prems by (simp del: tins.simps)
  next
    case (down x)
    then show ?thesis
      using RNode starts_tins[of x "if x then r else l" "drop (length seg) ks" n e]
      by (cases x) (simp_all add: hd_drop_conv_nth del: tins.simps)
  qed
qed simp

section \<open>Arenas represent trees\<close>

fun rep :: "trie_node list \<Rightarrow> rtree \<Rightarrow> bool" where
  "rep ns RLeaf = True"
| "rep ns (RNode l i seg es r) =
     (i < length ns \<and> length seg \<le> 128 \<and> skip (ns ! i) = length seg \<and>
      take (length seg) (word_bits (segment (ns ! i))) = seg \<and> node_entries (ns ! i) = es \<and>
      children (ns ! i) = (rroot l, rroot r) \<and> rep ns l \<and> rep ns r)"

lemma rep_bound: "rep ns t \<Longrightarrow> \<forall>i \<in> set (rnodes t). i < length ns"
  by (induction t) auto

lemma rep_cong:
  assumes "rep ns t" "\<And>i. i \<in> set (rnodes t) \<Longrightarrow> i < length ns' \<and> ns' ! i = ns ! i"
  shows "rep ns' t"
  using assms by (induction t) auto

text \<open>The bits of a key that are left at a position.\<close>

definition rest_bits :: "u128 \<Rightarrow> nat \<Rightarrow> nat \<Rightarrow> bool list" where
  "rest_bits key len pos = take (len - pos) (drop pos (word_bits key))"

lemma length_rest_bits: "len \<le> 128 \<Longrightarrow> pos \<le> len \<Longrightarrow> length (rest_bits key len pos) = len - pos"
  by (simp add: rest_bits_def)

lemma drop_rest_bits: "drop n (rest_bits key len pos) = rest_bits key len (pos + n)"
  unfolding rest_bits_def drop_take drop_drop diff_diff_left by (simp only: add.commute)

lemma nth_rest_bits:
  assumes "len \<le> 128" "pos + n < len"
  shows "rest_bits key len pos ! n = bit_at key (pos + n)"
  using assms by (simp add: rest_bits_def bit_at_nth)

lemma take_push_key:
  assumes "len \<le> 128" "pos \<le> len" "n \<le> len - pos"
  shows "take n (word_bits (push_bit pos key)) = take n (rest_bits key len pos)"
  using assms by (simp add: bits_push rest_bits_def min_def)

text \<open>What the masked xor of a loop turn says about a node's segment and the key's remaining bits.\<close>

lemma turn_xor:
  fixes key :: u128
  assumes "len \<le> 128" "pos \<le> len" "length seg \<le> 128" "take (length seg) (word_bits w) = seg"
  defines "ks \<equiv> rest_bits key len pos"
  defines "d \<equiv> (w XOR push_bit pos key) AND high_bits_mask (min (length seg) (len - pos))"
  shows "d = 0 \<longleftrightarrow> take (length ks) seg = take (length seg) ks"
    and "d \<noteq> 0 \<Longrightarrow> leading_zeros d = lcp_len seg ks"
proof -
  define m where "m = min (length seg) (len - pos)"
  have m: "m \<le> 128" "m \<le> len - pos" "m \<le> length seg" using assms(3) by (simp_all add: m_def)
  have lk: "length ks = len - pos" unfolding ks_def using assms(1,2) by (rule length_rest_bits)
  have seg: "take m (word_bits w) = take m seg"
    using assms(4) m(3) by (metis min.absorb1 take_take)
  have ks: "take m (word_bits (push_bit pos key)) = take m ks"
    unfolding ks_def by (rule take_push_key[OF assms(1,2) m(2)])
  have eq: "take m seg = take (length ks) seg" "take m ks = take (length seg) ks"
    by (auto simp: m_def lk min_def)
  show z: "d = 0 \<longleftrightarrow> take (length ks) seg = take (length seg) ks"
    unfolding d_def m_def[symmetric] masked_xor_zero[OF m(1)] seg ks eq ..
  have lcp: "lcp_len (take m xs) (take m ys) = min m (lcp_len xs ys)" for xs ys :: "bool list"
  proof (induction xs ys arbitrary: m rule: lcp_len.induct)
    case (1 x xs y ys)
    then show ?case by (cases m) auto
  qed auto
  assume "d \<noteq> 0"
  then have ne: "take m (word_bits w) \<noteq> take m (word_bits (push_bit pos key))"
    unfolding seg ks eq using z by simp
  have "leading_zeros d = lcp_len (take m seg) (take m ks)"
    unfolding d_def m_def[symmetric] using leading_zeros_xor[OF m(1) ne] by (simp only: seg ks)
  then show "leading_zeros d = lcp_len seg ks"
    using lcp lcp_len_le[of seg ks] lk by (simp add: m_def)
qed

lemma seg_bits:
  assumes "length seg \<le> 128" "take (length seg) (word_bits w) = seg" "j \<le> length seg"
  shows "take j (word_bits (w AND high_bits_mask j)) = take j seg"
    and "take (length seg - j) (word_bits (push_bit j w)) = drop j seg"
    and "j < length seg \<Longrightarrow> bit_at w j = seg ! j"
proof -
  have j: "j \<le> 128" using assms(1,3) by simp
  have "take j (word_bits w) = take j seg" using assms(2,3) by (metis min.absorb1 take_take)
  then show "take j (word_bits (w AND high_bits_mask j)) = take j seg"
    using j assms(3) by (simp add: bits_high_mask)
  have "take (length seg - j) (word_bits (push_bit j w)) = take (length seg - j) (drop j (word_bits w))"
    using j assms(1,3) by (simp add: bits_push)
  also have "\<dots> = drop j (take (length seg) (word_bits w))" by (simp add: drop_take)
  finally show "take (length seg - j) (word_bits (push_bit j w)) = drop j seg"
    by (simp only: assms(2))
  show "bit_at w j = seg ! j" if "j < length seg"
  proof -
    have "bit_at w j = word_bits w ! j" using that assms(1) by (simp add: bit_at_nth)
    also have "\<dots> = take (length seg) (word_bits w) ! j" using that by simp
    finally show ?thesis by (simp only: assms(2))
  qed
qed

lemma key_bits:
  assumes "len \<le> 128" "pos \<le> len"
  shows "take (len - pos) (word_bits (push_bit pos key)) = rest_bits key len pos"
  using take_push_key[OF assms order_refl, of key] length_rest_bits[OF assms, of key] by simp

lemma rep_split:
  fixes key :: u128 and e :: nat
  assumes rep: "rep ns (RNode l i seg es r)" and dist: "distinct (rnodes (RNode l i seg es r))"
    and room: "length ns + 2 \<le> 2 ^ 32" and len: "len \<le> 128" "pos \<le> len"
    and j: "j < length seg" "j < len - pos"
  defines "ns' \<equiv> split_node key (len - pos) pos e i j ns"
  shows "rep ns' (fork (seg ! j) (length ns) (take j seg) [] (RNode l i (drop j seg) es r)
      (RNode RLeaf (length ns + 1) (drop j (rest_bits key len pos)) [e] RLeaf))"
    and "length ns' = length ns + 2" and "\<And>k. k < length ns \<Longrightarrow> k \<noteq> i \<Longrightarrow> ns' ! k = ns ! k"
proof -
  define n w where "n = length ns" and "w = segment (ns ! i)"
  have idx: "idx32 n = n" using room by (simp add: idx32_def n_def)
  have i: "i < n" "skip (ns ! i) = length seg" "length seg \<le> 128" "take (length seg) (word_bits w) = seg"
    "children (ns ! i) = (rroot l, rroot r)" "node_entries (ns ! i) = es" "rep ns l" "rep ns r"
    using rep by (simp_all add: n_def w_def)
  note sb = seg_bits[OF i(3,4) less_imp_le[OF j(1)]]
  have at: "ns' ! n = \<lparr>segment = w AND high_bits_mask j, skip = j, node_entries = [],
      children = (if seg ! j then (Some (n + 1), Some i) else (Some i, Some (n + 1)))\<rparr>"
    "ns' ! (n + 1) = \<lparr>segment = push_bit (pos + j) key, skip = len - pos - j, node_entries = [e],
      children = (None, None)\<rparr>"
    "ns' ! i = (ns ! i)\<lparr>segment := push_bit j w, skip := length seg - j\<rparr>"
    using i(1,2) sb(3)[OF j(1)]
    by (auto simp: ns'_def split_node_def Let_def idx n_def[symmetric] w_def[symmetric] nth_append
        nth_list_update)
  show len': "length ns' = length ns + 2" by (simp add: ns'_def split_node_def Let_def)
  show frame: "ns' ! k = ns ! k" if "k < length ns" "k \<noteq> i" for k
    using that i(1) by (auto simp: ns'_def split_node_def Let_def idx n_def[symmetric] nth_append
        nth_list_update)
  have sub: "rep ns' x" if "rep ns x" "i \<notin> set (rnodes x)" for x
  proof (rule rep_cong[OF that(1)])
    fix k assume "k \<in> set (rnodes x)"
    then have "k < length ns" "k \<noteq> i" using rep_bound[OF that(1)] that(2) by auto
    then show "k < length ns' \<and> ns' ! k = ns ! k" using frame len' by simp
  qed
  have lr: "rep ns' l" "rep ns' r" using sub i(7,8) dist by auto
  have leaf: "take (len - pos - j) (word_bits (push_bit (pos + j) key)) = drop j (rest_bits key len pos)"
    using key_bits[of len "pos + j" key] len j(2) by (simp add: drop_rest_bits)
  have ll: "length (drop j (rest_bits key len pos)) = len - pos - j"
    using len by (simp add: length_rest_bits)
  have bnd: "length seg - j \<le> 128" "len - (pos + j) \<le> 128" using i(3) len by linarith+
  show "rep ns' (fork (seg ! j) (length ns) (take j seg) [] (RNode l i (drop j seg) es r)
      (RNode RLeaf (length ns + 1) (drop j (rest_bits key len pos)) [e] RLeaf))"
    using at[unfolded n_def] len' i(1,3,5,6) sb(1,2) lr leaf ll j bnd
    by (simp add: fork_def n_def)
qed

lemma rep_frame:
  assumes "rep ns t" "i \<notin> set (rnodes t)" "length ns \<le> length ns'"
    and "\<And>k. k < length ns \<Longrightarrow> k \<noteq> i \<Longrightarrow> ns' ! k = ns ! k"
  shows "rep ns' t"
proof (rule rep_cong[OF assms(1)])
  fix k assume "k \<in> set (rnodes t)"
  then have "k < length ns" "k \<noteq> i" using rep_bound[OF assms(1)] assms(2) by auto
  then show "k < length ns' \<and> ns' ! k = ns ! k" using assms(3,4) by simp
qed

lemma rep_splice:
  fixes key :: u128 and e :: nat
  assumes rep: "rep ns (RNode l i seg es r)" and dist: "distinct (rnodes (RNode l i seg es r))"
    and room: "length ns + 2 \<le> 2 ^ 32" and len: "len \<le> 128" "pos \<le> len"
    and short: "len - pos < length seg"
  defines "ns' \<equiv> splice_node key (len - pos) pos e i ns"
  shows "rep ns' (fork (seg ! (len - pos)) (length ns) (rest_bits key len pos) [e]
      (RNode l i (drop (len - pos) seg) es r) RLeaf)"
    and "length ns' = length ns + 1" and "\<And>k. k < length ns \<Longrightarrow> k \<noteq> i \<Longrightarrow> ns' ! k = ns ! k"
proof -
  define n w j where "n = length ns" and "w = segment (ns ! i)" and "j = len - pos"
  have idx: "idx32 n = n" using room by (simp add: idx32_def n_def)
  have i: "i < n" "skip (ns ! i) = length seg" "length seg \<le> 128" "take (length seg) (word_bits w) = seg"
    "children (ns ! i) = (rroot l, rroot r)" "node_entries (ns ! i) = es" "rep ns l" "rep ns r"
    using rep by (simp_all add: n_def w_def)
  have j: "j < length seg" using short by (simp add: j_def)
  note sb = seg_bits[OF i(3,4) less_imp_le[OF j]]
  have at: "ns' ! n = \<lparr>segment = (if j = 0 then 0 else push_bit pos key), skip = j, node_entries = [e],
      children = (if seg ! j then (None, Some i) else (Some i, None))\<rparr>"
    "ns' ! i = (ns ! i)\<lparr>segment := push_bit j w, skip := length seg - j\<rparr>"
    using i(1,2) sb(3)[OF j]
    by (auto simp: ns'_def splice_node_def Let_def idx n_def[symmetric] w_def[symmetric] j_def[symmetric]
        nth_append nth_list_update)
  show len': "length ns' = length ns + 1" by (simp add: ns'_def splice_node_def Let_def)
  show frame: "ns' ! k = ns ! k" if "k < length ns" "k \<noteq> i" for k
    using that i(1) by (auto simp: ns'_def splice_node_def Let_def idx n_def[symmetric] nth_append
        nth_list_update)
  have lr: "rep ns' l" "rep ns' r"
    by (rule rep_frame[OF _ _ _ frame, where i = i]; use i(7,8) dist len' in simp)+
  have lk: "length (rest_bits key len pos) = j" using len by (simp add: length_rest_bits j_def)
  have new: "take j (word_bits (if j = 0 then 0 else push_bit pos key)) = rest_bits key len pos"
    using key_bits[OF len, of key] lk by (auto simp: j_def)
  have bnd: "length seg - j \<le> 128" "j \<le> 128" using i(3) j by linarith+
  show "rep ns' (fork (seg ! (len - pos)) (length ns) (rest_bits key len pos) [e]
      (RNode l i (drop (len - pos) seg) es r) RLeaf)"
    using at[unfolded n_def] len' i(1,3,5,6) sb(1,2) lr new lk j bnd
    by (simp add: fork_def n_def flip: j_def)
qed

lemma rep_leaf:
  fixes key :: u128 and e :: nat
  assumes rep: "rep ns (RNode l i seg es r)" and dist: "distinct (rnodes (RNode l i seg es r))"
    and room: "length ns + 2 \<le> 2 ^ 32" and len: "len \<le> 128" "pos \<le> len"
    and long: "length seg < len - pos" and none: "(if x then r else l) = RLeaf"
  defines "ns' \<equiv> leaf_node key (len - pos) pos e i x ns"
  defines "t \<equiv> RNode RLeaf (length ns) (drop (length seg) (rest_bits key len pos)) [e] RLeaf"
  shows "rep ns' (if x then RNode l i seg es t else RNode t i seg es r)"
    and "length ns' = length ns + 1" and "\<And>k. k < length ns \<Longrightarrow> k \<noteq> i \<Longrightarrow> ns' ! k = ns ! k"
proof -
  define n where "n = length ns"
  have idx: "idx32 n = n" using room by (simp add: idx32_def n_def)
  have i: "i < n" "skip (ns ! i) = length seg" "length seg \<le> 128"
    "take (length seg) (word_bits (segment (ns ! i))) = seg"
    "children (ns ! i) = (rroot l, rroot r)" "node_entries (ns ! i) = es" "rep ns l" "rep ns r"
    using rep by (simp_all add: n_def)
  have at: "ns' ! n = \<lparr>segment = push_bit (pos + length seg) key, skip = len - pos - length seg,
      node_entries = [e], children = (None, None)\<rparr>"
    "ns' ! i = (ns ! i)\<lparr>children := set_slot x (Some n) (rroot l, rroot r)\<rparr>"
    using i(1,2,5)
    by (auto simp: ns'_def leaf_node_def Let_def idx n_def[symmetric] nth_append nth_list_update)
  show len': "length ns' = length ns + 1" by (simp add: ns'_def leaf_node_def Let_def)
  show frame: "ns' ! k = ns ! k" if "k < length ns" "k \<noteq> i" for k
    using that i(1) by (auto simp: ns'_def leaf_node_def Let_def idx n_def[symmetric] nth_append
        nth_list_update)
  have lr: "rep ns' l" "rep ns' r"
    by (rule rep_frame[OF _ _ _ frame, where i = i]; use i(7,8) dist len' in simp)+
  have leaf: "take (len - pos - length seg) (word_bits (push_bit (pos + length seg) key)) =
      drop (length seg) (rest_bits key len pos)"
    using key_bits[of len "pos + length seg" key] len long by (simp add: drop_rest_bits)
  have ll: "length (drop (length seg) (rest_bits key len pos)) = len - pos - length seg"
    using len by (simp add: length_rest_bits)
  have bnd: "len - (pos + length seg) \<le> 128" using len by linarith
  show "rep ns' (if x then RNode l i seg es t else RNode t i seg es r)"
    using at[unfolded n_def] len' i(1,2,3,4,6) lr leaf ll bnd none
    by (simp add: t_def n_def)
qed

text \<open>The place a node hangs from already refers to it.\<close>

fun att_ok :: "attach \<Rightarrow> nat \<Rightarrow> nat set \<Rightarrow> roa_trie \<Rightarrow> bool" where
  "att_ok (Root f) i I t \<longleftrightarrow> get_slot f (roots t) = Some i"
| "att_ok (Child p s) i I t \<longleftrightarrow>
     p < length (nodes t) \<and> p \<notin> I \<and> get_slot s (children (nodes t ! p)) = Some i"

lemma set_slot_same: "get_slot b c = v \<Longrightarrow> set_slot b v c = c"
  by (cases c) auto

lemma set_attach_same: "att_ok att i I t \<Longrightarrow> set_attach att i t = t"
  by (cases att) (auto simp: set_slot_same)

lemma att_ok_frame:
  assumes "att_ok att i I \<lparr>nodes = ns, roots = rs\<rparr>" "length ns \<le> length ns'"
    and "\<And>k. k < length ns \<Longrightarrow> k \<notin> I \<Longrightarrow> ns' ! k = ns ! k"
  shows "att_ok att i I \<lparr>nodes = ns', roots = rs\<rparr>"
  using assms by (cases att) auto

lemma rep_descend:
  assumes rep: "rep ns (RNode l i seg es r)" and dist: "distinct (rnodes (RNode l i seg es r))"
    and c: "c = (if x then r else l)" and c': "rep ns1 c'"
      "set (rnodes c') \<subseteq> set (rnodes c) \<union> {length ns, length ns + 1}"
    and ns1: "length ns \<le> length ns1" "\<And>k. k < length ns \<Longrightarrow> k \<notin> set (rnodes c) \<Longrightarrow> ns1 ! k = ns ! k"
  defines "ns2 \<equiv> ns1[i := (ns ! i)\<lparr>children := set_slot x (rroot c') (rroot l, rroot r)\<rparr>]"
  shows "rep ns2 (if x then RNode l i seg es c' else RNode c' i seg es r)"
    and "\<And>k. k < length ns \<Longrightarrow> k \<notin> set (rnodes (RNode l i seg es r)) \<Longrightarrow> ns2 ! k = ns ! k"
proof -
  have i: "i < length ns" "i \<notin> set (rnodes c)" using rep dist by (auto simp: c)
  have frame: "ns2 ! k = ns ! k" if "k < length ns" "k \<notin> set (rnodes c)" "k \<noteq> i" for k
    using ns1(2) that by (simp add: ns2_def)
  have "set (rnodes c) \<subseteq> set (rnodes (RNode l i seg es r))" by (auto simp: c)
  then show "ns2 ! k = ns ! k" if "k < length ns" "k \<notin> set (rnodes (RNode l i seg es r))" for k
    using frame that by auto
  have "i \<notin> set (rnodes c')" using c'(2) i by auto
  then have rep_c': "rep ns2 c'" by (rule rep_frame[OF c'(1)]) (simp_all add: ns2_def)
  have sib: "rep ns2 s" if s: "s = (if x then l else r)" for s
  proof (rule rep_cong)
    show "rep ns s" using rep s by simp
    fix k assume k: "k \<in> set (rnodes s)"
    then have "k < length ns" using rep_bound[OF \<open>rep ns s\<close>] by simp
    moreover have "k \<notin> set (rnodes c)" "k \<noteq> i" using dist k s by (auto simp: c split: if_splits)
    ultimately show "k < length ns2 \<and> ns2 ! k = ns ! k" using frame ns1(1) by (simp add: ns2_def)
  qed
  have "ns2 ! i = (ns ! i)\<lparr>children := set_slot x (rroot c') (rroot l, rroot r)\<rparr>" "i < length ns2"
    using i(1) ns1(1) by (simp_all add: ns2_def)
  then show "rep ns2 (if x then RNode l i seg es c' else RNode c' i seg es r)"
    using rep_c' sib rep by (cases x) auto
qed

lemma insert_loop_refines:
  assumes "rep ns (RNode l i seg es r)" "distinct (rnodes (RNode l i seg es r))"
    and "length ns + 2 \<le> 2 ^ 32" "len \<le> 128" "pos \<le> len"
    and "att_ok att i (set (rnodes (RNode l i seg es r))) \<lparr>nodes = ns, roots = rs\<rparr>"
  shows "\<exists>ns'. insert_loop key len e \<lparr>nodes = ns, roots = rs\<rparr> i pos att =
      Some (set_attach att (the (rroot (tins (length ns) (rest_bits key len pos) e (RNode l i seg es r))))
        \<lparr>nodes = ns', roots = rs\<rparr>) \<and>
    rep ns' (tins (length ns) (rest_bits key len pos) e (RNode l i seg es r)) \<and>
    length ns \<le> length ns' \<and> length ns' \<le> length ns + 2 \<and>
    (\<forall>k < length ns. k \<notin> set (rnodes (RNode l i seg es r)) \<longrightarrow> ns' ! k = ns ! k)"
  using assms
proof (induction "RNode l i seg es r" arbitrary: l i seg es r pos att)
  case (RNode l i seg es r pos att)
  let ?t = "RNode l i seg es r" and ?n = "length ns"
  define ks where "ks = rest_bits key len pos"
  define w where "w = segment (ns ! i)"
  define d where "d = (w XOR push_bit pos key) AND high_bits_mask (min (length seg) (len - pos))"
  note pr = RNode.prems and IH = RNode.hyps
  have i: "i < ?n" "skip (ns ! i) = length seg" "length seg \<le> 128" "take (length seg) (word_bits w) = seg"
    "children (ns ! i) = (rroot l, rroot r)" "node_entries (ns ! i) = es"
    using pr(1) by (simp_all add: w_def)
  have idx: "idx32 ?n = ?n" using pr(3) by (simp add: idx32_def)
  have lk: "length ks = len - pos" unfolding ks_def using pr(4,5) by (rule length_rest_bits)
  note x = turn_xor[OF pr(4,5) i(3,4), of key, folded ks_def d_def]
  note body = insert_loop.simps[of key len e "\<lparr>nodes = ns, roots = rs\<rparr>" i pos att, simplified roa_trie.simps,
      unfolded Let_def i(2) w_def[symmetric] d_def[symmetric]]
  define goal where "goal t' \<longleftrightarrow> (\<exists>ns'. insert_loop key len e \<lparr>nodes = ns, roots = rs\<rparr> i pos att =
        Some (set_attach att (the (rroot t')) \<lparr>nodes = ns', roots = rs\<rparr>) \<and>
      rep ns' t' \<and> ?n \<le> length ns' \<and> length ns' \<le> ?n + 2 \<and>
      (\<forall>k < ?n. k \<notin> set (rnodes ?t) \<longrightarrow> ns' ! k = ns ! k))" for t'
  have goalI: "goal t'" if "rep ns' t'" "?n \<le> length ns'" "length ns' \<le> ?n + 2"
    "\<And>k. k < ?n \<Longrightarrow> k \<notin> set (rnodes ?t) \<Longrightarrow> ns' ! k = ns ! k"
    "insert_loop key len e \<lparr>nodes = ns, roots = rs\<rparr> i pos att =
      Some (set_attach att (the (rroot t')) \<lparr>nodes = ns', roots = rs\<rparr>)" for t' ns'
    using that unfolding goal_def by blast
  have "goal (tins ?n ks e ?t)"
  proof (cases rule: tins_cases[of seg ks ?n e l i es r])
    case (split j)
    have j: "j < length seg" "j < len - pos" using split lk by simp_all
    have "lcp_len seg ks = j" using split(1,2,3,4) by (intro lcp_len_unique) simp_all
    moreover have "take (length ks) seg \<noteq> take (length seg) ks"
    proof
      assume "take (length ks) seg = take (length seg) ks"
      then have "take (length ks) seg ! j = take (length seg) ks ! j" by simp
      then show False using split(1,2,4) by simp
    qed
    ultimately have d: "d \<noteq> 0" "leading_zeros d = j" using x by simp_all
    note rs = rep_split[OF pr(1-5) j, where key = key and e = e, folded ks_def]
    have "insert_loop key len e \<lparr>nodes = ns, roots = rs\<rparr> i pos att =
        Some (set_attach att ?n \<lparr>nodes = split_node key (len - pos) pos e i j ns, roots = rs\<rparr>)"
      using i(1) d by (simp add: body idx)
    then show ?thesis
      using rs unfolding split(5) by (intro goalI[of "split_node key (len - pos) pos e i j ns"])
        (auto simp: fork_def)
  next
    case splice
    have short: "len - pos < length seg" using splice lk by simp
    have d: "d = 0" using x(1) splice by simp
    note rs = rep_splice[OF pr(1-5) short, where key = key and e = e, folded ks_def, folded lk]
    have "insert_loop key len e \<lparr>nodes = ns, roots = rs\<rparr> i pos att =
        Some (set_attach att ?n \<lparr>nodes = splice_node key (length ks) pos e i ns, roots = rs\<rparr>)"
      using i(1) d short by (simp add: body idx lk)
    then show ?thesis
      using rs unfolding splice(3) by (intro goalI[of "splice_node key (length ks) pos e i ns"])
        (auto simp: fork_def)
  next
    case here
    define ns' where "ns' = ns[i := (ns ! i)\<lparr>node_entries := es @ [e]\<rparr>]"
    have d: "d = 0" using x(1) here by simp
    have run: "insert_loop key len e \<lparr>nodes = ns, roots = rs\<rparr> i pos att = Some \<lparr>nodes = ns', roots = rs\<rparr>"
      using i(1,6) d here(1) lk by (simp add: body ns'_def)
    have frame: "k < ?n \<Longrightarrow> k \<noteq> i \<Longrightarrow> ns' ! k = ns ! k" for k by (simp add: ns'_def)
    have lr: "rep ns' l" "rep ns' r"
      by (rule rep_frame[OF _ _ _ frame, where i = i]; use pr(1,2) in \<open>simp add: ns'_def\<close>)+
    have "att_ok att i (set (rnodes ?t)) \<lparr>nodes = ns', roots = rs\<rparr>"
      by (rule att_ok_frame[OF pr(6)]) (auto simp: ns'_def)
    from set_attach_same[OF this] show ?thesis
      using run lr i frame unfolding here(2)
      by (intro goalI[of ns']) (auto simp: ns'_def w_def)
  next
    case (down x')
    have long: "length seg < len - pos" using down lk by simp
    have d: "d = 0" using x(1) down(1,2) by simp
    have slot: "bit_at key (pos + length seg) = x'"
      using nth_rest_bits[of len pos "length seg" key] pr(4) long down(3) by (simp add: ks_def)
    define c where "c = (if x' then r else l)"
    have child: "get_slot x' (children (ns ! i)) = rroot c" by (simp add: i(5) c_def)
    show ?thesis
    proof (cases c)
      case RLeaf
      note rs = rep_leaf[OF pr(1-5) long RLeaf[unfolded c_def], where key = key and e = e, folded ks_def]
      have run: "insert_loop key len e \<lparr>nodes = ns, roots = rs\<rparr> i pos att =
          Some \<lparr>nodes = leaf_node key (len - pos) pos e i x' ns, roots = rs\<rparr>"
        using i(1) d long by (simp add: body slot child RLeaf)
      have "att_ok att i (set (rnodes ?t)) \<lparr>nodes = leaf_node key (len - pos) pos e i x' ns, roots = rs\<rparr>"
        by (rule att_ok_frame[OF pr(6)]) (use rs(2,3) in auto)
      from set_attach_same[OF this] show ?thesis
        using run rs RLeaf unfolding down(4)
        by (intro goalI[of "leaf_node key (len - pos) pos e i x' ns"]) (auto simp: c_def split: if_splits)
    next
      case (RNode cl ci cseg ces cr)
      define c' where "c' = tins ?n (drop (length seg) ks) e c"
      have c: "rep ns c" "distinct (rnodes c)" "i \<notin> set (rnodes c)" using pr(1,2) by (auto simp: c_def)
      have att: "att_ok (Child i x') ci (set (rnodes c)) \<lparr>nodes = ns, roots = rs\<rparr>"
        using i(1) c(3) child RNode by simp
      have pos': "pos + length seg \<le> len" using long by simp
      have "\<exists>ns'. insert_loop key len e \<lparr>nodes = ns, roots = rs\<rparr> ci (pos + length seg) (Child i x') =
            Some (set_attach (Child i x') (the (rroot c')) \<lparr>nodes = ns', roots = rs\<rparr>) \<and>
          rep ns' c' \<and> ?n \<le> length ns' \<and> length ns' \<le> ?n + 2 \<and>
          (\<forall>k < ?n. k \<notin> set (rnodes c) \<longrightarrow> ns' ! k = ns ! k)"
      proof (cases x')
        case True
        then have "r = RNode cl ci cseg ces cr" using RNode by (simp add: c_def)
        from IH(2)[OF this c(1,2)[unfolded RNode] pr(3,4) pos' att[unfolded RNode]] show ?thesis
          unfolding c'_def RNode ks_def drop_rest_bits .
      next
        case False
        then have "l = RNode cl ci cseg ces cr" using RNode by (simp add: c_def)
        from IH(1)[OF this c(1,2)[unfolded RNode] pr(3,4) pos' att[unfolded RNode]] show ?thesis
          unfolding c'_def RNode ks_def drop_rest_bits .
      qed
      then obtain ns1 where ns1: "insert_loop key len e \<lparr>nodes = ns, roots = rs\<rparr> ci (pos + length seg) (Child i x') =
            Some (set_attach (Child i x') (the (rroot c')) \<lparr>nodes = ns1, roots = rs\<rparr>)"
        "rep ns1 c'" "?n \<le> length ns1" "length ns1 \<le> ?n + 2"
        "\<And>k. k < ?n \<Longrightarrow> k \<notin> set (rnodes c) \<Longrightarrow> ns1 ! k = ns ! k" by blast
      define ns2 where "ns2 = ns1[i := (ns ! i)\<lparr>children := set_slot x' (rroot c') (rroot l, rroot r)\<rparr>]"
      have some: "Some (the (rroot c')) = rroot c'" using tins_not_Leaf[of ?n _ e c] by (cases c') (auto simp: c'_def)
      have at_i: "ns1 ! i = ns ! i" using ns1(5) i(1) c(3) by simp
      have "insert_loop key len e \<lparr>nodes = ns, roots = rs\<rparr> i pos att =
          insert_loop key len e \<lparr>nodes = ns, roots = rs\<rparr> ci (pos + length seg) (Child i x')"
        using i(1) d long by (simp add: body slot child RNode)
      then have run: "insert_loop key len e \<lparr>nodes = ns, roots = rs\<rparr> i pos att = Some \<lparr>nodes = ns2, roots = rs\<rparr>"
        using ns1(1) some i(5) by (simp add: ns2_def at_i)
      have sub: "set (rnodes c') \<subseteq> set (rnodes c) \<union> {?n, ?n + 1}"
        using rnodes_tins[OF c(2) rep_bound[OF c(1)]] by (simp add: c'_def)
      note desc = rep_descend[OF pr(1,2) c_def ns1(2) sub ns1(3,5), folded ns2_def]
      have "att_ok att i (set (rnodes ?t)) \<lparr>nodes = ns2, roots = rs\<rparr>"
        by (rule att_ok_frame[OF pr(6)]) (use ns1(3) desc(2) in \<open>auto simp: ns2_def\<close>)
      from set_attach_same[OF this] show ?thesis
        using run desc ns1(3,4) unfolding down(4)
        by (cases x') (rule goalI[of ns2]; auto simp: c'_def c_def ns2_def)+
    qed
  qed
  then show ?case by (simp only: goal_def ks_def)
qed

end
