(* ===== verification/LR_RoaWalk.thy ===== *)
theory LR_RoaWalk
  imports LR_RoaTree
begin

text \<open>
  The covering walk and the construction of the ROA trie (\<open>walk_covering\<close>, \<open>RoaTrie::build\<close> of
  \<open>crates/lr-bgp/src/roa_trie.rs\<close>) against the abstract tree: both loops return on every trie that
  \<open>build\<close> makes, and the walk sees exactly the entries whose prefix covers the route.
\<close>

section \<open>Walks\<close>

text \<open>The entries whose bit path is a prefix of a key.\<close>

definition cov :: "rtree \<Rightarrow> bool list \<Rightarrow> nat set" where
  "cov t ks = {e. \<exists>p. (p, e) \<in> content t \<and> take (length p) ks = p}"

lemma cov_Leaf [simp]: "cov RLeaf ks = {}"
  by (simp add: cov_def)

lemma take_append_iff:
  "take (length (s @ p)) ks = s @ p \<longleftrightarrow> take (length s) ks = s \<and> take (length p) (drop (length s) ks) = p"
proof
  assume a: "take (length (s @ p)) ks = s @ p"
  have "take (length s) (take (length (s @ p)) ks) = take (length s) ks" by (simp add: min_def)
  then have 1: "take (length s) ks = s" unfolding a by simp
  moreover have "take (length p) (drop (length s) ks) = drop (length s) (take (length (s @ p)) ks)"
    by (simp add: drop_take)
  ultimately show "take (length s) ks = s \<and> take (length p) (drop (length s) ks) = p" using a by simp
next
  assume "take (length s) ks = s \<and> take (length p) (drop (length s) ks) = p"
  then show "take (length (s @ p)) ks = s @ p" by (simp add: take_add)
qed

lemma cov_node:
  "cov (RNode l i seg es r) ks =
     (if take (length seg) ks = seg
      then set es \<union> cov l (drop (length seg) ks) \<union> cov r (drop (length seg) ks) else {})"
proof -
  have "e \<in> cov (RNode l i seg es r) ks \<longleftrightarrow> e \<in> set es \<and> take (length seg) ks = seg \<or>
      (\<exists>x. ((x, e) \<in> content l \<or> (x, e) \<in> content r) \<and> take (length (seg @ x)) ks = seg @ x)" for e
    by (auto simp: cov_def below_def simp del: length_append)
  then show ?thesis unfolding take_append_iff by (auto simp: cov_def)
qed

lemma cov_starts:
  assumes "starts b t" "ks = [] \<or> hd ks \<noteq> b"
  shows "cov t ks = {}"
proof (cases t)
  case (RNode l i seg es r)
  then obtain s where s: "seg = b # s" using assms(1) by (cases seg) auto
  have "take (length seg) ks \<noteq> seg"
    using assms(2) by (cases ks) (auto simp: s)
  then show ?thesis by (simp add: RNode cov_node)
qed simp

definition walk_result :: "(nat \<Rightarrow> bool) \<Rightarrow> bool \<Rightarrow> nat set \<Rightarrow> bool \<times> bool" where
  "walk_result f any C = (if \<exists>e \<in> C. f e then (True, True) else (any \<or> C \<noteq> {}, False))"

lemma walk_loop_refines:
  assumes "rep ns (RNode l i seg es r)" "twf (RNode l i seg es r)" "len \<le> 128" "pos \<le> len"
  shows "walk_loop f key len \<lparr>nodes = ns, roots = rs\<rparr> i pos any =
    Some (walk_result f any (cov (RNode l i seg es r) (rest_bits key len pos)))"
  using assms
proof (induction "RNode l i seg es r" arbitrary: l i seg es r pos any)
  case (RNode l i seg es r pos any)
  define ks where "ks = rest_bits key len pos"
  define d where "d = (segment (ns ! i) XOR push_bit pos key) AND high_bits_mask (min (length seg) (len - pos))"
  note pr = RNode.prems and IH = RNode.hyps
  have i: "i < length ns" "skip (ns ! i) = length seg" "length seg \<le> 128"
    "take (length seg) (word_bits (segment (ns ! i))) = seg"
    "children (ns ! i) = (rroot l, rroot r)" "node_entries (ns ! i) = es"
    using pr(1) by simp_all
  have lk: "length ks = len - pos" unfolding ks_def using pr(3,4) by (rule length_rest_bits)
  note x = turn_xor[OF pr(3,4) i(3,4), of key, folded ks_def d_def]
  note body = walk_loop.simps[of f key len "\<lparr>nodes = ns, roots = rs\<rparr>" i pos any, simplified roa_trie.simps,
      unfolded Let_def i(2,6) d_def[symmetric]]
  have match: "d = 0 \<and> \<not> len - pos < length seg \<longleftrightarrow> take (length seg) ks = seg"
  proof (cases "len - pos < length seg")
    case True
    then have "length (take (length seg) ks) < length seg" using lk by simp
    then show ?thesis using True by fastforce
  next
    case False
    then show ?thesis using x(1) lk by (simp add: not_less) (rule eq_commute)
  qed
  have "walk_loop f key len \<lparr>nodes = ns, roots = rs\<rparr> i pos any =
      Some (walk_result f any (cov (RNode l i seg es r) ks))"
  proof (cases "take (length seg) ks = seg")
    case False
    then have "d \<noteq> 0 \<or> len - pos < length seg" using match by blast
    then show ?thesis using i(1) False by (auto simp: body cov_node walk_result_def)
  next
    case True
    then have d: "d = 0" "\<not> len - pos < length seg" using match by blast+
    note c = cov_node[of l i seg es r ks, unfolded if_P[OF True]]
    show ?thesis
    proof (cases "len - pos = length seg")
      case fin: True
      then have "drop (length seg) ks = []" using lk by simp
      then have "cov l (drop (length seg) ks) = {}" "cov r (drop (length seg) ks) = {}"
        using pr(2) cov_starts[of _ l] cov_starts[of _ r] by auto
      then show ?thesis using i(1) d fin
        by (auto simp: body c walk_result_def list_ex_iff)
    next
      case False
      then have long: "length seg < len - pos" using d by simp
      define b where "b = bit_at key (pos + length seg)"
      define t where "t = (if b then r else l)"
      have b: "hd (drop (length seg) ks) = b" 
        using nth_rest_bits[of len pos "length seg" key] pr(3) long lk
        by (simp add: ks_def b_def hd_drop_conv_nth)
      have "cov (if b then l else r) (drop (length seg) ks) = {}"
        using pr(2) b cov_starts[of False l "drop (length seg) ks"] cov_starts[of True r "drop (length seg) ks"]
        by (cases b) simp_all
      then have c': "cov (RNode l i seg es r) ks = set es \<union> cov t (drop (length seg) ks)"
        by (auto simp: c t_def split: if_splits)
      have child: "get_slot b (children (ns ! i)) = rroot t" by (simp add: i(5) t_def)
      show ?thesis
      proof (cases t)
        case RLeaf
        then show ?thesis using i(1) d False
          by (auto simp: body c' child walk_result_def list_ex_iff simp flip: b_def)
      next
        case (RNode cl ci cseg ces cr)
        have pos': "pos + length seg \<le> len" using long by simp
        have t: "rep ns t" "twf t" using pr(1,2) by (auto simp: t_def)
        have rec: "walk_loop f key len \<lparr>nodes = ns, roots = rs\<rparr> ci (pos + length seg) any' =
            Some (walk_result f any' (cov t (drop (length seg) ks)))" for any'
        proof (cases b)
          case True
          then have "r = RNode cl ci cseg ces cr" using RNode by (simp add: t_def)
          from IH(2)[OF this t[unfolded RNode] pr(3) pos'] show ?thesis
            by (simp add: RNode ks_def drop_rest_bits)
        next
          case False
          then have "l = RNode cl ci cseg ces cr" using RNode by (simp add: t_def)
          from IH(1)[OF this t[unfolded RNode] pr(3) pos'] show ?thesis
            by (simp add: RNode ks_def drop_rest_bits)
        qed
        have "rroot t = Some ci" by (simp add: RNode)
        then show ?thesis using i(1) d False rec
          by (auto simp: body c' child walk_result_def list_ex_iff simp flip: b_def)
      qed
    qed
  qed
  then show ?case by (simp only: ks_def)
qed

section \<open>The trie of a prefix list\<close>

definition trie_rep :: "roa_trie \<Rightarrow> rtree \<Rightarrow> rtree \<Rightarrow> bool" where
  "trie_rep T t4 t6 \<longleftrightarrow>
     rep (nodes T) t4 \<and> rep (nodes T) t6 \<and> roots T = (rroot t4, rroot t6) \<and>
     distinct (rnodes t4 @ rnodes t6) \<and> twf t4 \<and> twf t6"

lemma trie_rep_insert:
  fixes key :: u128
  assumes T: "trie_rep T t4 t6" and room: "length (nodes T) + 2 \<le> 2 ^ 32" and len: "len \<le> 128"
  defines "ks \<equiv> take len (word_bits key)" and "n \<equiv> length (nodes T)"
  shows "\<exists>T'. trie_insert key len fam e T = Some T' \<and> length (nodes T') \<le> n + 2 \<and>
    trie_rep T' (if fam then t4 else tins n ks e t4) (if fam then tins n ks e t6 else t6)"
proof -
  define t where "t = (if fam then t6 else t4)"
  define s where "s = (if fam then t4 else t6)"
  obtain ns rs where Teq: "T = \<lparr>nodes = ns, roots = rs\<rparr>" by (cases T) auto
  have ts: "rep ns t" "rep ns s" "distinct (rnodes t)" "distinct (rnodes s)"
    "set (rnodes t) \<inter> set (rnodes s) = {}" "twf t" "twf s"
    using T by (auto simp: trie_rep_def t_def s_def Teq)
  have rs: "rs = (rroot t4, rroot t6)" "get_slot fam rs = rroot t"
    using T by (simp_all add: trie_rep_def t_def Teq)
  have n: "n = length ns" by (simp add: n_def Teq)
  have t': "distinct (rnodes (tins n ks e t))" "set (rnodes (tins n ks e t)) \<subseteq> set (rnodes t) \<union> {n, n + 1}"
    using rnodes_tins[OF ts(3) rep_bound[OF ts(1)]] by (simp_all add: n)
  have disj: "set (rnodes (tins n ks e t)) \<inter> set (rnodes s) = {}"
    using t'(2) ts(5) rep_bound[OF ts(2)] by (fastforce simp: n)
  have ks: "ks = rest_bits key len 0" by (simp add: ks_def rest_bits_def)
  have fin: "trie_rep T' (if fam then t4 else tins n ks e t4) (if fam then tins n ks e t6 else t6)"
    if "rep (nodes T') (tins n ks e t)" "n \<le> length (nodes T')"
      "\<And>k. k < n \<Longrightarrow> k \<notin> set (rnodes t) \<Longrightarrow> nodes T' ! k = ns ! k"
      "roots T' = set_slot fam (rroot (tins n ks e t)) rs" for T'
  proof -
    have "rep (nodes T') s"
    proof (rule rep_cong[OF ts(2)])
      fix k assume "k \<in> set (rnodes s)"
      then have "k < n" "k \<notin> set (rnodes t)" using rep_bound[OF ts(2)] ts(5) by (auto simp: n)
      then show "k < length (nodes T') \<and> nodes T' ! k = ns ! k" using that(2,3) by simp
    qed
    then show ?thesis
      using that(1,4) ts(4,7) t'(1) disj twf_tins[OF ts(6)] rs(1)
      by (cases fam) (auto simp: trie_rep_def t_def s_def)
  qed
  show ?thesis
  proof (cases t)
    case RLeaf
    define T' where "T' = \<lparr>nodes = ns @ [\<lparr>segment = (if len = 0 then 0 else key), skip = len,
        node_entries = [e], children = (None, None)\<rparr>], roots = set_slot fam (Some n) rs\<rparr>"
    have idx: "idx32 n = n" using room by (simp add: idx32_def n_def)
    have "trie_insert key len fam e T = Some T'"
      using RLeaf rs(2) idx by (simp add: trie_insert_def Teq T'_def n)
    moreover have "rep (nodes T') (tins n ks e t)"
      using len by (simp add: RLeaf T'_def n ks_def)
    ultimately show ?thesis
      using fin[of T'] RLeaf by (auto simp: T'_def n nth_append)
  next
    case (RNode l i seg es r)
    have att: "att_ok (Root fam) i (set (rnodes t)) \<lparr>nodes = ns, roots = rs\<rparr>"
      using rs(2) RNode by simp
    have room': "length ns + 2 \<le> 2 ^ 32" using room by (simp add: Teq)
    from insert_loop_refines[OF ts(1,3)[unfolded RNode] room' len le0 att[unfolded RNode], of key e,
        folded RNode ks n]
    obtain ns' where ns': "insert_loop key len e T i 0 (Root fam) =
          Some (set_attach (Root fam) (the (rroot (tins n ks e t))) \<lparr>nodes = ns', roots = rs\<rparr>)"
      "rep ns' (tins n ks e t)" "n \<le> length ns'" "length ns' \<le> n + 2"
      "\<And>k. k < n \<Longrightarrow> k \<notin> set (rnodes t) \<Longrightarrow> ns' ! k = ns ! k" unfolding Teq by blast
    have some: "Some (the (rroot (tins n ks e t))) = rroot (tins n ks e t)"
      using tins_not_Leaf[of n ks e t] by (cases "tins n ks e t") auto
    have "trie_insert key len fam e T = insert_loop key len e T i 0 (Root fam)"
      using rs(2) RNode by (simp add: trie_insert_def Teq)
    then show ?thesis
      using ns' some fin[of "\<lparr>nodes = ns', roots = set_slot fam (rroot (tins n ks e t)) rs\<rparr>"] by auto
  qed
qed

text \<open>The bits a prefix is stored under, and when one prefix covers another.\<close>

definition pbits :: "prefix \<Rightarrow> bool list" where
  "pbits p = take (plen p) (ip_bits (addr p))"

definition covers :: "prefix \<Rightarrow> prefix \<Rightarrow> bool" where
  "covers q p \<longleftrightarrow> is_ipv4 (addr q) = is_ipv4 (addr p) \<and> take (length (pbits q)) (pbits p) = pbits q"

lemma encode_prefix_bits:
  assumes "ip_wf (addr p)" "encode_prefix p = (key, len, fam)"
  shows "len \<le> 128" "fam = (\<not> is_ipv4 (addr p))" "take len (word_bits key) = pbits p"
proof -
  have bits: "take (plen p) (ip_bits (network p)) = pbits p"
    using network_bits[OF assms(1)] length_ip_bits[OF assms(1)] plen_le_width[of p]
    by (simp add: pbits_def min_def)
  have "len \<le> 128 \<and> fam = (\<not> is_ipv4 (addr p)) \<and> take len (word_bits key) = pbits p"
  proof (cases p rule: network.cases)
    case (1 b l)
    define nb where "nb = network_v4 b l"
    have nb: "length nb = 4" using network_wf[OF assms(1)] 1 by (simp add: nb_def)
    have e: "key = push_bit 96 (ucast (from_be_bytes nb :: u32))" "len = plen p" "\<not> fam"
      using assms(2) by (simp_all add: encode_prefix_def 1 nb_def plen_def unat_min_u8)
    have "take 32 (word_bits key) = word_bits (from_be_bytes nb :: u32)"
      by (rule nth_equalityI) (auto simp: e(1) bit_simps)
    also have "\<dots> = ip_bits (network p)"
      using nb by (simp add: word_bits_from_be_bytes ip_bits_def 1 nb_def)
    finally have "take (plen p) (take 32 (word_bits key)) = take (plen p) (ip_bits (network p))" by simp
    moreover have "plen p \<le> 32" using plen_le_width[of p] 1 by simp
    ultimately have "take (plen p) (word_bits key) = take (plen p) (ip_bits (network p))"
      by (simp add: min_def)
    then show ?thesis
      using e bits 1 by (simp add: plen_def)
  next
    case (2 b l)
    define nb where "nb = network_v6 b l"
    have nb: "length nb = 16" using network_wf[OF assms(1)] 2 by (simp add: nb_def)
    have e: "key = from_be_bytes nb" "len = plen p" "fam"
      using assms(2) by (simp_all add: encode_prefix_def 2 nb_def plen_def unat_min_u8)
    have "word_bits key = ip_bits (network p)"
      using nb by (simp add: e(1) word_bits_from_be_bytes ip_bits_def 2 nb_def)
    then show ?thesis
      using e bits 2 by (simp add: plen_def)
  qed
  then show "len \<le> 128" "fam = (\<not> is_ipv4 (addr p))" "take len (word_bits key) = pbits p" by simp_all
qed

definition keyed :: "bool \<Rightarrow> nat \<Rightarrow> prefix list \<Rightarrow> (bool list \<times> nat) set" where
  "keyed b idx ps = {(pbits p, k) | k p. (k, p) \<in> set (enumerate idx ps) \<and> is_ipv4 (addr p) = b}"

lemma keyed_Cons:
  "keyed b idx (p # ps) =
     (if is_ipv4 (addr p) = b then insert (pbits p, idx) (keyed b (Suc idx) ps) else keyed b (Suc idx) ps)"
  by (auto simp: keyed_def)

lemma build_loop_rep:
  assumes "trie_rep T t4 t6" "length (nodes T) + 2 * length ps \<le> 2 ^ 32" "idx + length ps \<le> 2 ^ 32"
    and "\<forall>p \<in> set ps. ip_wf (addr p)"
  shows "\<exists>T' t4' t6'. trie_build_loop idx ps T = Some T' \<and> trie_rep T' t4' t6' \<and>
    content t4' = content t4 \<union> keyed True idx ps \<and> content t6' = content t6 \<union> keyed False idx ps"
  using assms
proof (induction ps arbitrary: idx T t4 t6)
  case Nil
  then show ?case by (auto simp: keyed_def)
next
  case (Cons p ps)
  obtain key len fam where enc: "encode_prefix p = (key, len, fam)" by (cases "encode_prefix p")
  have wf: "ip_wf (addr p)" using Cons.prems(4) by simp
  note eb = encode_prefix_bits[OF wf enc]
  have room: "length (nodes T) + 2 \<le> 2 ^ 32" using Cons.prems(2) by simp
  from trie_rep_insert[OF Cons.prems(1) room eb(1), of key fam idx, unfolded eb(3)] obtain T1 where
    T1: "trie_insert key len fam idx T = Some T1" "length (nodes T1) \<le> length (nodes T) + 2"
      "trie_rep T1 (if fam then t4 else tins (length (nodes T)) (pbits p) idx t4)
        (if fam then tins (length (nodes T)) (pbits p) idx t6 else t6)" by blast
  have idx: "idx32 idx = idx" using Cons.prems(3) by (simp add: idx32_def)
  have "length (nodes T1) + 2 * length ps \<le> 2 ^ 32" "Suc idx + length ps \<le> 2 ^ 32" "\<forall>p \<in> set ps. ip_wf (addr p)"
    using Cons.prems(2-4) T1(2) by simp_all
  from Cons.IH[OF T1(3) this] obtain T' t4' t6' where IH: "trie_build_loop (Suc idx) ps T1 = Some T'"
    "trie_rep T' t4' t6'"
    "content t4' = content (if fam then t4 else tins (length (nodes T)) (pbits p) idx t4) \<union> keyed True (Suc idx) ps"
    "content t6' = content (if fam then tins (length (nodes T)) (pbits p) idx t6 else t6) \<union> keyed False (Suc idx) ps"
    by blast
  have "trie_build_loop idx (p # ps) T = Some T'" using T1(1) IH(1) by (simp add: enc idx)
  moreover have "content t4' = content t4 \<union> keyed True idx (p # ps)"
    "content t6' = content t6 \<union> keyed False idx (p # ps)"
    using IH(3,4) eb(2) by (auto simp: keyed_Cons content_tins)
  ultimately show ?case using IH(2) by blast
qed

lemma cov_keyed:
  assumes "content t = keyed (is_ipv4 (addr p)) 0 ps"
  shows "cov t (pbits p) = {k. k < length ps \<and> covers (ps ! k) p}"
  unfolding cov_def assms keyed_def covers_def by (auto simp: in_set_enumerate_eq)

lemma walk_covering_build:
  assumes "2 * length ps \<le> 2 ^ 32" "\<forall>p \<in> set ps. ip_wf (addr p)" "ip_wf (addr p)"
  shows "\<exists>T. trie_build ps = Some T \<and>
    walk_covering T p f = Some (walk_result f False {k. k < length ps \<and> covers (ps ! k) p})"
proof -
  have "trie_rep trie_new RLeaf RLeaf" by (simp add: trie_rep_def trie_new_def)
  moreover have "length (nodes trie_new) + 2 * length ps \<le> 2 ^ 32" "0 + length ps \<le> 2 ^ 32"
    using assms(1) by (simp_all add: trie_new_def)
  ultimately obtain T t4 t6 where T: "trie_build ps = Some T" "trie_rep T t4 t6"
    "content t4 = keyed True 0 ps" "content t6 = keyed False 0 ps"
    using build_loop_rep[of trie_new RLeaf RLeaf ps 0] assms(2) by (auto simp: trie_build_def)
  obtain key len fam where enc: "encode_prefix p = (key, len, fam)" by (cases "encode_prefix p")
  note eb = encode_prefix_bits[OF assms(3) enc]
  define t where "t = (if fam then t6 else t4)"
  have t: "rep (nodes T) t" "twf t" "get_slot fam (roots T) = rroot t"
    "cov t (pbits p) = {k. k < length ps \<and> covers (ps ! k) p}"
    using T(2-4) eb(2) cov_keyed[of t p ps] by (auto simp: trie_rep_def t_def)
  have "walk_covering T p f = Some (walk_result f False (cov t (pbits p)))"
  proof (cases t)
    case RLeaf
    then show ?thesis using t(3) by (simp add: walk_covering_def enc walk_result_def)
  next
    case (RNode l i seg es r)
    obtain ns rs where Teq: "T = \<lparr>nodes = ns, roots = rs\<rparr>" by (cases T) auto
    have "walk_loop f key len T i 0 False = Some (walk_result f False (cov t (rest_bits key len 0)))"
      using walk_loop_refines[OF t(1,2)[unfolded RNode] eb(1) le0, of f key "roots T"] by (simp add: RNode Teq)
    moreover have "rest_bits key len 0 = pbits p" using eb(3) by (simp add: rest_bits_def)
    ultimately show ?thesis using t(3) RNode by (simp add: walk_covering_def enc)
  qed
  with T(1) t(4) show ?thesis by auto
qed

lemma covers_contains:
  assumes "prefix_wf q" "prefix_wf p"
  shows "covers q p \<longleftrightarrow> contains_prefix q p"
proof -
  have wf: "ip_wf (addr q)" "ip_wf (addr p)" using assms by (simp_all add: prefix_wf_def)
  have len: "length (pbits q) = plen q" "length (pbits p) = plen p"
    using wf plen_le_width by (simp_all add: pbits_def length_ip_bits)
  have le: "prefix_len q \<le> prefix_len p \<longleftrightarrow> plen q \<le> plen p"
    using assms by (simp add: plen_wf word_le_nat_alt)
  show ?thesis
  proof (cases "plen q \<le> plen p")
    case True
    then have "take (plen q) (pbits p) = take (plen q) (ip_bits (addr p))" by (simp add: pbits_def min_def)
    then show ?thesis
      using True le len by (auto simp: covers_def contains_prefix_bits[OF wf]) (auto simp: pbits_def)
  next
    case False
    then have "length (take (plen q) (pbits p)) < plen q" using len by simp
    then have "take (plen q) (pbits p) \<noteq> pbits q" using len by fastforce
    then show ?thesis using False le len by (auto simp: covers_def contains_prefix_bits[OF wf])
  qed
qed

end
