(* ===== verification/LR_Roa.thy ===== *)
theory LR_Roa
  imports LR_RoaWalk
begin

text \<open>
  Route origin validation: the entries, the table and \<open>validate\<close> of \<open>crates/lr-bgp/src/roa.rs\<close>, and
  the two-layer store of \<open>roa_store.rs\<close>.  The table keeps its entries sorted without duplicates and
  looks routes up through the trie; the results are compared with the linear scan that RFC 6811
  describes.  A \<open>HashSet\<close> is a list without duplicates whose order is immaterial.  \<open>None\<close> is a panic
  of the trie code (or a walk that does not return).
\<close>

section \<open>Entries and tables\<close>

datatype roa_entry = RoaEntry (re_prefix: prefix) (max_length: u8) (asn: u32)

fun roa_key :: "roa_entry \<Rightarrow> prefix \<times> u8 \<times> u32" where
  "roa_key (RoaEntry p m a) = (p, m, a)"

lemma roa_key_inject: "roa_key x = roa_key y \<longleftrightarrow> x = y"
  by (cases x; cases y) auto

instantiation roa_entry :: linorder
begin

definition less_eq_roa_entry :: "roa_entry \<Rightarrow> roa_entry \<Rightarrow> bool" where
  "less_eq_roa_entry x y \<longleftrightarrow> roa_key x \<le> roa_key y"

definition less_roa_entry :: "roa_entry \<Rightarrow> roa_entry \<Rightarrow> bool" where
  "less_roa_entry x y \<longleftrightarrow> roa_key x < roa_key y"

instance
  by standard
    (auto simp: less_eq_roa_entry_def less_roa_entry_def roa_key_inject[symmetric]
      less_le_not_le intro: order_trans)

end

datatype roa_error = MaxLengthBelowPrefix u8 u8 | MaxLengthAboveFamily u8 u8

definition roa_exact :: "prefix \<Rightarrow> u32 \<Rightarrow> roa_entry" where
  "roa_exact p a = RoaEntry p (prefix_len p) a"

definition with_max_length :: "prefix \<Rightarrow> u8 \<Rightarrow> u32 \<Rightarrow> roa_error + roa_entry" where
  "with_max_length p m a =
     (let family_max = (if is_ipv4 (addr p) then 32 else 128)
      in if m < prefix_len p then Inl (MaxLengthBelowPrefix (prefix_len p) m)
         else if m > family_max then Inl (MaxLengthAboveFamily m family_max)
         else Inr (RoaEntry p m a))"

datatype roa_state = Valid | NotFound | Invalid

record roa_table =
  entries :: "roa_entry list"
  trie :: roa_trie

definition roa_new :: roa_table where
  "roa_new = \<lparr>entries = [], trie = trie_new\<rparr>"

text \<open>\<open>sort_unstable\<close> (equal entries are identical, so stability is immaterial) and \<open>dedup\<close>.\<close>

definition from_entries :: "roa_entry list \<Rightarrow> roa_table option" where
  "from_entries es =
     (let es' = remdups_adj (sort es)
      in map_option (\<lambda>t. \<lparr>entries = es', trie = t\<rparr>) (trie_build (map re_prefix es')))"

definition validate :: "roa_table \<Rightarrow> prefix \<Rightarrow> u32 option \<Rightarrow> roa_state option" where
  "validate t p origin_as =
     (case origin_as of
        None \<Rightarrow> Some NotFound
      | Some a \<Rightarrow>
          map_option
            (\<lambda>(any_covered, authorized).
               if authorized then Valid else if any_covered then Invalid else NotFound)
            (walk_covering (trie t) p
               (\<lambda>i. prefix_len p \<le> max_length (entries t ! i) \<and> asn (entries t ! i) = a)))"

section \<open>The store\<close>

record roa_store =
  static_entries :: "roa_entry list"
  rtr_entries :: "roa_entry list"
  snapshot :: roa_table

record roa_delta =
  announce :: bool
  delta_entry :: roa_entry

datatype roa_provenance = PStatic | PRtr | PBoth

definition store_new :: roa_store where
  "store_new = \<lparr>static_entries = [], rtr_entries = [], snapshot = roa_new\<rparr>"

definition rebuild :: "roa_store \<Rightarrow> roa_store option" where
  "rebuild s =
     map_option (\<lambda>t. s\<lparr>snapshot := t\<rparr>) (from_entries (static_entries s @ rtr_entries s))"

definition replace_static :: "roa_entry list \<Rightarrow> roa_store \<Rightarrow> roa_store option" where
  "replace_static es s = rebuild (s\<lparr>static_entries := remdups es\<rparr>)"

definition from_table :: "roa_table \<Rightarrow> roa_store option" where
  "from_table t = replace_static (entries t) store_new"

definition add_static :: "roa_entry \<Rightarrow> roa_store \<Rightarrow> (roa_store \<times> bool) option" where
  "add_static e s =
     (if e \<notin> set (static_entries s)
      then map_option (\<lambda>s'. (s', True)) (rebuild (s\<lparr>static_entries := e # static_entries s\<rparr>))
      else Some (s, False))"

definition remove_static :: "roa_entry \<Rightarrow> roa_store \<Rightarrow> (roa_store \<times> bool) option" where
  "remove_static e s =
     (if e \<in> set (static_entries s)
      then map_option (\<lambda>s'. (s', True)) (rebuild (s\<lparr>static_entries := removeAll e (static_entries s)\<rparr>))
      else Some (s, False))"

definition apply_delta :: "roa_delta \<Rightarrow> roa_entry list \<Rightarrow> roa_entry list" where
  "apply_delta d rtr =
     (if announce d then List.insert (delta_entry d) rtr else removeAll (delta_entry d) rtr)"

definition apply_rtr_deltas :: "roa_delta list \<Rightarrow> roa_store \<Rightarrow> roa_store option" where
  "apply_rtr_deltas ds s =
     (if ds = [] then Some s
      else rebuild (s\<lparr>rtr_entries := fold apply_delta ds (rtr_entries s)\<rparr>))"

definition clear_rtr :: "roa_store \<Rightarrow> roa_store option" where
  "clear_rtr s = (if rtr_entries s = [] then Some s else rebuild (s\<lparr>rtr_entries := []\<rparr>))"

definition provenance_of_checked :: "roa_store \<Rightarrow> roa_entry \<Rightarrow> roa_provenance option" where
  "provenance_of_checked s e =
     (case (e \<in> set (static_entries s), e \<in> set (rtr_entries s)) of
        (True, True) \<Rightarrow> Some PBoth
      | (True, False) \<Rightarrow> Some PStatic
      | (False, True) \<Rightarrow> Some PRtr
      | (False, False) \<Rightarrow> None)"

definition provenance_of :: "roa_store \<Rightarrow> roa_entry \<Rightarrow> roa_provenance" where
  "provenance_of s e = (case provenance_of_checked s e of None \<Rightarrow> PStatic | Some p \<Rightarrow> p)"

datatype store_op =
  ReplaceStatic "roa_entry list" | AddStatic roa_entry | RemoveStatic roa_entry
| ApplyRtr "roa_delta list" | ClearRtr

fun store_step :: "store_op \<Rightarrow> roa_store \<Rightarrow> roa_store option" where
  "store_step (ReplaceStatic es) s = replace_static es s"
| "store_step (AddStatic e) s = map_option fst (add_static e s)"
| "store_step (RemoveStatic e) s = map_option fst (remove_static e s)"
| "store_step (ApplyRtr ds) s = apply_rtr_deltas ds s"
| "store_step ClearRtr s = clear_rtr s"

fun store_run :: "store_op list \<Rightarrow> roa_store \<Rightarrow> roa_store option" where
  "store_run [] s = Some s"
| "store_run (a # as) s = Option.bind (store_step a s) (store_run as)"

section \<open>RFC 6811 by linear scan\<close>

definition rfc6811 :: "roa_entry set \<Rightarrow> prefix \<Rightarrow> u32 \<Rightarrow> roa_state" where
  "rfc6811 E p a =
     (if \<exists>e \<in> E. contains_prefix (re_prefix e) p \<and> prefix_len p \<le> max_length e \<and> asn e = a then Valid
      else if \<exists>e \<in> E. contains_prefix (re_prefix e) p then Invalid else NotFound)"

text \<open>The two layers as sets, and what each operation does to them.\<close>

fun layer_step :: "store_op \<Rightarrow> roa_entry set \<times> roa_entry set \<Rightarrow> roa_entry set \<times> roa_entry set" where
  "layer_step (ReplaceStatic es) (S, R) = (set es, R)"
| "layer_step (AddStatic e) (S, R) = (insert e S, R)"
| "layer_step (RemoveStatic e) (S, R) = (S - {e}, R)"
| "layer_step (ApplyRtr ds) (S, R) =
     (S, fold (\<lambda>d R. if announce d then insert (delta_entry d) R else R - {delta_entry d}) ds R)"
| "layer_step ClearRtr (S, R) = (S, {})"

definition entries_ok :: "roa_entry set \<Rightarrow> bool" where
  "entries_ok E \<longleftrightarrow> 2 * card E \<le> 2 ^ 32 \<and> (\<forall>e \<in> E. prefix_wf (re_prefix e))"

lemma strict_sorted_remdups_adj:
  "sorted xs \<Longrightarrow> sorted_wrt (<) (remdups_adj (xs :: 'a::linorder list))"
  by (induction xs rule: remdups_adj.induct) (auto simp: order.order_iff_strict)

lemma remdups_adj_sort: "remdups_adj (sort es) = sorted_list_of_set (set (es :: 'a::linorder list))"
  using strict_sorted_remdups_adj[of "sort es"]
  by (intro sorted_distinct_set_unique) (simp_all add: strict_sorted_iff)

lemma from_entries_validate:
  assumes "entries_ok (set es)" "prefix_wf p"
  shows "\<exists>t. from_entries es = Some t \<and> entries t = sorted_list_of_set (set es) \<and>
    validate t p (Some a) = Some (rfc6811 (set es) p a)"
proof -
  define xs where "xs = sorted_list_of_set (set es)"
  have xs: "set xs = set es" "length xs = card (set es)" by (simp_all add: xs_def)
  have wf: "\<forall>q \<in> set (map re_prefix xs). ip_wf (addr q)" "ip_wf (addr p)"
    using assms xs by (auto simp: entries_ok_def prefix_wf_def)
  define f where "f = (\<lambda>i. prefix_len p \<le> max_length (xs ! i) \<and> asn (xs ! i) = a)"
  have "2 * length (map re_prefix xs) \<le> 2 ^ 32" using assms(1) xs by (simp add: entries_ok_def)
  from walk_covering_build[OF this wf, of f] obtain T where
    T: "trie_build (map re_prefix xs) = Some T"
      "walk_covering T p f = Some (walk_result f False
        {k. k < length (map re_prefix xs) \<and> covers (map re_prefix xs ! k) p})" by blast
  have cov: "covers (re_prefix e) p = contains_prefix (re_prefix e) p" if "e \<in> set es" for e
    using assms that by (simp add: entries_ok_def covers_contains)
  define C where "C = {k. k < length (map re_prefix xs) \<and> covers (map re_prefix xs ! k) p}"
  have C: "(\<exists>k \<in> C. Q (xs ! k)) \<longleftrightarrow> (\<exists>e \<in> set es. contains_prefix (re_prefix e) p \<and> Q e)" for Q
  proof -
    have "(\<exists>k \<in> C. Q (xs ! k)) \<longleftrightarrow> (\<exists>e \<in> set xs. covers (re_prefix e) p \<and> Q e)"
      by (auto simp: C_def set_conv_nth)
    also have "\<dots> \<longleftrightarrow> (\<exists>e \<in> set es. contains_prefix (re_prefix e) p \<and> Q e)"
      unfolding xs(1) using cov by blast
    finally show ?thesis .
  qed
  have valid: "(\<exists>k \<in> C. f k) \<longleftrightarrow> (\<exists>e \<in> set es. contains_prefix (re_prefix e) p \<and>
      prefix_len p \<le> max_length e \<and> asn e = a)"
    unfolding f_def by (rule C)
  have any: "C \<noteq> {} \<longleftrightarrow> (\<exists>e \<in> set es. contains_prefix (re_prefix e) p)"
    using C[of "\<lambda>_. True"] by blast
  define t where "t = \<lparr>entries = xs, trie = T\<rparr>"
  have "from_entries es = Some t"
    using T(1) by (simp add: from_entries_def Let_def remdups_adj_sort t_def xs_def)
  moreover have "validate t p (Some a) = Some (rfc6811 (set es) p a)"
    using T(2) unfolding C_def[symmetric] validate_def t_def rfc6811_def walk_result_def
    by (simp add: valid[symmetric] any[symmetric] f_def[symmetric])
  ultimately show ?thesis by (simp add: t_def xs_def)
qed

lemma from_entries_cong: "set es = set es' \<Longrightarrow> from_entries es = from_entries es'"
  by (simp add: from_entries_def remdups_adj_sort)

lemma from_entries_total: "entries_ok (set es) \<Longrightarrow> \<exists>t. from_entries es = Some t"
  using from_entries_validate[of es "Prefix (V4 [0, 0, 0, 0]) 0" 0] by (auto simp: prefix_wf_def)

section \<open>The store follows its layers\<close>

definition store_rep :: "roa_store \<Rightarrow> roa_entry set \<times> roa_entry set \<Rightarrow> bool" where
  "store_rep s L \<longleftrightarrow>
     set (static_entries s) = fst L \<and> set (rtr_entries s) = snd L \<and>
     from_entries (static_entries s @ rtr_entries s) = Some (snapshot s)"

fun mentioned :: "store_op \<Rightarrow> roa_entry set" where
  "mentioned (ReplaceStatic es) = set es"
| "mentioned (AddStatic e) = {e}"
| "mentioned (RemoveStatic e) = {}"
| "mentioned (ApplyRtr ds) = delta_entry ` set ds"
| "mentioned ClearRtr = {}"

lemma entries_ok_subset: "entries_ok E \<Longrightarrow> finite E \<Longrightarrow> F \<subseteq> E \<Longrightarrow> entries_ok F"
  using card_mono[of E F] by (auto simp: entries_ok_def)

lemma rebuild_rep:
  assumes "set (static_entries s) = fst L" "set (rtr_entries s) = snd L" "entries_ok (fst L \<union> snd L)"
  shows "\<exists>s'. rebuild s = Some s' \<and> store_rep s' L"
proof -
  have "entries_ok (set (static_entries s @ rtr_entries s))" using assms by simp
  from from_entries_total[OF this] show ?thesis
    using assms(1,2) by (auto simp: rebuild_def store_rep_def)
qed

lemma set_apply_deltas:
  "set (fold apply_delta ds xs) =
     fold (\<lambda>d R. if announce d then insert (delta_entry d) R else R - {delta_entry d}) ds (set xs)"
  by (induction ds arbitrary: xs) (auto simp: apply_delta_def)

lemma store_step_rep:
  assumes "store_rep s L" "entries_ok (fst (layer_step op L) \<union> snd (layer_step op L))"
  shows "\<exists>s'. store_step op s = Some s' \<and> store_rep s' (layer_step op L)"
proof -
  obtain S R where L: "L = (S, R)" by (cases L)
  have s: "set (static_entries s) = S" "set (rtr_entries s) = R"
    "from_entries (static_entries s @ rtr_entries s) = Some (snapshot s)"
    using assms(1) by (simp_all add: store_rep_def L)
  note rb = rebuild_rep[of _ "layer_step op L"]
  show ?thesis
  proof (cases op)
    case (ReplaceStatic es)
    then show ?thesis
      using assms(2) rb[of "s\<lparr>static_entries := remdups es\<rparr>"] s by (simp add: L replace_static_def)
  next
    case (AddStatic e)
    then show ?thesis
      using assms rb[of "s\<lparr>static_entries := e # static_entries s\<rparr>"] s
      by (auto simp: L add_static_def insert_absorb)
  next
    case (RemoveStatic e)
    then show ?thesis
      using assms rb[of "s\<lparr>static_entries := removeAll e (static_entries s)\<rparr>"] s
      by (auto simp: L remove_static_def)
  next
    case (ApplyRtr ds)
    then show ?thesis
      using assms rb[of "s\<lparr>rtr_entries := fold apply_delta ds (rtr_entries s)\<rparr>"] s
      by (auto simp: L apply_rtr_deltas_def set_apply_deltas)
  next
    case ClearRtr
    then show ?thesis
      using assms rb[of "s\<lparr>rtr_entries := []\<rparr>"] s by (auto simp: L clear_rtr_def)
  qed
qed

lemma fold_deltas_subset:
  "fold (\<lambda>d R. if announce d then insert (delta_entry d) R else R - {delta_entry d}) ds R
     \<subseteq> R \<union> delta_entry ` set ds"
proof (induction ds arbitrary: R)
  case (Cons d ds)
  show ?case
    using Cons[of "if announce d then insert (delta_entry d) R else R - {delta_entry d}"] by auto
qed simp

lemma layer_step_subset:
  "fst (layer_step op L) \<union> snd (layer_step op L) \<subseteq> fst L \<union> snd L \<union> mentioned op"
proof (cases L)
  case (Pair S R)
  then show ?thesis using fold_deltas_subset by (cases op) fastforce+
qed

lemma store_run_rep:
  assumes "store_rep s L" "entries_ok E" "finite E" "fst L \<union> snd L \<subseteq> E" "\<Union> (mentioned ` set ops) \<subseteq> E"
  shows "\<exists>s'. store_run ops s = Some s' \<and> store_rep s' (fold layer_step ops L) \<and>
    fst (fold layer_step ops L) \<union> snd (fold layer_step ops L) \<subseteq> E"
  using assms
proof (induction ops arbitrary: s L)
  case (Cons op ops)
  have sub: "fst (layer_step op L) \<union> snd (layer_step op L) \<subseteq> E"
    using layer_step_subset[of op L] Cons.prems(4,5) by auto
  from store_step_rep[OF Cons.prems(1) entries_ok_subset[OF Cons.prems(2,3) sub]]
  obtain s1 where s1: "store_step op s = Some s1" "store_rep s1 (layer_step op L)" by blast
  have "\<Union> (mentioned ` set ops) \<subseteq> E" using Cons.prems(5) by simp
  from Cons.IH[OF s1(2) Cons.prems(2,3) sub this] s1(1) show ?case by simp
qed simp

lemma store_new_rep: "store_rep store_new ({}, {})"
  by (simp add: store_rep_def store_new_def from_entries_def Let_def trie_build_def roa_new_def)

section \<open>Properties\<close>

text \<open>
  C2.  Validation through the path-compressed trie is validation by scanning every entry as
  RFC 6811 describes: for well-formed prefixes, and a table small enough for its \<open>u32\<close> node indices,
  \<open>from_entries\<close> builds the trie without panicking, the walk returns, and the verdict is the scan's.
\<close>

theorem roa_validate_rfc6811:
  assumes "entries_ok (set es)" "prefix_wf p"
  shows "\<exists>t. from_entries es = Some t \<and> validate t p (Some a) = Some (rfc6811 (set es) p a)"
  using from_entries_validate[OF assms] by blast

definition sample_roas :: "roa_entry list" where
  "sample_roas = [RoaEntry (Prefix (V4 [10, 0, 0, 0]) 8) 16 65001, RoaEntry (Prefix (V4 [10, 1, 0, 0]) 16) 24 65002]"

lemma sample_roas_ok: "entries_ok (set sample_roas)"
  by (simp add: entries_ok_def sample_roas_def prefix_wf_def card_insert_if)

theorem roa_validate_rfc6811_witness:
  "\<exists>t. from_entries sample_roas = Some t \<and>
     validate t (Prefix (V4 [10, 1, 2, 0]) 24) (Some 65002) =
       Some (rfc6811 (set sample_roas) (Prefix (V4 [10, 1, 2, 0]) 24) 65002)"
  by (rule roa_validate_rfc6811[OF sample_roas_ok]) (simp add: prefix_wf_def)

text \<open>
  A route that some entry covers, but whose length exceeds the authorised maximum of every
  covering entry, is \<open>Invalid\<close> and not \<open>NotFound\<close>.
\<close>

theorem roa_too_long_invalid:
  assumes "entries_ok (set es)" "prefix_wf p" "e \<in> set es" "contains_prefix (re_prefix e) p"
    and "\<And>d. d \<in> set es \<Longrightarrow> contains_prefix (re_prefix d) p \<Longrightarrow> max_length d < prefix_len p"
  shows "\<exists>t. from_entries es = Some t \<and> validate t p (Some a) = Some Invalid"
proof -
  have "rfc6811 (set es) p a = Invalid"
    using assms(3-5) by (force simp: rfc6811_def not_le[symmetric])
  then show ?thesis using from_entries_validate[OF assms(1,2), of a] by auto
qed

theorem roa_too_long_invalid_witness:
  "\<exists>t. from_entries [RoaEntry (Prefix (V4 [10, 0, 0, 0]) 8) 8 65001] = Some t \<and>
     validate t (Prefix (V4 [10, 1, 0, 0]) 16) (Some 65001) = Some Invalid"
proof -
  have "contains_prefix (Prefix (V4 [10, 0, 0, 0]) 8) (Prefix (V4 [10, 1, 0, 0]) 16)" by code_simp
  then show ?thesis
    by (intro roa_too_long_invalid[where e = "RoaEntry (Prefix (V4 [10, 0, 0, 0]) 8) 8 65001"])
      (simp_all add: entries_ok_def prefix_wf_def)
qed

text \<open>
  C26.  After any sequence of store operations the two layers are what the operations say as set
  updates, no operation panics, and every reader of the snapshot validates against the union of
  the two layers.
\<close>

theorem roa_store_follows_layers:
  assumes "entries_ok (\<Union> (mentioned ` set ops))"
  shows "\<exists>s. store_run ops store_new = Some s \<and>
    (set (static_entries s), set (rtr_entries s)) = fold layer_step ops ({}, {}) \<and>
    (\<forall>p a. prefix_wf p \<longrightarrow> validate (snapshot s) p (Some a) =
       Some (rfc6811 (set (static_entries s) \<union> set (rtr_entries s)) p a))"
proof -
  have fin: "finite (\<Union> (mentioned ` set ops))"
  proof (rule finite_UN_I)
    show "finite (mentioned op)" for op by (cases op) auto
  qed simp
  from store_run_rep[OF store_new_rep assms fin, of ops] obtain s where
    s: "store_run ops store_new = Some s" "store_rep s (fold layer_step ops ({}, {}))"
      "fst (fold layer_step ops ({}, {})) \<union> snd (fold layer_step ops ({}, {})) \<subseteq> \<Union> (mentioned ` set ops)"
    by auto
  define es where "es = static_entries s @ rtr_entries s"
  have es: "set es = set (static_entries s) \<union> set (rtr_entries s)" "from_entries es = Some (snapshot s)"
    using s(2) by (simp_all add: es_def store_rep_def)
  have "set es \<subseteq> \<Union> (mentioned ` set ops)" using s(2,3) by (simp add: es(1) store_rep_def)
  then have "entries_ok (set es)" by (rule entries_ok_subset[OF assms fin])
  from from_entries_validate[OF this] show ?thesis
    using s(1,2) es by (intro exI[of _ s]) (auto simp: store_rep_def prod_eq_iff)
qed

theorem roa_store_follows_layers_witness:
  "\<exists>s. store_run [ReplaceStatic sample_roas, ClearRtr] store_new = Some s \<and>
     set (static_entries s) = set sample_roas"
proof -
  have "entries_ok (\<Union> (mentioned ` set [ReplaceStatic sample_roas, ClearRtr]))"
    using sample_roas_ok by simp
  from roa_store_follows_layers[OF this] show ?thesis by auto
qed

text \<open>
  \<open>with_max_length\<close> accepts exactly the lengths between the prefix length and the family
  width, and reports which bound was violated otherwise.
\<close>

theorem with_max_length_bounds:
  "case with_max_length p m a of
     Inr e \<Rightarrow> e = RoaEntry p m a \<and> prefix_len p \<le> m \<and> unat m \<le> ip_width (addr p)
   | Inl (MaxLengthBelowPrefix l m') \<Rightarrow> l = prefix_len p \<and> m' = m \<and> m < prefix_len p
   | Inl (MaxLengthAboveFamily m' w) \<Rightarrow> m' = m \<and> unat w = ip_width (addr p) \<and> w < m"
  by (cases "addr p") (auto simp: with_max_length_def Let_def not_less word_le_nat_alt)

end
