(* ===== verification/LR_Codec.thy ===== *)
theory LR_Codec
  imports LR_Prelude
begin

text \<open>
  Fixed-width records on the wire.  \<open>chunks\<close> is the standard library's \<open>as_chunks::<N>().0\<close>, the full
  \<open>N\<close>-byte chunks of a slice.  The locale \<open>record_codec\<close> is the contract of an encoder and decoder of
  one record; the list codecs of communities, cluster lists and label stacks rest on it.
\<close>

function chunks :: "nat \<Rightarrow> 'a list \<Rightarrow> 'a list list" where
  "chunks n b = (if n = 0 \<or> length b < n then [] else take n b # chunks n (drop n b))"
  by pat_completeness auto
termination by (relation "measure (\<lambda>(n, b). length b)") auto

declare chunks.simps [simp del]

lemma chunks_short [simp]: "length b < n \<Longrightarrow> chunks n b = []"
  by (simp add: chunks.simps)

lemma chunks_append [simp]: "0 < n \<Longrightarrow> length c = n \<Longrightarrow> chunks n (c @ b) = c # chunks n b"
  by (subst chunks.simps) simp

lemma chunks_width: "c \<in> set (chunks n b) \<Longrightarrow> length c = n"
  by (induction n b rule: chunks.induct) (subst (asm) (2) chunks.simps, auto split: if_splits)

lemma length_chunks: "0 < n \<Longrightarrow> length (chunks n b) = length b div n"
proof (induction n b rule: chunks.induct)
  case (1 n b)
  show ?case
  proof (cases "length b < n")
    case False
    with 1 show ?thesis by (subst chunks.simps) (simp add: le_div_geq)
  qed simp
qed

lemma concat_chunks: "0 < n \<Longrightarrow> n dvd length b \<Longrightarrow> concat (chunks n b) = b"
proof (induction n b rule: chunks.induct)
  case (1 n b)
  show ?case
  proof (cases "length b < n")
    case True
    with 1(3) have "b = []" using 1(2) by (auto dest: dvd_imp_le)
    with 1(2) show ?thesis by simp
  next
    case False
    then have "n dvd length (drop n b)" using 1(3) by (simp add: dvd_diff_nat)
    with False 1 show ?thesis by (subst chunks.simps) simp
  qed
qed

text \<open>\<open>Result::map\<close> on a successful and on a failed result.\<close>

lemma map_sum_Inr_iff: "map_sum id f x = Inr y \<longleftrightarrow> (\<exists>z. x = Inr z \<and> y = f z)"
  by (cases x) auto

locale record_codec =
  fixes width :: nat and enc :: "'a \<Rightarrow> bytes" and dec :: "bytes \<Rightarrow> 'a"
  assumes width_pos: "0 < width"
    and width_enc: "length (enc x) = width"
    and dec_enc: "dec (enc x) = x"
begin

lemma chunks_enc: "chunks width (concat (map enc xs)) = map enc xs"
  by (induction xs) (simp_all add: width_pos width_enc)

lemma decode_encode_set: "map dec (chunks width (concat (map enc xs))) = xs"
  by (simp add: chunks_enc dec_enc comp_def)

lemma length_encode_set: "length (concat (map enc xs)) = width * length xs"
  by (induction xs) (simp_all add: width_enc)

lemma encode_inject: "concat (map enc xs) = concat (map enc ys) \<longleftrightarrow> xs = ys"
  using decode_encode_set by metis

end

text \<open>A codec whose every chunk is the encoding of what it decodes to.\<close>

locale exact_codec = record_codec +
  assumes enc_dec: "length c = width \<Longrightarrow> enc (dec c) = c"
begin

lemma encode_decode_set:
  assumes "width dvd length b"
  shows "concat (map enc (map dec (chunks width b))) = b"
proof -
  have "map (enc \<circ> dec) (chunks width b) = chunks width b"
    by (rule map_idI) (auto dest: chunks_width simp: enc_dec)
  with concat_chunks[OF width_pos assms] show ?thesis by simp
qed

end

text \<open>Big-endian words are such records.\<close>

lemma be_bytes_32 [simp]: "from_be_bytes (to_be_bytes 4 w) = (w :: u32)"
  by (rule from_to_be_bytes) simp

lemma be_bytes_16 [simp]: "from_be_bytes (to_be_bytes 2 w) = (w :: u16)"
  by (rule from_to_be_bytes) simp

lemma be_bytes_64 [simp]: "from_be_bytes (to_be_bytes 8 w) = (w :: u64)"
  by (rule from_to_be_bytes) simp

lemma to_be_bytes_Nil [simp]: "to_be_bytes n w = [] \<longleftrightarrow> n = 0"
  by (simp add: to_be_bytes_def)

lemma be_bytes_width: "length c = 4 \<Longrightarrow> to_be_bytes 4 (from_be_bytes c :: u32) = c"
  using to_from_be_bytes[of c, where ?'a = 32] by simp

interpretation be32: exact_codec 4 "to_be_bytes 4" "from_be_bytes :: bytes \<Rightarrow> u32"
  by unfold_locales (simp_all add: be_bytes_width)

end
