(* ===== verification/LR_WellKnown.thy ===== *)
theory LR_WellKnown
  imports LR_Codec LR_Addr
begin

text \<open>
  The typed path attributes of \<open>crates/lr-bgp/src/path/well_known.rs\<close>: ORIGIN, NEXT_HOP, MED,
  LOCAL_PREF, AGGREGATOR, ORIGINATOR_ID, CLUSTER_LIST, AIGP and PMSI tunnel, each with its decoder from
  the attribute value and its encoder.  A \<open>RouterId\<close> (\<open>crates/lr-core/src/addr.rs\<close>) is a 32-bit word.
\<close>

section \<open>Fixed-width attributes\<close>

datatype origin_kind = Igp | Egp | Incomplete

fun origin_kind_u8 :: "origin_kind \<Rightarrow> u8" where
  "origin_kind_u8 Igp = 0"
| "origin_kind_u8 Egp = 1"
| "origin_kind_u8 Incomplete = 2"

definition origin_kind_from_u8 :: "u8 \<Rightarrow> origin_kind option" where
  "origin_kind_from_u8 v =
     (if v = 0 then Some Igp else if v = 1 then Some Egp else if v = 2 then Some Incomplete else None)"

definition origin_decode :: "bytes \<Rightarrow> origin_kind option" where
  "origin_decode b = (if length b \<noteq> 1 then None else origin_kind_from_u8 (b ! 0))"

definition origin_encode :: "origin_kind \<Rightarrow> bytes" where
  "origin_encode k = [origin_kind_u8 k]"

datatype next_hop_kind = NhV4 bytes | NhV6 bytes | NhV4OverV6 bytes

fun next_hop_to_ip :: "next_hop_kind \<Rightarrow> ip_addr" where
  "next_hop_to_ip (NhV4 b) = V4 b"
| "next_hop_to_ip (NhV6 b) = V6 b"
| "next_hop_to_ip (NhV4OverV6 b) = V6 b"

definition next_hop_decode :: "bytes \<Rightarrow> next_hop_kind option" where
  "next_hop_decode b =
     (if length b = 4 then Some (NhV4 b) else if length b = 16 then Some (NhV4OverV6 b) else None)"

fun next_hop_encode :: "next_hop_kind \<Rightarrow> bytes" where
  "next_hop_encode (NhV4 b) = b"
| "next_hop_encode (NhV6 b) = b"
| "next_hop_encode (NhV4OverV6 b) = b"

definition med_decode :: "bytes \<Rightarrow> u32 option" where
  "med_decode b = (if length b \<noteq> 4 then None else Some (from_be_bytes b))"

definition med_encode :: "u32 \<Rightarrow> bytes" where
  "med_encode v = to_be_bytes 4 v"

definition local_pref_decode :: "bytes \<Rightarrow> u32 option" where
  "local_pref_decode b = (if length b \<noteq> 4 then None else Some (from_be_bytes b))"

definition local_pref_encode :: "u32 \<Rightarrow> bytes" where
  "local_pref_encode v = to_be_bytes 4 v"

record aggregator =
  agg_asn :: u32
  agg_speaker :: bytes

definition aggregator_decode :: "bytes \<Rightarrow> aggregator option" where
  "aggregator_decode b =
     (if length b = 6 then
        Some \<lparr>agg_asn = ucast (from_be_bytes (take 2 b) :: u16), agg_speaker = drop 2 b\<rparr>
      else if length b = 8 then
        Some \<lparr>agg_asn = from_be_bytes (take 4 b), agg_speaker = drop 4 b\<rparr>
      else None)"

definition aggregator_encode_4 :: "aggregator \<Rightarrow> bytes" where
  "aggregator_encode_4 a = to_be_bytes 4 (agg_asn a) @ agg_speaker a"

section \<open>Route reflection\<close>

definition router_id_from_v4 :: "bytes \<Rightarrow> u32" where
  "router_id_from_v4 b = from_be_bytes b"

definition router_id_to_v4_bytes :: "u32 \<Rightarrow> bytes" where
  "router_id_to_v4_bytes r = to_be_bytes 4 r"

definition originator_id_decode :: "bytes \<Rightarrow> u32 option" where
  "originator_id_decode b = (if length b \<noteq> 4 then None else Some (router_id_from_v4 b))"

definition originator_id_encode :: "u32 \<Rightarrow> bytes" where
  "originator_id_encode r = router_id_to_v4_bytes r"

definition originator_id_to_ip :: "u32 \<Rightarrow> ip_addr" where
  "originator_id_to_ip r = V4 (router_id_to_v4_bytes r)"

type_synonym cluster_list = "u32 list"

definition cluster_list_prepend :: "u32 \<Rightarrow> cluster_list \<Rightarrow> cluster_list" where
  "cluster_list_prepend r cl = r # cl"

definition cluster_list_contains :: "cluster_list \<Rightarrow> u32 \<Rightarrow> bool" where
  "cluster_list_contains cl r \<longleftrightarrow> r \<in> set cl"

definition cluster_list_decode :: "bytes \<Rightarrow> cluster_list option" where
  "cluster_list_decode b =
     (if length b mod 4 \<noteq> 0 then None else Some (map router_id_from_v4 (chunks 4 b)))"

definition cluster_list_encode :: "cluster_list \<Rightarrow> bytes" where
  "cluster_list_encode cl = concat (map router_id_to_v4_bytes cl)"

definition cluster_list_iter_ips :: "cluster_list \<Rightarrow> ip_addr list" where
  "cluster_list_iter_ips cl = map (\<lambda>r. V4 (router_id_to_v4_bytes r)) cl"

section \<open>AIGP\<close>

definition AIGP_TLV_AIGP :: u16 where
  "AIGP_TLV_AIGP = 1"

text \<open>One turn of the decoder's loop consumes a whole TLV; the index is the number of bytes dropped.\<close>

function aigp_loop :: "u64 \<Rightarrow> bytes \<Rightarrow> u64 option" where
  "aigp_loop acc b =
     (if b = [] then Some acc
      else if length b < 4 then None
      else
        let tlv_type = from_be_bytes (take 2 b) :: u16;
            tlv_len = unat (from_be_bytes (take 2 (drop 2 b)) :: u16)
        in if tlv_len < 4 then None
           else
             let value_len = tlv_len - 4; value_end = 4 + value_len
             in if value_end > length b then None
                else if tlv_type = AIGP_TLV_AIGP then
                  if value_len \<noteq> 8 then None
                  else aigp_loop (acc + from_be_bytes (take value_len (drop 4 b))) (drop value_end b)
                else aigp_loop acc (drop value_end b))"
  by pat_completeness auto
termination by (relation "measure (\<lambda>(acc, b). length b)") auto

declare aigp_loop.simps [simp del]

definition aigp_decode :: "bytes \<Rightarrow> u64 option" where
  "aigp_decode b = aigp_loop 0 b"

definition aigp_encode :: "u64 \<Rightarrow> bytes" where
  "aigp_encode m = to_be_bytes 2 AIGP_TLV_AIGP @ to_be_bytes 2 (12 :: u16) @ to_be_bytes 8 m"

section \<open>PMSI tunnel\<close>

record pmsi_tunnel =
  pmsi_flags :: u8
  tunnel_type :: u8
  mpls_label :: u32
  tunnel_id :: bytes

definition PMSI_FLAG_LEAF_INFO_REQUIRED :: u8 where
  "PMSI_FLAG_LEAF_INFO_REQUIRED = 1"

definition TUNNEL_TYPE_NO_INFO :: u8 where
  "TUNNEL_TYPE_NO_INFO = 0"

definition TUNNEL_TYPE_INGRESS_REPLICATION :: u8 where
  "TUNNEL_TYPE_INGRESS_REPLICATION = 6"

definition leaf_info_required :: "pmsi_tunnel \<Rightarrow> bool" where
  "leaf_info_required t \<longleftrightarrow> pmsi_flags t AND PMSI_FLAG_LEAF_INFO_REQUIRED \<noteq> 0"

definition pmsi_decode :: "bytes \<Rightarrow> pmsi_tunnel option" where
  "pmsi_decode b =
     (if length b < 5 then None
      else
        let ty = b ! 1; tid = drop 5 b
        in if ty = TUNNEL_TYPE_NO_INFO \<and> tid \<noteq> [] then None
           else if ty = TUNNEL_TYPE_INGRESS_REPLICATION \<and> length tid \<noteq> 4 \<and> length tid \<noteq> 16 then None
           else Some \<lparr>pmsi_flags = b ! 0, tunnel_type = ty,
                      mpls_label = drop_bit 4 (from_be_bytes [0, b ! 2, b ! 3, b ! 4]),
                      tunnel_id = tid\<rparr>)"

definition pmsi_encode :: "pmsi_tunnel \<Rightarrow> bytes" where
  "pmsi_encode t =
     [pmsi_flags t, tunnel_type t] @
     drop 1 (to_be_bytes 4 (push_bit 4 (mpls_label t AND 0x000fffff))) @ tunnel_id t"

section \<open>Round trips\<close>

lemma origin_round [simp]: "origin_decode (origin_encode k) = Some k"
  by (cases k) (simp_all add: origin_decode_def origin_encode_def origin_kind_from_u8_def)

lemma med_round [simp]: "med_decode (med_encode v) = Some v"
  by (simp add: med_decode_def med_encode_def)

lemma local_pref_round [simp]: "local_pref_decode (local_pref_encode v) = Some v"
  by (simp add: local_pref_decode_def local_pref_encode_def)

lemma aggregator_round [simp]:
  "length (agg_speaker a) = 4 \<Longrightarrow> aggregator_decode (aggregator_encode_4 a) = Some a"
  by (simp add: aggregator_decode_def aggregator_encode_4_def)

lemma originator_round [simp]: "originator_id_decode (originator_id_encode r) = Some r"
  by (simp add: originator_id_decode_def originator_id_encode_def router_id_from_v4_def
      router_id_to_v4_bytes_def)

lemma cluster_list_round [simp]: "cluster_list_decode (cluster_list_encode cl) = Some cl"
  using be32.decode_encode_set[of cl] be32.length_encode_set[of cl]
  by (simp add: cluster_list_decode_def cluster_list_encode_def router_id_from_v4_def[abs_def]
      router_id_to_v4_bytes_def[abs_def])

lemma aigp_loop_encode: "aigp_loop acc (aigp_encode m @ b) = aigp_loop (acc + m) b"
proof -
  have "length (aigp_encode m) = 12" by (simp add: aigp_encode_def)
  then have "aigp_encode m \<noteq> []" by auto
  then show ?thesis
    by (subst aigp_loop.simps) (simp add: aigp_encode_def Let_def)
qed

lemma from_be_bytes_24:
  "from_be_bytes (0 # drop 1 (to_be_bytes 4 (push_bit 4 (v AND 0x000fffff) :: u32))) =
     push_bit 4 (v AND 0x000fffff :: u32)"
proof -
  let ?w = "push_bit 4 (v AND 0x000fffff) :: u32"
  have "to_be_bytes 4 ?w ! 0 = 0"
    by (rule bit_word_eqI) (auto simp: to_be_bytes_def bit_simps)
  then have "0 # drop 1 (to_be_bytes 4 ?w) = to_be_bytes 4 ?w"
    by (simp add: to_be_bytes_def upt_rec)
  then show ?thesis by simp
qed

lemma aigp_loop_encodes: "aigp_loop acc (concat (map aigp_encode ms)) = Some (acc + sum_list ms)"
proof (induction ms arbitrary: acc)
  case Nil
  then show ?case by (simp add: aigp_loop.simps)
next
  case (Cons m ms)
  then show ?case by (simp add: aigp_loop_encode add.assoc)
qed

definition pmsi_wf :: "pmsi_tunnel \<Rightarrow> bool" where
  "pmsi_wf t \<longleftrightarrow>
     mpls_label t \<le> 0x000fffff \<and>
     (tunnel_type t = TUNNEL_TYPE_NO_INFO \<longrightarrow> tunnel_id t = []) \<and>
     (tunnel_type t = TUNNEL_TYPE_INGRESS_REPLICATION \<longrightarrow>
        length (tunnel_id t) = 4 \<or> length (tunnel_id t) = 16)"

lemma label20_bit:
  assumes "v \<le> (0x000fffff :: u32)" and "bit v i"
  shows "i < 20"
proof (rule ccontr)
  assume "\<not> i < 20"
  then have "(2 :: nat) ^ 20 \<le> 2 ^ i" by (intro power_increasing) auto
  moreover have "unat v < 2 ^ 20" using assms(1) by (simp add: word_le_nat_alt)
  ultimately have "unat v div 2 ^ i = 0" by (simp add: less_le_trans)
  then have "\<not> bit (unat v) i" by (simp add: bit_iff_odd)
  with assms(2) show False by (simp add: bit_unsigned_iff)
qed

lemma label20_shift:
  assumes "v \<le> (0x000fffff :: u32)"
  shows "drop_bit 4 (push_bit 4 (v AND 0x000fffff)) = v"
proof -
  have "v AND 0x000fffff = take_bit 20 v" by (simp add: take_bit_eq_mask mask_eq_exp_minus_1)
  moreover have "bit v n \<Longrightarrow> n < 20 \<and> n < 28" for n using label20_bit[OF assms, of n] by simp
  ultimately show ?thesis by (auto intro!: bit_word_eqI simp: bit_simps)
qed

lemma pmsi_round:
  assumes "pmsi_wf t"
  shows "pmsi_decode (pmsi_encode t) = Some t"
proof -
  define L where "L = (push_bit 4 (mpls_label t AND 0x000fffff) :: u32)"
  obtain x y z where xyz: "drop 1 (to_be_bytes 4 L) = [x, y, z]"
    by (simp add: to_be_bytes_def upt_rec)
  have enc: "pmsi_encode t = [pmsi_flags t, tunnel_type t] @ [x, y, z] @ tunnel_id t"
    by (simp only: pmsi_encode_def L_def[symmetric] xyz)
  have "from_be_bytes [0, x, y, z] = L"
    using from_be_bytes_24[of "mpls_label t"] unfolding L_def[symmetric] xyz .
  moreover have "drop_bit 4 L = mpls_label t"
    unfolding L_def using assms by (intro label20_shift) (simp add: pmsi_wf_def)
  ultimately show ?thesis
    using assms by (auto simp: enc pmsi_decode_def pmsi_wf_def Let_def)
qed

section \<open>Properties\<close>

text \<open>
  The typed attributes come back from their encodings; a sequence of AIGP TLVs decodes to the
  wrapping sum of its metrics.
\<close>

theorem well_known_roundtrip:
  assumes "length (agg_speaker a) = 4" and "pmsi_wf t"
  shows "origin_decode (origin_encode k) = Some k \<and> med_decode (med_encode v) = Some v \<and>
    local_pref_decode (local_pref_encode v) = Some v \<and>
    aggregator_decode (aggregator_encode_4 a) = Some a \<and>
    originator_id_decode (originator_id_encode r) = Some r \<and>
    cluster_list_decode (cluster_list_encode cl) = Some cl \<and>
    pmsi_decode (pmsi_encode t) = Some t \<and>
    aigp_decode (concat (map aigp_encode ms)) = Some (sum_list ms)"
  using assms by (simp add: pmsi_round aigp_decode_def aigp_loop_encodes)

theorem well_known_roundtrip_witness:
  "cluster_list_decode (cluster_list_encode [1, 2]) = Some [1, 2] \<and>
   aigp_decode (concat (map aigp_encode [- 1, 3])) = Some 2"
  using well_known_roundtrip[of "\<lparr>agg_asn = 1, agg_speaker = [1, 2, 3, 4]\<rparr>"
      "\<lparr>pmsi_flags = 0, tunnel_type = 0, mpls_label = 16, tunnel_id = []\<rparr>" Igp 0 0 "[1, 2]" "[- 1, 3]"]
  by (simp add: pmsi_wf_def TUNNEL_TYPE_INGRESS_REPLICATION_def)

end
