(* ===== verification/LR_Communities.thy ===== *)
theory LR_Communities
  imports LR_Codec LR_Addr
begin

text \<open>
  BGP communities, \<open>crates/lr-bgp/src/path/communities.rs\<close>: standard, extended and large communities,
  their classification, their text form and the codecs of the attribute values that hold lists of them.
\<close>

section \<open>Standard communities\<close>

type_synonym community = u32

definition NO_EXPORT :: community where
  "NO_EXPORT = 0xffffff01"

definition NO_ADVERTISE :: community where
  "NO_ADVERTISE = 0xffffff02"

definition NO_EXPORT_SUBCONFED :: community where
  "NO_EXPORT_SUBCONFED = 0xffffff03"

definition NOPEER :: community where
  "NOPEER = 0xffffff04"

definition GRACEFUL_SHUTDOWN :: community where
  "GRACEFUL_SHUTDOWN = 0xffff0000"

definition PLANNED_SHUTDOWN :: community where
  "PLANNED_SHUTDOWN = 0xffff0000"

definition LLGR_STALE :: community where
  "LLGR_STALE = 0xffff0006"

definition NO_LLGR :: community where
  "NO_LLGR = 0xffff0007"

lemmas community_consts =
  NO_EXPORT_def NO_ADVERTISE_def NO_EXPORT_SUBCONFED_def NOPEER_def GRACEFUL_SHUTDOWN_def
  PLANNED_SHUTDOWN_def LLGR_STALE_def NO_LLGR_def

datatype community_kind =
  NoExport | NoAdvertise | NoExportSubconfed | NoPeer | GracefulShutdown | LlgrStale | NoLlgr | Custom

definition community_new :: "u16 \<Rightarrow> u16 \<Rightarrow> community" where
  "community_new asn v = push_bit 16 (ucast asn) OR ucast v"

definition community_kind :: "community \<Rightarrow> community_kind" where
  "community_kind c =
     (if c = NO_EXPORT then NoExport
      else if c = NO_ADVERTISE then NoAdvertise
      else if c = NO_EXPORT_SUBCONFED then NoExportSubconfed
      else if c = NOPEER then NoPeer
      else if c = GRACEFUL_SHUTDOWN then GracefulShutdown
      else if c = LLGR_STALE then LlgrStale
      else if c = NO_LLGR then NoLlgr
      else Custom)"

definition community_decode_set :: "bytes \<Rightarrow> community list" where
  "community_decode_set b = map from_be_bytes (chunks 4 b)"

definition community_encode_set :: "community list \<Rightarrow> bytes" where
  "community_encode_set cs = concat (map (to_be_bytes 4) cs)"

section \<open>Large communities\<close>

record large_community =
  global_admin :: u32
  local_data1 :: u32
  local_data2 :: u32

definition large_of_bytes :: "bytes \<Rightarrow> large_community" where
  "large_of_bytes c =
     \<lparr>global_admin = from_be_bytes (take 4 c), local_data1 = from_be_bytes (take 4 (drop 4 c)),
      local_data2 = from_be_bytes (take 4 (drop 8 c))\<rparr>"

definition large_bytes :: "large_community \<Rightarrow> bytes" where
  "large_bytes c =
     to_be_bytes 4 (global_admin c) @ to_be_bytes 4 (local_data1 c) @ to_be_bytes 4 (local_data2 c)"

definition large_decode_set :: "bytes \<Rightarrow> large_community list" where
  "large_decode_set b = map large_of_bytes (chunks 12 b)"

definition large_encode_set :: "large_community list \<Rightarrow> bytes" where
  "large_encode_set cs = concat (map large_bytes cs)"

section \<open>Extended communities\<close>

record extended_community =
  ext_kind :: u8
  ext_subtype :: u8
  ext_global :: u32
  ext_local :: u16

definition extended_of_bytes :: "bytes \<Rightarrow> extended_community" where
  "extended_of_bytes c =
     \<lparr>ext_kind = c ! 0, ext_subtype = c ! 1, ext_global = from_be_bytes (take 4 (drop 2 c)),
      ext_local = from_be_bytes (take 2 (drop 6 c))\<rparr>"

definition extended_bytes :: "extended_community \<Rightarrow> bytes" where
  "extended_bytes c =
     [ext_kind c, ext_subtype c] @ to_be_bytes 4 (ext_global c) @ to_be_bytes 2 (ext_local c)"

definition extended_decode_set :: "bytes \<Rightarrow> extended_community list" where
  "extended_decode_set b = map extended_of_bytes (chunks 8 b)"

definition extended_encode_set :: "extended_community list \<Rightarrow> bytes" where
  "extended_encode_set cs = concat (map extended_bytes cs)"

section \<open>The codecs are record codecs\<close>

lemma be_bytes_4 [simp]: "length c = 4 \<Longrightarrow> to_be_bytes 4 (from_be_bytes c :: u32) = c"
  by (rule be_bytes_width)

lemma be_bytes_2 [simp]: "length c = 2 \<Longrightarrow> to_be_bytes 2 (from_be_bytes c :: u16) = c"
  using to_from_be_bytes[of c, where ?'a = 16] by simp

lemma split_at: "n \<le> length c \<Longrightarrow> take n c @ drop n c = c"
  by simp

interpretation large: exact_codec 12 large_bytes large_of_bytes
proof unfold_locales
  fix c :: bytes assume "length c = 12"
  then have "take 4 (drop 8 c) = drop 8 c" by simp
  moreover have "take 4 c @ take 4 (drop 4 c) @ drop 8 c = c"
    by (simp flip: append.assoc take_add)
  ultimately show "large_bytes (large_of_bytes c) = c"
    using \<open>length c = 12\<close> by (simp add: large_bytes_def large_of_bytes_def)
qed (simp_all add: large_bytes_def large_of_bytes_def)

interpretation extended: exact_codec 8 extended_bytes extended_of_bytes
proof unfold_locales
  fix c :: bytes assume l: "length c = 8"
  then obtain a b d where c: "c = a # b # d" "length d = 6"
    by (cases c; cases "tl c") auto
  then have "take 2 (drop 4 d) = drop 4 d" by simp
  then show "extended_bytes (extended_of_bytes c) = c"
    using c by (simp add: extended_bytes_def extended_of_bytes_def)
qed (simp_all add: extended_bytes_def extended_of_bytes_def)

text \<open>
  The attribute values of all three kinds of communities decode to the list they encode, and a
  value that is a whole number of records is the encoding of what it decodes to; trailing bytes are
  dropped.
\<close>

theorem communities_roundtrip:
  "community_decode_set (community_encode_set cs) = cs \<and>
   large_decode_set (large_encode_set ls) = ls \<and>
   extended_decode_set (extended_encode_set es) = es \<and>
   (4 dvd length b \<longrightarrow> community_encode_set (community_decode_set b) = b) \<and>
   (12 dvd length b \<longrightarrow> large_encode_set (large_decode_set b) = b) \<and>
   (8 dvd length b \<longrightarrow> extended_encode_set (extended_decode_set b) = b)"
  using be32.decode_encode_set large.decode_encode_set extended.decode_encode_set
    be32.encode_decode_set large.encode_decode_set extended.encode_decode_set
  by (simp add: community_decode_set_def community_encode_set_def large_decode_set_def
      large_encode_set_def extended_decode_set_def extended_encode_set_def)

theorem communities_roundtrip_witness:
  "large_encode_set (large_decode_set (replicate 24 7)) = replicate 24 7 \<and>
   community_decode_set [0xff, 0xff, 0, 6, 9] = [LLGR_STALE]"
proof
  show "large_encode_set (large_decode_set (replicate 24 7)) = replicate 24 7"
    using communities_roundtrip[where b = "replicate 24 7"] by simp
  show "community_decode_set [0xff, 0xff, 0, 6, 9] = [LLGR_STALE]" by code_simp
qed

end
