(* ===== verification/LR_AsPath.thy ===== *)
theory LR_AsPath
  imports LR_Prelude
begin

text \<open>
  The AS_PATH attribute of \<open>crates/lr-bgp/src/path/as_path.rs\<close>: path length, loop check, prepending,
  the 2-byte and 4-byte wire forms, and the reconstruction of the 4-byte path from AS_PATH and
  AS4_PATH.
\<close>

section \<open>Segments and paths\<close>

datatype as_path_type = Set | Sequence | ConfedSequence | ConfedSet

fun as_path_type_code :: "as_path_type \<Rightarrow> u8" where
  "as_path_type_code Set = 1"
| "as_path_type_code Sequence = 2"
| "as_path_type_code ConfedSequence = 3"
| "as_path_type_code ConfedSet = 4"

definition as_path_type_from_u8 :: "u8 \<Rightarrow> as_path_type option" where
  "as_path_type_from_u8 v =
     (if v = 1 then Some Set else if v = 2 then Some Sequence
      else if v = 3 then Some ConfedSequence else if v = 4 then Some ConfedSet else None)"

record as_path_segment =
  kind :: as_path_type
  ases :: "u32 list"

type_synonym as_path = "as_path_segment list"

definition from_sequence :: "u32 list \<Rightarrow> as_path" where
  "from_sequence as = [\<lparr>kind = Sequence, ases = as\<rparr>]"

fun seg_length :: "as_path_segment \<Rightarrow> nat" where
  "seg_length s =
     (case kind s of Sequence \<Rightarrow> length (ases s) | Set \<Rightarrow> 1 | ConfedSequence \<Rightarrow> 0 | ConfedSet \<Rightarrow> 0)"

definition as_path_length :: "as_path \<Rightarrow> nat" where
  "as_path_length p = sum_list (map seg_length p)"

fun seg_length_with_confed :: "as_path_segment \<Rightarrow> nat" where
  "seg_length_with_confed s =
     (case kind s of Sequence \<Rightarrow> length (ases s) | ConfedSequence \<Rightarrow> length (ases s)
      | Set \<Rightarrow> 1 | ConfedSet \<Rightarrow> 1)"

definition length_with_confed :: "as_path \<Rightarrow> nat" where
  "length_with_confed p = sum_list (map seg_length_with_confed p)"

definition is_sequence :: "as_path_segment \<Rightarrow> bool" where
  "is_sequence s \<longleftrightarrow> kind s = Sequence \<or> kind s = ConfedSequence"

definition as_sequence :: "as_path \<Rightarrow> u32 list" where
  "as_sequence p = concat (map ases (filter is_sequence p))"

definition loop_check :: "as_path \<Rightarrow> u32 \<Rightarrow> bool" where
  "loop_check p my_as = list_ex (\<lambda>s. my_as \<in> set (ases s)) (filter is_sequence p)"

text \<open>
  \<open>prepend\<close> and \<open>prepend_confed\<close> extend the leftmost segment of their kind, and put a new segment at
  the head when there is none.
\<close>

fun prepend_in :: "as_path_type \<Rightarrow> u32 \<Rightarrow> as_path \<Rightarrow> as_path option" where
  "prepend_in k a [] = None"
| "prepend_in k a (s # p) =
     (if kind s = k then Some (s\<lparr>ases := a # ases s\<rparr> # p) else map_option ((#) s) (prepend_in k a p))"

definition prepend :: "u32 \<Rightarrow> as_path \<Rightarrow> as_path" where
  "prepend a p =
     (case prepend_in Sequence a p of Some p' \<Rightarrow> p' | None \<Rightarrow> \<lparr>kind = Sequence, ases = [a]\<rparr> # p)"

definition prepend_confed :: "u32 \<Rightarrow> as_path \<Rightarrow> as_path" where
  "prepend_confed a p =
     (case prepend_in ConfedSequence a p of
        Some p' \<Rightarrow> p' | None \<Rightarrow> \<lparr>kind = ConfedSequence, ases = [a]\<rparr> # p)"

definition is_confed :: "as_path_segment \<Rightarrow> bool" where
  "is_confed s \<longleftrightarrow> kind s = ConfedSequence \<or> kind s = ConfedSet"

definition strip_confed :: "as_path \<Rightarrow> as_path \<times> bool" where
  "strip_confed p = (let q = filter (\<lambda>s. \<not> is_confed s) p in (q, length q \<noteq> length p))"

definition has_confed :: "as_path \<Rightarrow> bool" where
  "has_confed p = list_ex is_confed p"

section \<open>Wire form\<close>

definition as_width :: "bool \<Rightarrow> nat" where
  "as_width wide = (if wide then 4 else 2)"

fun read_ases :: "bool \<Rightarrow> nat \<Rightarrow> bytes \<Rightarrow> u32 list" where
  "read_ases wide 0 b = []"
| "read_ases wide (Suc n) b =
     (let chunk = take (as_width wide) b;
          a = (if wide then from_be_bytes chunk else ucast (from_be_bytes chunk :: u16))
      in a # read_ases wide n (drop (as_width wide) b))"

fun decode_inner :: "bool \<Rightarrow> bytes \<Rightarrow> as_path option" where
  "decode_inner wide [] = Some []"
| "decode_inner wide [x] = None"
| "decode_inner wide (k # c # b) =
     (case as_path_type_from_u8 k of
        None \<Rightarrow> None
      | Some kd \<Rightarrow>
          let count = unat c; n = count * as_width wide
          in if length b < n then None
             else map_option ((#) \<lparr>kind = kd, ases = read_ases wide count b\<rparr>)
                    (decode_inner wide (drop n b)))"

definition decode_2 :: "bytes \<Rightarrow> as_path option" where
  "decode_2 b = decode_inner False b"

definition decode_4 :: "bytes \<Rightarrow> as_path option" where
  "decode_4 b = decode_inner True b"

definition as2_bytes :: "u32 \<Rightarrow> bytes" where
  "as2_bytes a = to_be_bytes 2 (ucast (min a 0xffff) :: u16)"

definition encode_seg :: "(u32 \<Rightarrow> bytes) \<Rightarrow> as_path_segment \<Rightarrow> bytes" where
  "encode_seg f s = as_path_type_code (kind s) # of_nat (length (ases s)) # concat (map f (ases s))"

definition encode_2 :: "as_path \<Rightarrow> bytes" where
  "encode_2 p = concat (map (encode_seg as2_bytes) p)"

definition encode_4 :: "as_path \<Rightarrow> bytes" where
  "encode_4 p = concat (map (encode_seg (to_be_bytes 4)) p)"

section \<open>Reconciliation with AS4_PATH\<close>

definition as_path_count :: "as_path \<Rightarrow> nat" where
  "as_path_count p = sum_list (map seg_length p)"

fun take_segments :: "nat \<Rightarrow> nat \<Rightarrow> as_path \<Rightarrow> as_path \<times> nat" where
  "take_segments need taken [] = ([], taken)"
| "take_segments need taken (s # p) =
     (if taken \<ge> need then ([], taken)
      else if taken + seg_length_with_confed s > need then ([], taken)
      else let (q, n) = take_segments need (taken + seg_length_with_confed s) p in (s # q, n))"

fun take_deficit :: "nat \<Rightarrow> as_path \<Rightarrow> as_path" where
  "take_deficit deficit [] = []"
| "take_deficit deficit (s # p) =
     (if kind s \<noteq> Sequence then take_deficit deficit p
      else let n = min (length (ases s)) deficit
           in if 0 < n then [\<lparr>kind = Sequence, ases = take n (ases s)\<rparr>] else take_deficit deficit p)"

definition reconcile_as4 :: "as_path \<Rightarrow> as_path option \<Rightarrow> as_path" where
  "reconcile_as4 wire as4 =
     (case as4 of
        None \<Rightarrow> wire
      | Some a4 \<Rightarrow>
          if a4 = [] then wire
          else
            let wire_count = as_path_count wire; as4_count = as_path_count a4
            in if wire_count < as4_count then wire
               else if wire_count = as4_count then a4
               else
                 let need = wire_count - as4_count;
                     (taken, taken_count) = take_segments need 0 wire;
                     extra = (if taken_count < need then take_deficit (need - taken_count) wire else [])
                 in taken @ extra @ a4)"

section \<open>Lemmas\<close>

lemma type_code_round [simp]: "as_path_type_from_u8 (as_path_type_code k) = Some k"
  by (cases k) (simp_all add: as_path_type_from_u8_def)

lemma type_from_u8_code: "as_path_type_from_u8 v = Some k \<Longrightarrow> as_path_type_code k = v"
  by (auto simp: as_path_type_from_u8_def split: if_splits)

definition as_bytes :: "bool \<Rightarrow> u32 \<Rightarrow> bytes" where
  "as_bytes wide = (if wide then to_be_bytes 4 else as2_bytes)"

definition asn_fits :: "bool \<Rightarrow> u32 \<Rightarrow> bool" where
  "asn_fits wide a \<longleftrightarrow> wide \<or> a \<le> 0xffff"

lemma length_as_bytes [simp]: "length (as_bytes wide a) = as_width wide"
  by (simp add: as_bytes_def as2_bytes_def as_width_def)

lemma ucast_u16_id: "a \<le> 0xffff \<Longrightarrow> ucast (ucast a :: u16) = (a :: u32)"
proof -
  assume "a \<le> 0xffff"
  then have "unat a \<le> 65535" by (simp add: word_le_nat_alt)
  then show ?thesis
    by (intro word_unat_eq_iff[THEN iffD2]) (simp add: unsigned_ucast_eq unsigned_take_bit_eq take_bit_nat_eq_self)
qed

lemma read_as_bytes:
  assumes "asn_fits wide a"
  shows "(if wide then from_be_bytes (as_bytes wide a)
      else ucast (from_be_bytes (as_bytes wide a) :: u16)) = (a :: u32)"
  using assms
  by (auto simp: as_bytes_def as2_bytes_def asn_fits_def from_to_be_bytes min_def ucast_u16_id)

lemma read_ases_encoded:
  assumes "\<forall>a \<in> set as. asn_fits wide a"
  shows "read_ases wide (length as) (concat (map (as_bytes wide) as) @ rest) = as"
  using assms
proof (induction as)
  case (Cons a as)
  then show ?case using read_as_bytes[of wide a] by (simp add: Let_def)
qed simp

definition seg_fits :: "bool \<Rightarrow> as_path_segment \<Rightarrow> bool" where
  "seg_fits wide s \<longleftrightarrow> length (ases s) \<le> 255 \<and> list_all (asn_fits wide) (ases s)"

lemma unat_of_nat_u8: "n \<le> 255 \<Longrightarrow> unat (of_nat n :: u8) = n"
  by (simp add: unat_of_nat take_bit_nat_eq_self)

lemma length_concat_as_bytes: "length (concat (map (as_bytes wide) as)) = length as * as_width wide"
  by (induction as) auto

lemma decode_encode_inner:
  assumes "list_all (seg_fits wide) p"
  shows "decode_inner wide (concat (map (encode_seg (as_bytes wide)) p)) = Some p"
  using assms
proof (induction p)
  case (Cons s p)
  then show ?case
    using read_ases_encoded[of "ases s" wide]
    by (simp add: encode_seg_def seg_fits_def unat_of_nat_u8 length_concat_as_bytes list_all_iff Let_def)
qed simp

lemma read_ases_bytes:
  assumes "n * 4 \<le> length b"
  shows "concat (map (to_be_bytes 4) (read_ases True n b)) = take (n * 4) b \<and> length (read_ases True n b) = n"
  using assms
proof (induction n arbitrary: b)
  case (Suc n)
  have "to_be_bytes 4 (from_be_bytes (take 4 b) :: u32) = take 4 b"
    using Suc.prems to_from_be_bytes[of "take 4 b", where ?'a = 32] by simp
  moreover have "take (4 + n * 4) b = take 4 b @ take (n * 4) (drop 4 b)" by (rule take_add)
  ultimately show ?case
    using Suc.IH[of "drop 4 b"] Suc.prems by (simp add: as_width_def Let_def)
qed simp

lemma encode_decode_wide:
  "decode_inner wide b = Some p \<Longrightarrow> wide \<Longrightarrow> encode_4 p = b"
proof (induction wide b arbitrary: p rule: decode_inner.induct)
  case (3 wide k c b)
  then obtain kd q where kd: "as_path_type_from_u8 k = Some kd"
    and len: "unat c * 4 \<le> length b" and q: "decode_inner True (drop (unat c * 4) b) = Some q"
    and p: "p = \<lparr>kind = kd, ases = read_ases True (unat c) b\<rparr> # q"
    by (auto simp: as_width_def Let_def split: option.splits if_splits)
  have "encode_4 q = drop (unat c * 4) b"
    using 3(1)[OF kd refl refl _ , of q] 3(3) len q by (simp add: as_width_def)
  then show ?case
    using read_ases_bytes[OF len] type_from_u8_code[OF kd]
    by (simp add: encode_4_def encode_seg_def p)
qed (simp_all add: encode_4_def)

lemma prepend_in_length:
  "prepend_in Sequence a p = Some q \<Longrightarrow> as_path_length q = Suc (as_path_length p) \<and> loop_check q a"
  by (induction p arbitrary: q)
    (auto simp: as_path_length_def loop_check_def is_sequence_def split: if_splits)

section \<open>Properties\<close>

text \<open>
  C28.  Encoding and decoding an AS_PATH gives the path back, at both widths, when every segment has
  at most 255 ASes (and, at the 2-byte width, every AS number fits two bytes).
\<close>

theorem as_path_roundtrip:
  assumes "list_all (seg_fits wide) p"
  shows "(if wide then decode_4 (encode_4 p) else decode_2 (encode_2 p)) = Some p"
  using decode_encode_inner[OF assms]
  by (simp add: decode_4_def decode_2_def encode_4_def encode_2_def as_bytes_def split: if_splits)

theorem as_path_roundtrip_witness:
  "list_all (seg_fits True) [\<lparr>kind = Sequence, ases = [65001, 4200000000]\<rparr>] \<and>
   decode_4 (encode_4 [\<lparr>kind = Sequence, ases = [65001, 4200000000]\<rparr>]) =
     Some [\<lparr>kind = Sequence, ases = [65001, 4200000000]\<rparr>]"
  using as_path_roundtrip[of True "[\<lparr>kind = Sequence, ases = [65001, 4200000000]\<rparr>]"]
  by (simp add: seg_fits_def asn_fits_def)

text \<open>
  The 4-byte wire form is canonical: bytes that decode are the encoding of what they decode to.
\<close>

theorem as4_canonical:
  assumes "decode_4 b = Some p"
  shows "encode_4 p = b"
  using encode_decode_wide[of True b p] assms by (simp add: decode_4_def)

theorem as4_canonical_witness:
  "decode_4 [2, 1, 0, 0, 0xfd, 0xe9] = Some [\<lparr>kind = Sequence, ases = [65001]\<rparr>] \<and>
   encode_4 [\<lparr>kind = Sequence, ases = [65001]\<rparr>] = [2, 1, 0, 0, 0xfd, 0xe9]"
proof -
  have "decode_4 [2, 1, 0, 0, 0xfd, 0xe9] = Some [\<lparr>kind = Sequence, ases = [65001]\<rparr>]" by code_simp
  with as4_canonical[OF this] show ?thesis by simp
qed

text \<open>
  A SEQUENCE segment of 256 ASes, which prepending reaches from 255, is encoded with a count
  byte of zero, and the result does not decode.
\<close>

theorem encode_count_wraps:
  "decode_4 (encode_4 (prepend 65001 (from_sequence (replicate 255 65001)))) = None"
proof -
  have "of_nat (length (replicate 256 (65001 :: u32))) = (0 :: u8)" by simp
  moreover have "prepend 65001 (from_sequence (replicate 255 65001)) =
      [\<lparr>kind = Sequence, ases = replicate 256 65001\<rparr>]"
    by (simp add: prepend_def from_sequence_def numeral_eq_Suc)
  moreover have "to_be_bytes 4 (65001 :: u32) = [0, 0, 0xfd, 0xe9]" by code_simp
  moreover have "replicate 256 (65001 :: u32) = 65001 # replicate 255 65001" by (simp add: numeral_eq_Suc)
  ultimately show ?thesis
    by (simp add: decode_4_def encode_4_def encode_seg_def as_path_type_from_u8_def as_width_def)
qed

text \<open>
  Prepending an AS makes the path exactly one hop longer, and the loop check then finds the AS.
\<close>

theorem prepend_one_hop:
  "as_path_length (prepend a p) = as_path_length p + 1 \<and> loop_check (prepend a p) a"
proof (cases "prepend_in Sequence a p")
  case None
  then show ?thesis by (simp add: prepend_def as_path_length_def loop_check_def is_sequence_def)
next
  case (Some q)
  then show ?thesis using prepend_in_length[OF Some] by (simp add: prepend_def)
qed

text \<open>
  \<open>strip_confed\<close> leaves no confederation segment, keeps the hop count, and reports whether it
  removed anything.
\<close>

theorem strip_confed_clean:
  "\<not> has_confed (fst (strip_confed p)) \<and> as_path_length (fst (strip_confed p)) = as_path_length p \<and>
   (snd (strip_confed p) \<longleftrightarrow> has_confed p)"
proof -
  have "sum_list (map seg_length (filter (\<lambda>s. \<not> is_confed s) p)) = sum_list (map seg_length p)"
    by (induction p) (auto simp: is_confed_def)
  moreover have "length (filter (\<lambda>s. \<not> is_confed s) p) \<noteq> length p \<longleftrightarrow> list_ex is_confed p"
  proof (induction p)
    case (Cons s p)
    have "length (filter (\<lambda>s. \<not> is_confed s) p) \<noteq> Suc (length p)"
      using length_filter_le[of "\<lambda>s. \<not> is_confed s" p] by linarith
    with Cons show ?case by auto
  qed simp
  ultimately show ?thesis
    by (auto simp: strip_confed_def has_confed_def as_path_length_def list_ex_iff Let_def)
qed

text \<open>
  When both paths are one SEQUENCE, reconciliation gives the leading ASes of the wire path that
  AS4_PATH does not account for, followed by AS4_PATH.
\<close>

theorem reconcile_sequences:
  assumes "ys \<noteq> []" "length ys \<le> length xs"
  shows "as_sequence (reconcile_as4 (from_sequence xs) (Some (from_sequence ys))) =
    take (length xs - length ys) xs @ ys"
  using assms
  by (auto simp: reconcile_as4_def from_sequence_def as_path_count_def as_sequence_def is_sequence_def
      Let_def min_def)

theorem reconcile_sequences_witness:
  "as_sequence (reconcile_as4 (from_sequence [23456, 23456, 65001]) (Some (from_sequence [4200000000, 65001]))) =
     [23456, 4200000000, 65001]"
  using reconcile_sequences[of "[4200000000, 65001]" "[23456, 23456, 65001]"] by simp

text \<open>
  When the ASes to keep end inside a later segment, reconciliation takes the remainder from the
  first SEQUENCE again: the AS that is already kept is repeated and the next one is lost.
\<close>

theorem reconcile_repeats_first:
  "as_sequence (reconcile_as4 [\<lparr>kind = Sequence, ases = [1]\<rparr>, \<lparr>kind = Sequence, ases = [2, 3]\<rparr>]
     (Some [\<lparr>kind = Sequence, ases = [9]\<rparr>])) = [1, 1, 9]"
  by (simp add: reconcile_as4_def as_path_count_def as_sequence_def is_sequence_def Let_def)

end
