(* ===== verification/LR_Mpls.thy ===== *)
theory LR_Mpls
  imports LR_Codec
begin

text \<open>
  MPLS labels and label stacks, \<open>crates/lr-mpls/src/lib.rs\<close>: the 4-octet entries of the data plane and
  the 3-octet entries of labelled NLRI.  The bottom-of-stack bit belongs to the stack, not to a label.
\<close>

section \<open>Labels\<close>

record label =
  lbl_value :: u32
  tc :: u8
  ttl :: u8

definition MAX_VALUE :: u32 where
  "MAX_VALUE = push_bit 20 1 - 1"

definition FIRST_NORMAL :: u32 where
  "FIRST_NORMAL = 16"

datatype label_stack_error = TooShort | UnevenLength | MidStackBottom | ValueOutOfRange u32

definition label_new :: "u32 \<Rightarrow> label" where
  "label_new v = \<lparr>lbl_value = v, tc = 0, ttl = 64\<rparr>"

definition new_value :: "u32 \<Rightarrow> label" where
  "new_value v = \<lparr>lbl_value = v, tc = 0, ttl = 0\<rparr>"

definition try_new :: "u32 \<Rightarrow> label_stack_error + label" where
  "try_new v = (if v > MAX_VALUE then Inl (ValueOutOfRange v) else Inr (label_new v))"

definition with_tc :: "u8 \<Rightarrow> label \<Rightarrow> label" where
  "with_tc t l = l\<lparr>tc := t AND 0x07\<rparr>"

definition with_ttl :: "u8 \<Rightarrow> label \<Rightarrow> label" where
  "with_ttl t l = l\<lparr>ttl := t\<rparr>"

definition is_reserved :: "label \<Rightarrow> bool" where
  "is_reserved l \<longleftrightarrow> lbl_value l < FIRST_NORMAL"

definition is_valid_value :: "u32 \<Rightarrow> bool" where
  "is_valid_value v \<longleftrightarrow> v \<le> MAX_VALUE"

definition label_encode_3octet :: "label \<Rightarrow> bool \<Rightarrow> bytes" where
  "label_encode_3octet l bottom =
     (let byte2 = push_bit 4 (lbl_value l AND 0x0f) OR (if bottom then 1 else 0)
      in [ucast (drop_bit 12 (lbl_value l) AND 0xff), ucast (drop_bit 4 (lbl_value l) AND 0xff),
          ucast byte2])"

definition label_encode_4octet :: "label \<Rightarrow> bool \<Rightarrow> bytes" where
  "label_encode_4octet l bottom =
     (let byte2 = push_bit 4 (lbl_value l AND 0x0f) OR push_bit 1 (ucast (tc l) AND 0x07) OR
            (if bottom then 1 else 0)
      in [ucast (drop_bit 12 (lbl_value l) AND 0xff), ucast (drop_bit 4 (lbl_value l) AND 0xff),
          ucast byte2, ttl l])"

section \<open>Stacks\<close>

text \<open>The top of the stack is the head of the list.\<close>

type_synonym label_stack = "label list"

definition from_values :: "u32 list \<Rightarrow> label_stack" where
  "from_values vs = map label_new vs"

definition stack_push :: "label \<Rightarrow> label_stack \<Rightarrow> label_stack" where
  "stack_push l s = l # s"

definition push_bottom :: "label \<Rightarrow> label_stack \<Rightarrow> label_stack" where
  "push_bottom l s = s @ [l]"

definition stack_pop :: "label_stack \<Rightarrow> label option \<times> label_stack" where
  "stack_pop s = (if s = [] then (None, s) else (Some (hd s), tl s))"

definition all_reserved :: "label_stack \<Rightarrow> bool" where
  "all_reserved s \<longleftrightarrow> s \<noteq> [] \<and> list_all is_reserved s"

definition encode_stack :: "(label \<Rightarrow> bool \<Rightarrow> bytes) \<Rightarrow> label_stack \<Rightarrow> bytes" where
  "encode_stack f s =
     (let last = length s - 1 in concat (map (\<lambda>(i, l). f l (i = last)) (enumerate 0 s)))"

definition encode_4octet :: "label_stack \<Rightarrow> bytes" where
  "encode_4octet s = encode_stack label_encode_4octet s"

definition encode_3octet :: "label_stack \<Rightarrow> bytes" where
  "encode_3octet s = encode_stack label_encode_3octet s"

definition label_of_word :: "u32 \<Rightarrow> label" where
  "label_of_word word =
     \<lparr>lbl_value = drop_bit 12 word AND MAX_VALUE, tc = ucast (drop_bit 9 word AND 0x07),
      ttl = ucast (word AND 0xff)\<rparr>"

fun decode_4octet_loop :: "nat \<Rightarrow> nat \<Rightarrow> bytes list \<Rightarrow> label_stack_error + label_stack" where
  "decode_4octet_loop n i [] = Inr []"
| "decode_4octet_loop n i (chunk # cs) =
     (let word = from_be_bytes chunk; l = label_of_word word; bottom = (drop_bit 8 word AND 0x01 \<noteq> 0)
      in if lbl_value l > MAX_VALUE then Inl (ValueOutOfRange (lbl_value l))
         else if bottom then (if i + 1 < n then Inl MidStackBottom else Inr [l])
         else map_sum id ((#) l) (decode_4octet_loop n (i + 1) cs))"

definition decode_4octet :: "bytes \<Rightarrow> label_stack_error + label_stack" where
  "decode_4octet b =
     (if b = [] then Inl TooShort
      else if length b mod 4 \<noteq> 0 then Inl UnevenLength
      else decode_4octet_loop (length b div 4) 0 (chunks 4 b))"

definition value_of_3octet :: "bytes \<Rightarrow> u32" where
  "value_of_3octet c =
     push_bit 12 (ucast (c ! 0)) OR push_bit 4 (ucast (c ! 1)) OR drop_bit 4 (ucast (c ! 2))"

fun decode_3octet_loop :: "bytes list \<Rightarrow> label_stack_error + label_stack" where
  "decode_3octet_loop [] = Inr []"
| "decode_3octet_loop (chunk # cs) =
     (let v = value_of_3octet chunk; bottom = ((chunk ! 2) AND 0x01 \<noteq> 0)
      in if v > MAX_VALUE then Inl (ValueOutOfRange v)
         else if bottom then Inr [new_value v]
         else map_sum id ((#) (new_value v)) (decode_3octet_loop cs))"

definition decode_3octet :: "bytes \<Rightarrow> label_stack_error + label_stack" where
  "decode_3octet b =
     (if b = [] then Inl TooShort
      else if length b mod 3 \<noteq> 0 then Inl UnevenLength
      else decode_3octet_loop (chunks 3 b))"

definition decode_3octet_count :: "bytes \<Rightarrow> nat \<Rightarrow> label_stack_error + label_stack" where
  "decode_3octet_count b count =
     (if count = 0 \<or> count mod 3 \<noteq> 0 \<or> count > length b then Inl UnevenLength
      else decode_3octet (take count b))"

section \<open>Single entries\<close>

definition label_wf :: "label \<Rightarrow> bool" where
  "label_wf l \<longleftrightarrow> lbl_value l \<le> MAX_VALUE \<and> tc l \<le> 7"

lemma MAX_VALUE_mask: "MAX_VALUE = mask 20"
  by (simp add: MAX_VALUE_def mask_eq_exp_minus_1)

lemma less_pow_bit:
  assumes "unat v < 2 ^ n" and "bit (v :: 'a::len word) i"
  shows "i < n"
proof (rule ccontr)
  assume "\<not> i < n"
  then have "(2 :: nat) ^ n \<le> 2 ^ i" by simp
  with assms(1) have "unat v div 2 ^ i = 0" by (simp add: less_le_trans)
  then have "\<not> bit (unat v) i" by (simp add: bit_iff_odd)
  with assms(2) show False by (simp add: bit_unsigned_iff)
qed

lemma value_bit: "v \<le> MAX_VALUE \<Longrightarrow> bit v i \<Longrightarrow> i < 20"
  by (rule less_pow_bit[of v]) (simp_all add: MAX_VALUE_def word_le_nat_alt)

lemma tc_bit: "t \<le> (7 :: u8) \<Longrightarrow> bit t i \<Longrightarrow> i < 3"
  by (rule less_pow_bit[of t]) (simp_all add: word_le_nat_alt)

lemma and_ff: "(w :: u32) AND 0xff = take_bit 8 w"
  by (simp add: take_bit_eq_mask mask_eq_exp_minus_1)

lemma and_f: "(w :: u32) AND 0x0f = take_bit 4 w"
  by (simp add: take_bit_eq_mask mask_eq_exp_minus_1)

lemma and_7: "(w :: u32) AND 0x07 = take_bit 3 w"
  by (simp add: take_bit_eq_mask mask_eq_exp_minus_1)

lemma and_max: "w AND MAX_VALUE = take_bit 20 w"
  by (simp add: take_bit_eq_mask MAX_VALUE_mask)

lemmas mask_simps = and_ff and_f and_7 and_max

lemma from_be_bytes_4:
  "from_be_bytes [a, b, c, d] =
     push_bit 24 (ucast a) OR push_bit 16 (ucast b) OR push_bit 8 (ucast c) OR (ucast d :: u32)"
  by (simp add: from_be_bytes_def push_bit_or ac_simps)

definition word_of_label :: "label \<Rightarrow> bool \<Rightarrow> u32" where
  "word_of_label l bottom =
     push_bit 12 (take_bit 20 (lbl_value l)) OR push_bit 9 (take_bit 3 (ucast (tc l))) OR
     push_bit 8 (of_bool bottom) OR ucast (ttl l)"

lemma byte_cases:
  assumes "i < (32 :: nat)"
  obtains j where "i = j" "j < 8" | j where "i = 8 + j" "j < 8"
    | j where "i = 16 + j" "j < 8" | j where "i = 24 + j" "j < 8"
proof -
  consider "i < 8" | "8 \<le> i" "i < 16" | "16 \<le> i" "i < 24" | "24 \<le> i" by linarith
  then show thesis
    using that assms by cases (auto dest!: le_Suc_ex)
qed

lemma encode_4octet_word: "from_be_bytes (label_encode_4octet l bottom) = word_of_label l bottom"
proof (rule bit_word_eqI)
  fix i :: nat assume "i < LENGTH(32)"
  then have "i < 32" by simp
  then show "bit (from_be_bytes (label_encode_4octet l bottom) :: u32) i = bit (word_of_label l bottom) i"
    unfolding label_encode_4octet_def Let_def from_be_bytes_4 word_of_label_def mask_simps
    by (cases i rule: byte_cases) (auto simp: bit_simps simp del: push_bit_Suc)
qed

lemma word_of_label_round:
  assumes "label_wf l"
  shows "label_of_word (word_of_label l bottom) = l"
    and "drop_bit 8 (word_of_label l bottom) AND 1 \<noteq> 0 \<longleftrightarrow> bottom"
proof -
  have v: "bit (lbl_value l) i \<Longrightarrow> i < 20" and t: "bit (tc l) i \<Longrightarrow> i < 3" for i
    using assms by (auto simp: label_wf_def intro: value_bit tc_bit)
  have ttl: "bit (ttl l) i \<Longrightarrow> i < 8" for i using bit_imp_le_length[of "ttl l" i] by simp
  let ?w = "word_of_label l bottom"
  have "take_bit 20 (drop_bit 12 ?w) = lbl_value l"
    by (rule bit_word_eqI) (auto simp: word_of_label_def bit_simps dest: v t ttl)
  moreover have "ucast (take_bit 3 (drop_bit 9 ?w)) = tc l"
    by (rule bit_word_eqI) (auto simp: word_of_label_def bit_simps dest: v t ttl)
  moreover have "ucast (take_bit 8 ?w) = ttl l"
    by (rule bit_word_eqI) (auto simp: word_of_label_def bit_simps dest: v t ttl)
  ultimately show "label_of_word ?w = l"
    by (simp add: label_of_word_def mask_simps)
  have "bit ?w 8 \<longleftrightarrow> bottom"
    by (auto simp: word_of_label_def bit_simps dest: v t ttl)
  then show "drop_bit 8 ?w AND 1 \<noteq> 0 \<longleftrightarrow> bottom"
    by (simp add: and_one_eq odd_iff_mod_2_eq_one bit_iff_odd_drop_bit)
qed

lemma encode_3octet_entry:
  assumes "lbl_value l \<le> MAX_VALUE"
  shows "value_of_3octet (label_encode_3octet l bottom) = lbl_value l"
    and "label_encode_3octet l bottom ! 2 AND 0x01 \<noteq> 0 \<longleftrightarrow> bottom"
proof -
  have v: "bit (lbl_value l) i \<Longrightarrow> i < 20" for i using assms by (rule value_bit)
  show "value_of_3octet (label_encode_3octet l bottom) = lbl_value l"
  proof (rule bit_word_eqI)
    fix i :: nat
    show "bit (value_of_3octet (label_encode_3octet l bottom)) i = bit (lbl_value l) i"
    proof (cases "12 \<le> i")
      case True
      then obtain j where "i = 12 + j" by (auto dest: le_Suc_ex)
      then show ?thesis
        by (auto simp: label_encode_3octet_def value_of_3octet_def Let_def mask_simps bit_simps
            simp del: push_bit_Suc dest: v)
    next
      case False
      then show ?thesis
        by (auto simp: label_encode_3octet_def value_of_3octet_def Let_def mask_simps bit_simps
            simp del: push_bit_Suc dest: v)
    qed
  qed
  have "bit (label_encode_3octet l bottom ! 2) 0 \<longleftrightarrow> bottom"
    by (auto simp: label_encode_3octet_def Let_def mask_simps bit_simps)
  then show "label_encode_3octet l bottom ! 2 AND 0x01 \<noteq> 0 \<longleftrightarrow> bottom"
    by (simp add: and_one_eq odd_iff_mod_2_eq_one bit_0)
qed

section \<open>Whole stacks\<close>

lemma encode_stack_simps [simp]:
  "encode_stack f [] = []"
  "encode_stack f [l] = f l True"
  "encode_stack f (l # m # s) = f l False @ encode_stack f (m # s)"
  by (simp_all add: encode_stack_def enumerate_Suc_eq comp_def
      case_prod_unfold)

lemma length_label_encode [simp]:
  "length (label_encode_4octet l bottom) = 4" "length (label_encode_3octet l bottom) = 3"
  by (simp_all add: label_encode_4octet_def label_encode_3octet_def Let_def)

lemma length_encode_stack:
  assumes "\<And>l bottom. length (f l bottom) = n"
  shows "length (encode_stack f s) = n * length s"
  by (induction s rule: induct_list012) (simp_all add: assms)

lemma chunks_encode_stack:
  assumes "\<And>l bottom. length (f l bottom) = n" and "0 < n"
  shows "chunks n (encode_stack f (l # s)) = f l (s = []) # chunks n (encode_stack f s)"
proof (cases s)
  case Nil
  with assms chunks_append[of n "f l True" "[]"] show ?thesis by simp
qed (simp add: assms)

lemma decode_4octet_loop_round:
  assumes "list_all label_wf s" and "i + length s = n"
  shows "decode_4octet_loop n i (chunks 4 (encode_stack label_encode_4octet s)) = Inr s"
  using assms
proof (induction s arbitrary: i)
  case (Cons l s)
  have "\<not> lbl_value l > MAX_VALUE" using Cons.prems by (simp add: label_wf_def not_less)
  with Cons show ?case
    by (auto simp: chunks_encode_stack encode_4octet_word word_of_label_round)
qed simp

lemma decode_3octet_loop_round:
  assumes "list_all (\<lambda>v. v \<le> MAX_VALUE) vs"
  shows "decode_3octet_loop (chunks 3 (encode_stack label_encode_3octet (map new_value vs))) =
    Inr (map new_value vs)"
  using assms
proof (induction vs)
  case (Cons v vs)
  have "lbl_value (new_value v) \<le> MAX_VALUE" "lbl_value (new_value v) = v" "\<not> v > MAX_VALUE"
    using Cons.prems by (simp_all add: new_value_def not_less)
  with Cons show ?case
    by (simp add: chunks_encode_stack encode_3octet_entry)
qed simp

lemma encode_3octet_values:
  "encode_stack label_encode_3octet (map (\<lambda>l. new_value (lbl_value l)) s) =
   encode_stack label_encode_3octet s"
  by (induction s rule: induct_list012) (simp_all add: label_encode_3octet_def new_value_def)

lemma label_of_word_wf: "label_wf (label_of_word w)"
proof -
  have "unat (ucast (drop_bit 9 w AND 7) :: u8) \<le> unat (drop_bit 9 w AND 7)"
    by (simp add: unsigned_ucast_eq take_bit_nat_less_eq_self)
  also have "\<dots> \<le> 7" using word_and_le1[of "drop_bit 9 w" 7] by (simp add: word_le_nat_alt)
  finally show ?thesis
    using word_and_le1[of "drop_bit 12 w" MAX_VALUE]
    by (simp add: label_wf_def label_of_word_def word_le_nat_alt)
qed

text \<open>Encoding a decoded entry gives its word back with the bottom-of-stack bit as asked.\<close>

lemma word_of_label_of_word:
  "word_of_label (label_of_word w) bottom = (if bottom then set_bit 8 w else unset_bit 8 w)"
proof (rule bit_word_eqI)
  fix i :: nat assume "i < LENGTH(32)"
  then have "i < 32" by simp
  then consider "i < 8" | "i = 8" | "9 \<le> i" "i < 12" | "12 \<le> i" by linarith
  then show "bit (word_of_label (label_of_word w) bottom) i =
      bit (if bottom then set_bit 8 w else unset_bit 8 w) i"
    using \<open>i < 32\<close>
    by cases (auto simp: word_of_label_def label_of_word_def mask_simps bit_simps)
qed

lemma encode_label_of_word:
  "label_encode_4octet (label_of_word w) bottom =
     to_be_bytes 4 (if bottom then set_bit 8 w else unset_bit 8 w)"
  using be_bytes_width[of "label_encode_4octet (label_of_word w) bottom"]
  by (simp only: encode_4octet_word word_of_label_of_word length_label_encode)

definition bottom_marked :: "u32 list \<Rightarrow> u32 list" where
  "bottom_marked ws = butlast ws @ [set_bit 8 (last ws)]"

lemma decode_4octet_loop_words:
  assumes "decode_4octet_loop n i cs = Inr s" and "i + length cs = n" and "cs \<noteq> []"
  shows "encode_stack label_encode_4octet s =
      concat (map (to_be_bytes 4) (bottom_marked (map from_be_bytes cs))) \<and>
    list_all label_wf s \<and> length s = length cs"
  using assms
proof (induction cs arbitrary: i s)
  case (Cons c cs)
  let ?w = "from_be_bytes c :: u32"
  have gt: "\<not> lbl_value (label_of_word ?w) > MAX_VALUE"
    using label_of_word_wf[of ?w] by (simp add: label_wf_def not_less)
  have bit8: "drop_bit 8 ?w AND 1 \<noteq> 0 \<longleftrightarrow> bit ?w 8"
    by (simp add: and_one_eq odd_iff_mod_2_eq_one bit_iff_odd_drop_bit)
  note IH = Cons.IH and prems = Cons.prems
  show ?case
  proof (cases "cs = []")
    case True
    with prems gt have "s = [label_of_word ?w]" by (auto simp: Let_def split: if_splits)
    with True show ?thesis by (simp add: bottom_marked_def encode_label_of_word label_of_word_wf)
  next
    case False
    then have "\<not> bit ?w 8" and "\<exists>t. decode_4octet_loop n (i + 1) cs = Inr t \<and> s = label_of_word ?w # t"
      using prems gt bit8 by (auto simp: Let_def map_sum_Inr_iff split: if_splits)
    then obtain t where t: "decode_4octet_loop n (i + 1) cs = Inr t" "s = label_of_word ?w # t" by blast
    have IH': "encode_stack label_encode_4octet t =
        concat (map (to_be_bytes 4) (bottom_marked (map from_be_bytes cs)))"
      "list_all label_wf t" "length t = length cs"
      using IH[OF t(1)] prems(2) False by auto
    then obtain l t' where "t = l # t'" using False by (cases t) auto
    moreover have "unset_bit 8 ?w = ?w"
      using \<open>\<not> bit ?w 8\<close> by (auto intro!: bit_word_eqI simp: bit_simps)
    ultimately show ?thesis
      using IH' t(2) False
      by (simp add: bottom_marked_def encode_label_of_word label_of_word_wf be_bytes_width)
  qed
qed simp

lemma stack_round:
  assumes "s \<noteq> []" and "list_all label_wf s"
  shows "decode_4octet (encode_4octet s) = Inr s"
proof -
  have "length (encode_stack label_encode_4octet s) = 4 * length s" by (rule length_encode_stack) simp
  moreover from this have "encode_stack label_encode_4octet s \<noteq> []" using assms(1) by auto
  ultimately show ?thesis
    using decode_4octet_loop_round[OF assms(2), of 0] by (simp add: decode_4octet_def encode_4octet_def)
qed

section \<open>Properties\<close>

text \<open>
  A non-empty stack of labels in range survives the 4-octet wire form; in the 3-octet form of
  labelled NLRI the label values survive and the traffic class and TTL come back as zero.
\<close>

theorem label_stack_roundtrip:
  assumes "s \<noteq> []" and "list_all label_wf s"
  shows "decode_4octet (encode_4octet s) = Inr s \<and>
    decode_3octet (encode_3octet s) = Inr (map (\<lambda>l. new_value (lbl_value l)) s)"
proof
  have ne: "encode_stack f s \<noteq> []" if "\<And>l b. length (f l b) = n" "0 < n" for f n
    using length_encode_stack[of f n s] that assms(1) by auto
  show "decode_4octet (encode_4octet s) = Inr s" using assms by (rule stack_round)
  have "encode_3octet s = encode_3octet (map new_value (map lbl_value s))"
    by (simp add: encode_3octet_def encode_3octet_values comp_def)
  moreover have "list_all (\<lambda>v. v \<le> MAX_VALUE) (map lbl_value s)"
    using assms(2) by (simp add: list_all_iff label_wf_def)
  ultimately show "decode_3octet (encode_3octet s) = Inr (map (\<lambda>l. new_value (lbl_value l)) s)"
    using decode_3octet_loop_round[of "map lbl_value s"] ne[of label_encode_3octet 3]
    by (simp add: decode_3octet_def encode_3octet_def length_encode_stack comp_def)
qed

theorem label_stack_roundtrip_witness:
  "decode_4octet (encode_4octet [label_new 16, label_new 1048575]) =
     Inr [label_new 16, label_new 1048575]"
  using label_stack_roundtrip[of "[label_new 16, label_new 1048575]"]
  by (simp add: label_wf_def label_new_def MAX_VALUE_def)

text \<open>
  What the 4-octet decoder accepts is the encoding of the stack it returns, up to the
  bottom-of-stack bit of the last entry, which it does not require; the stack is not empty and every
  label is in range.
\<close>

theorem decode_4octet_canonical:
  assumes "decode_4octet b = Inr s"
  shows "encode_4octet s = concat (map (to_be_bytes 4) (bottom_marked (map from_be_bytes (chunks 4 b))))
    \<and> s \<noteq> [] \<and> list_all label_wf s \<and> length b = 4 * length s"
proof -
  have b: "b \<noteq> []" "length b mod 4 = 0"
    and d: "decode_4octet_loop (length b div 4) 0 (chunks 4 b) = Inr s"
    using assms by (auto simp: decode_4octet_def split: if_splits)
  have l: "length (chunks 4 b) = length b div 4" by (rule length_chunks) simp
  have "chunks 4 b \<noteq> []" using b l by (cases "length b") auto
  with decode_4octet_loop_words[OF d] l b show ?thesis by (auto simp: encode_4octet_def)
qed

theorem decode_4octet_canonical_witness:
  "decode_4octet [0, 1, 0, 64, 0, 2, 0, 64] = Inr [label_new 16, label_new 32] \<and>
   encode_4octet [label_new 16, label_new 32] = [0, 1, 0, 64, 0, 2, 1, 64]"
proof -
  have d: "decode_4octet [0, 1, 0, 64, 0, 2, 0, 64] = Inr [label_new 16, label_new 32]" by code_simp
  have "concat (map (to_be_bytes 4) (bottom_marked (map from_be_bytes (chunks 4 [0, 1, 0, 64, 0, 2, 0, 64]))))
    = [0, 1, 0, 64, 0, 2, 1, 64]" by code_simp
  with d decode_4octet_canonical[OF d] show ?thesis by simp
qed

text \<open>
  \<open>try_new\<close> rejects exactly the values that need more than 20 bits, and these are the values
  that encoding would truncate.
\<close>

theorem try_new_bounds:
  "(try_new v = Inr (label_new v) \<longleftrightarrow> unat v < 2 ^ 20) \<and>
   (try_new v = Inl (ValueOutOfRange v) \<longleftrightarrow>
      value_of_3octet (label_encode_3octet (label_new v) True) \<noteq> v)"
proof -
  have le: "v \<le> MAX_VALUE \<longleftrightarrow> unat v < 2 ^ 20" by (auto simp: MAX_VALUE_def word_le_nat_alt)
  have v: "lbl_value (label_new v) = v" by (simp add: label_new_def)
  have range: "bit (value_of_3octet (label_encode_3octet (label_new v) True)) i \<Longrightarrow> i < 20" for i
    by (auto simp: value_of_3octet_def label_encode_3octet_def Let_def bit_simps)
  have "v \<le> MAX_VALUE" if eq: "value_of_3octet (label_encode_3octet (label_new v) True) = v"
  proof -
    have "take_bit 20 v = v" using range unfolding eq by (auto intro!: bit_word_eqI simp: bit_simps)
    then have "unat v = take_bit 20 (unat v)" by (metis unsigned_take_bit_eq)
    then show ?thesis unfolding le by (metis take_bit_nat_less_exp)
  qed
  then show ?thesis
    using encode_3octet_entry(1)[of "label_new v" True] le v by (auto simp: try_new_def not_le)
qed

end
