(* ===== verification/LR_PathAttr.thy ===== *)
theory LR_PathAttr
  imports LR_WellKnown LR_Communities LR_AsPath LR_Mpls LR_RibTypes
begin

text \<open>
  The path-attribute set of \<open>crates/lr-bgp/src/path/mod.rs\<close>: attribute types and flags, the ordered set
  with its typed accessors, the private attributes that carry route metadata through the tables, and
  the conversions to and from the generic attribute container of \<open>lr-core\<close>.
\<close>

section \<open>Flags and types\<close>

type_synonym attr_flags = u8

definition OPTIONAL :: u8 where
  "OPTIONAL = 0x80"

definition TRANSITIVE :: u8 where
  "TRANSITIVE = 0x40"

definition PARTIAL :: u8 where
  "PARTIAL = 0x20"

definition EXTENDED_LENGTH :: u8 where
  "EXTENDED_LENGTH = 0x10"

definition flag_optional :: "attr_flags \<Rightarrow> bool" where
  "flag_optional f \<longleftrightarrow> f AND OPTIONAL \<noteq> 0"

definition flag_transitive :: "attr_flags \<Rightarrow> bool" where
  "flag_transitive f \<longleftrightarrow> f AND TRANSITIVE \<noteq> 0"

definition flag_partial :: "attr_flags \<Rightarrow> bool" where
  "flag_partial f \<longleftrightarrow> f AND PARTIAL \<noteq> 0"

definition flag_extended_length :: "attr_flags \<Rightarrow> bool" where
  "flag_extended_length f \<longleftrightarrow> f AND EXTENDED_LENGTH \<noteq> 0"

definition set_optional :: "bool \<Rightarrow> attr_flags \<Rightarrow> attr_flags" where
  "set_optional v f = f OR OPTIONAL * (if v then 1 else 0)"

definition set_transitive :: "bool \<Rightarrow> attr_flags \<Rightarrow> attr_flags" where
  "set_transitive v f = f OR TRANSITIVE * (if v then 1 else 0)"

definition set_partial :: "bool \<Rightarrow> attr_flags \<Rightarrow> attr_flags" where
  "set_partial v f = f OR PARTIAL * (if v then 1 else 0)"

definition set_extended :: "bool \<Rightarrow> attr_flags \<Rightarrow> attr_flags" where
  "set_extended v f = f OR EXTENDED_LENGTH * (if v then 1 else 0)"

datatype attr_type =
    Origin | AsPath | NextHop | MultiExitDisc | LocalPref | AtomicAggregate | Aggregator | Communities
  | OriginatorId | ClusterList | MpReachNlri | MpUnreachNlri | ExtendedCommunities | As4Path
  | As4Aggregator | PmsiTunnel | TunnelEncap | TrafficEngineering | LargeCommunities | Otc | Aigp
  | BgpLsAttribute | LrMplsLabelStack | LrExchangePlaneRecords | LrOspfMetric2 | LrOspfRouterId
  | LrBabelSeqno | LrBabelRouterId | LrIgpMetric | LrPeerSourceAddress | AttrOther u8

definition attr_codes :: "(u8 \<times> attr_type) list" where
  "attr_codes =
     [(1, Origin), (2, AsPath), (3, NextHop), (4, MultiExitDisc), (5, LocalPref), (6, AtomicAggregate),
      (7, Aggregator), (8, Communities), (9, OriginatorId), (10, ClusterList), (14, MpReachNlri),
      (15, MpUnreachNlri), (16, ExtendedCommunities), (17, As4Path), (18, As4Aggregator),
      (22, PmsiTunnel), (23, TunnelEncap), (24, TrafficEngineering), (29, BgpLsAttribute),
      (32, LargeCommunities), (35, Otc), (26, Aigp), (254, LrExchangePlaneRecords),
      (253, LrOspfMetric2), (252, LrOspfRouterId), (250, LrBabelRouterId), (249, LrBabelSeqno),
      (246, LrIgpMetric), (245, LrPeerSourceAddress), (255, LrMplsLabelStack)]"

definition attr_type_from_u8 :: "u8 \<Rightarrow> attr_type" where
  "attr_type_from_u8 v = (case map_of attr_codes v of Some t \<Rightarrow> t | None \<Rightarrow> AttrOther v)"

fun attr_type_to_u8 :: "attr_type \<Rightarrow> u8" where
  "attr_type_to_u8 Origin = 1"
| "attr_type_to_u8 AsPath = 2"
| "attr_type_to_u8 NextHop = 3"
| "attr_type_to_u8 MultiExitDisc = 4"
| "attr_type_to_u8 LocalPref = 5"
| "attr_type_to_u8 AtomicAggregate = 6"
| "attr_type_to_u8 Aggregator = 7"
| "attr_type_to_u8 Communities = 8"
| "attr_type_to_u8 OriginatorId = 9"
| "attr_type_to_u8 ClusterList = 10"
| "attr_type_to_u8 MpReachNlri = 14"
| "attr_type_to_u8 MpUnreachNlri = 15"
| "attr_type_to_u8 ExtendedCommunities = 16"
| "attr_type_to_u8 As4Path = 17"
| "attr_type_to_u8 As4Aggregator = 18"
| "attr_type_to_u8 PmsiTunnel = 22"
| "attr_type_to_u8 TunnelEncap = 23"
| "attr_type_to_u8 TrafficEngineering = 24"
| "attr_type_to_u8 BgpLsAttribute = 29"
| "attr_type_to_u8 LargeCommunities = 32"
| "attr_type_to_u8 Otc = 35"
| "attr_type_to_u8 Aigp = 26"
| "attr_type_to_u8 LrExchangePlaneRecords = 254"
| "attr_type_to_u8 LrOspfMetric2 = 253"
| "attr_type_to_u8 LrOspfRouterId = 252"
| "attr_type_to_u8 LrBabelRouterId = 250"
| "attr_type_to_u8 LrBabelSeqno = 249"
| "attr_type_to_u8 LrIgpMetric = 246"
| "attr_type_to_u8 LrPeerSourceAddress = 245"
| "attr_type_to_u8 LrMplsLabelStack = 255"
| "attr_type_to_u8 (AttrOther v) = v"

definition is_well_known :: "attr_type \<Rightarrow> bool" where
  "is_well_known t \<longleftrightarrow>
     t \<in> {Origin, AsPath, NextHop, MultiExitDisc, LocalPref, AtomicAggregate, Aggregator}"

definition is_mandatory :: "attr_type \<Rightarrow> bool" where
  "is_mandatory t \<longleftrightarrow> t \<in> {Origin, AsPath, NextHop}"

section \<open>The attribute set\<close>

record path_attribute =
  pa_flags :: attr_flags
  pa_type :: attr_type
  pa_value :: bytes

type_synonym path_attributes = "path_attribute list"

fun pa_insert :: "path_attribute \<Rightarrow> path_attributes \<Rightarrow> path_attributes" where
  "pa_insert a [] = [a]"
| "pa_insert a (x # xs) = (if pa_type x = pa_type a then a # xs else x # pa_insert a xs)"

definition pa_get :: "path_attributes \<Rightarrow> attr_type \<Rightarrow> path_attribute option" where
  "pa_get p t = find (\<lambda>a. pa_type a = t) p"

fun pa_remove :: "attr_type \<Rightarrow> path_attributes \<Rightarrow> path_attribute option \<times> path_attributes" where
  "pa_remove t [] = (None, [])"
| "pa_remove t (x # xs) =
     (if pa_type x = t then (Some x, xs) else (let (r, ys) = pa_remove t xs in (r, x # ys)))"

definition pa_has :: "path_attributes \<Rightarrow> attr_type \<Rightarrow> bool" where
  "pa_has p t \<longleftrightarrow> pa_get p t \<noteq> None"

definition pa_value_of :: "path_attributes \<Rightarrow> attr_type \<Rightarrow> bytes option" where
  "pa_value_of p t = map_option pa_value (pa_get p t)"

section \<open>Typed accessors\<close>

definition pa_origin :: "path_attributes \<Rightarrow> origin_kind option" where
  "pa_origin p = Option.bind (pa_value_of p Origin) origin_decode"

definition pa_as_path :: "path_attributes \<Rightarrow> as_path option" where
  "pa_as_path p = Option.bind (pa_value_of p AsPath) decode_4"

definition as_path_wire :: "bool \<Rightarrow> path_attributes \<Rightarrow> as_path option" where
  "as_path_wire asn4 p = Option.bind (pa_value_of p AsPath) (if asn4 then decode_4 else decode_2)"

definition as4_path :: "path_attributes \<Rightarrow> as_path option" where
  "as4_path p = Option.bind (pa_value_of p As4Path) decode_4"

definition pa_next_hop :: "path_attributes \<Rightarrow> next_hop_kind option" where
  "pa_next_hop p = Option.bind (pa_value_of p NextHop) next_hop_decode"

definition pa_med :: "path_attributes \<Rightarrow> u32 option" where
  "pa_med p = Option.bind (pa_value_of p MultiExitDisc) med_decode"

definition pa_local_pref :: "path_attributes \<Rightarrow> u32 option" where
  "pa_local_pref p = Option.bind (pa_value_of p LocalPref) local_pref_decode"

definition set_local_pref :: "u32 \<Rightarrow> path_attributes \<Rightarrow> path_attributes" where
  "set_local_pref v p =
     pa_insert \<lparr>pa_flags = set_transitive True 0, pa_type = LocalPref, pa_value = local_pref_encode v\<rparr> p"

definition pa_aggregator :: "path_attributes \<Rightarrow> aggregator option" where
  "pa_aggregator p = Option.bind (pa_value_of p Aggregator) aggregator_decode"

definition pa_originator_id :: "path_attributes \<Rightarrow> u32 option" where
  "pa_originator_id p = Option.bind (pa_value_of p OriginatorId) originator_id_decode"

definition pa_cluster_list :: "path_attributes \<Rightarrow> cluster_list option" where
  "pa_cluster_list p =
     (case pa_get p ClusterList of None \<Rightarrow> Some [] | Some a \<Rightarrow> cluster_list_decode (pa_value a))"

definition pa_aigp :: "path_attributes \<Rightarrow> u64 option" where
  "pa_aigp p = Option.bind (pa_value_of p Aigp) aigp_decode"

definition pa_pmsi_tunnel :: "path_attributes \<Rightarrow> pmsi_tunnel option" where
  "pa_pmsi_tunnel p = Option.bind (pa_value_of p PmsiTunnel) pmsi_decode"

definition pa_communities :: "path_attributes \<Rightarrow> community list" where
  "pa_communities p =
     (case pa_value_of p Communities of Some b \<Rightarrow> community_decode_set b | None \<Rightarrow> [])"

definition has_community :: "path_attributes \<Rightarrow> community \<Rightarrow> bool" where
  "has_community p c \<longleftrightarrow> c \<in> set (pa_communities p)"

definition insert_community :: "community \<Rightarrow> path_attributes \<Rightarrow> path_attributes" where
  "insert_community c p =
     (if c \<in> set (pa_communities p) then p
      else pa_insert
        \<lparr>pa_flags = set_transitive True (set_optional True 0), pa_type = Communities,
         pa_value = community_encode_set (pa_communities p @ [c])\<rparr> p)"

definition pa_extended_communities :: "path_attributes \<Rightarrow> extended_community list" where
  "pa_extended_communities p =
     (case pa_value_of p ExtendedCommunities of Some b \<Rightarrow> extended_decode_set b | None \<Rightarrow> [])"

definition pa_large_communities :: "path_attributes \<Rightarrow> large_community list" where
  "pa_large_communities p =
     (case pa_value_of p LargeCommunities of Some b \<Rightarrow> large_decode_set b | None \<Rightarrow> [])"

definition insert_large_community :: "large_community \<Rightarrow> path_attributes \<Rightarrow> path_attributes" where
  "insert_large_community c p =
     (if c \<in> set (pa_large_communities p) then p
      else pa_insert
        \<lparr>pa_flags = set_transitive True (set_optional True 0), pa_type = LargeCommunities,
         pa_value = large_encode_set (pa_large_communities p @ [c])\<rparr> p)"

section \<open>Private attributes\<close>

definition put_private :: "attr_type \<Rightarrow> bytes \<Rightarrow> path_attributes \<Rightarrow> path_attributes" where
  "put_private t v p = pa_insert \<lparr>pa_flags = set_optional True 0, pa_type = t, pa_value = v\<rparr> p"

definition set_label_stack :: "label_stack \<Rightarrow> path_attributes \<Rightarrow> path_attributes" where
  "set_label_stack s p = put_private LrMplsLabelStack (encode_4octet s) p"

definition get_label_stack :: "path_attributes \<Rightarrow> label_stack option" where
  "get_label_stack p =
     (case pa_get p LrMplsLabelStack of
        None \<Rightarrow> None
      | Some a \<Rightarrow> (case decode_4octet (pa_value a) of Inl _ \<Rightarrow> None | Inr s \<Rightarrow> Some s))"

definition set_ospf_metric2 :: "u32 \<Rightarrow> path_attributes \<Rightarrow> path_attributes" where
  "set_ospf_metric2 m p = put_private LrOspfMetric2 (to_be_bytes 4 (m AND 0x00ffffff)) p"

definition get_be_u32 :: "attr_type \<Rightarrow> path_attributes \<Rightarrow> u32 option" where
  "get_be_u32 t p =
     (case pa_get p t of
        None \<Rightarrow> None
      | Some a \<Rightarrow> if length (pa_value a) \<noteq> 4 then None else Some (from_be_bytes (pa_value a)))"

definition ospf_metric2 :: "path_attributes \<Rightarrow> u32 option" where
  "ospf_metric2 p = get_be_u32 LrOspfMetric2 p"

definition set_ospf_router_id :: "u32 \<Rightarrow> path_attributes \<Rightarrow> path_attributes" where
  "set_ospf_router_id r p = put_private LrOspfRouterId (to_be_bytes 4 r) p"

definition ospf_router_id :: "path_attributes \<Rightarrow> u32 option" where
  "ospf_router_id p = get_be_u32 LrOspfRouterId p"

definition set_babel_seqno :: "u16 \<Rightarrow> path_attributes \<Rightarrow> path_attributes" where
  "set_babel_seqno s p = put_private LrBabelSeqno (to_be_bytes 4 (ucast s :: u32)) p"

definition babel_seqno :: "path_attributes \<Rightarrow> u16 option" where
  "babel_seqno p =
     (case pa_get p LrBabelSeqno of
        None \<Rightarrow> None
      | Some a \<Rightarrow>
          if length (pa_value a) \<noteq> 4 then None else Some (from_be_bytes (drop 2 (pa_value a))))"

definition set_babel_router_id :: "u64 \<Rightarrow> path_attributes \<Rightarrow> path_attributes" where
  "set_babel_router_id r p = put_private LrBabelRouterId (to_be_bytes 8 r) p"

definition babel_router_id :: "path_attributes \<Rightarrow> u64 option" where
  "babel_router_id p =
     (case pa_get p LrBabelRouterId of
        None \<Rightarrow> None
      | Some a \<Rightarrow> if length (pa_value a) \<noteq> 8 then None else Some (from_be_bytes (pa_value a)))"

definition set_igp_metric :: "u32 \<Rightarrow> path_attributes \<Rightarrow> path_attributes" where
  "set_igp_metric m p = put_private LrIgpMetric (to_be_bytes 4 m) p"

definition igp_metric :: "path_attributes \<Rightarrow> u32 option" where
  "igp_metric p = get_be_u32 LrIgpMetric p"

definition set_peer_source_address :: "ip_addr \<Rightarrow> path_attributes \<Rightarrow> path_attributes" where
  "set_peer_source_address a p =
     put_private LrPeerSourceAddress (case a of V4 b \<Rightarrow> b | V6 b \<Rightarrow> b) p"

definition peer_source_address :: "path_attributes \<Rightarrow> ip_addr option" where
  "peer_source_address p =
     (case pa_get p LrPeerSourceAddress of
        None \<Rightarrow> None
      | Some a \<Rightarrow>
          if length (pa_value a) = 4 then Some (V4 (pa_value a))
          else if length (pa_value a) = 16 then Some (V6 (pa_value a)) else None)"

definition read_family_prefix :: "bytes \<Rightarrow> nlri_family option" where
  "read_family_prefix v =
     (if length v < 3 then None else Some (NlriFamily (from_be_bytes (take 2 v)) (v ! 2)))"

section \<open>Conversions\<close>

definition to_attributes :: "path_attributes \<Rightarrow> attributes" where
  "to_attributes p =
     fold (\<lambda>a out. attrs_insert
       \<lparr>attr_tag = attr_type_to_u8 (pa_type a), attr_flags = pa_flags a, attr_value = pa_value a\<rparr> out) p []"

definition of_attributes :: "attributes \<Rightarrow> path_attributes" where
  "of_attributes m =
     fold (\<lambda>a out. pa_insert
       \<lparr>pa_flags = attr_flags a, pa_type = attr_type_from_u8 (attr_tag a), pa_value = attr_value a\<rparr> out)
       (map snd m) []"

section \<open>The set is a finite map\<close>

definition pa_inv :: "path_attributes \<Rightarrow> bool" where
  "pa_inv p \<longleftrightarrow> distinct (map pa_type p)"

definition pa_lookup :: "path_attributes \<Rightarrow> attr_type \<Rightarrow> (attr_flags \<times> bytes) option" where
  "pa_lookup p t = map_option (\<lambda>a. (pa_flags a, pa_value a)) (pa_get p t)"

definition pa_put :: "attr_type \<Rightarrow> attr_flags \<times> bytes \<Rightarrow> path_attributes \<Rightarrow> path_attributes" where
  "pa_put t v p = pa_insert \<lparr>pa_flags = fst v, pa_type = t, pa_value = snd v\<rparr> p"

definition pa_del :: "attr_type \<Rightarrow> path_attributes \<Rightarrow> path_attributes" where
  "pa_del t p = snd (pa_remove t p)"

lemma pa_get_insert [simp]: "pa_get (pa_insert a p) t = (if t = pa_type a then Some a else pa_get p t)"
  by (induction p) (auto simp: pa_get_def)

lemma types_pa_insert: "pa_type ` set (pa_insert a p) = insert (pa_type a) (pa_type ` set p)"
  by (induction p) auto

lemma pa_inv_insert: "pa_inv p \<Longrightarrow> pa_inv (pa_insert a p)"
  by (induction p) (auto simp: pa_inv_def types_pa_insert simp flip: image_iff dest: equalityD1)

lemma pa_get_Cons [simp]: "pa_get (x # p) t = (if pa_type x = t then Some x else pa_get p t)"
  by (simp add: pa_get_def)

lemma pa_get_Nil [simp]: "pa_get [] t = None"
  by (simp add: pa_get_def)

lemma pa_get_None: "pa_get p t = None \<longleftrightarrow> t \<notin> pa_type ` set p"
  by (induction p) auto

lemma types_pa_remove: "pa_type ` set (snd (pa_remove t p)) \<subseteq> pa_type ` set p"
  by (induction p) (auto simp: split_beta)

lemma pa_inv_remove: "pa_inv p \<Longrightarrow> pa_inv (snd (pa_remove t p))"
proof (induction p)
  case (Cons x p)
  then show ?case using types_pa_remove[of t p] by (auto simp: pa_inv_def split_beta)
qed simp

lemma pa_get_remove:
  "pa_inv p \<Longrightarrow> pa_get (snd (pa_remove t p)) t' = (if t' = t then None else pa_get p t')"
  by (induction p) (auto simp: pa_inv_def split_beta pa_get_None)

interpretation pattr: finite_map "[]" pa_lookup pa_put pa_del pa_inv
  by unfold_locales
    (auto simp: pa_lookup_def pa_put_def pa_del_def pa_get_remove pa_inv_remove pa_inv_insert,
     simp add: pa_inv_def)

section \<open>Type codes\<close>

lemma to_from_u8 [simp]: "attr_type_to_u8 (attr_type_from_u8 v) = v"
  by (simp add: attr_type_from_u8_def attr_codes_def)

definition canonical :: "attr_type \<Rightarrow> bool" where
  "canonical t \<longleftrightarrow> attr_type_from_u8 (attr_type_to_u8 t) = t"

lemma canonical_from_u8 [simp]: "canonical (attr_type_from_u8 v)"
  by (simp add: canonical_def)

lemma canonical_iff: "canonical t \<longleftrightarrow> (\<forall>v. t = AttrOther v \<longrightarrow> v \<notin> fst ` set attr_codes)"
  by (cases t) (auto simp: canonical_def attr_type_from_u8_def attr_codes_def)

lemma to_u8_eq: "canonical t \<Longrightarrow> canonical t' \<Longrightarrow> attr_type_to_u8 t = attr_type_to_u8 t' \<longleftrightarrow> t = t'"
  by (metis canonical_def)

section \<open>Converting back and forth\<close>

definition attrs_wf :: "attributes \<Rightarrow> bool" where
  "attrs_wf m \<longleftrightarrow> bt_inv m \<and> (\<forall>(k, a) \<in> set m. attr_tag a = k)"

definition pa_wf :: "path_attributes \<Rightarrow> bool" where
  "pa_wf p \<longleftrightarrow> pa_inv p \<and> (\<forall>a \<in> set p. canonical (pa_type a))"

abbreviation generic :: "path_attribute \<Rightarrow> attribute" where
  "generic a \<equiv>
     \<lparr>attr_tag = attr_type_to_u8 (pa_type a), attr_flags = pa_flags a, attr_value = pa_value a\<rparr>"

abbreviation typed :: "attribute \<Rightarrow> path_attribute" where
  "typed a \<equiv>
     \<lparr>pa_flags = attr_flags a, pa_type = attr_type_from_u8 (attr_tag a), pa_value = attr_value a\<rparr>"

lemma attrs_wf_insert: "attrs_wf m \<Longrightarrow> attrs_wf (attrs_insert a m)"
  using bt_put_values[of "attr_tag a" a m]
  by (auto simp: attrs_wf_def attrs_insert_def bt.inv_put)

lemma attrs_wf_to_attributes: "attrs_wf (to_attributes p)"
proof -
  have "attrs_wf m \<Longrightarrow> attrs_wf (fold (\<lambda>a. attrs_insert (generic a)) p m)" for m
    by (induction p arbitrary: m) (simp_all add: attrs_wf_insert)
  from this[of "[]"] show ?thesis by (simp add: to_attributes_def attrs_wf_def)
qed

lemma get_fold_generic:
  assumes "pa_wf p" and "bt_inv m"
  shows "bt_get (fold (\<lambda>a. attrs_insert (generic a)) p m) c =
    (case pa_get p (attr_type_from_u8 c) of Some a \<Rightarrow> Some (generic a) | None \<Rightarrow> bt_get m c)"
  using assms
proof (induction p arbitrary: m)
  case (Cons a p)
  have p: "pa_wf p" and a: "canonical (pa_type a)" "pa_get p (pa_type a) = None"
    using Cons.prems by (auto simp: pa_wf_def pa_inv_def pa_get_None)
  have c: "pa_type a = attr_type_from_u8 c \<longleftrightarrow> c = attr_type_to_u8 (pa_type a)"
    using a(1) by (auto simp: canonical_def)
  have "bt_inv (attrs_insert (generic a) m)"
    using Cons.prems by (simp add: attrs_insert_def bt.inv_put)
  from Cons.IH[OF p this] Cons.prems a c show ?case
    by (auto simp: attrs_insert_def bt.get_put split: option.split)
qed simp

lemma get_to_attributes:
  "pa_wf p \<Longrightarrow> bt_get (to_attributes p) c = map_option generic (pa_get p (attr_type_from_u8 c))"
  using get_fold_generic[of p "[]" c]
  by (simp add: to_attributes_def bt_get_map_of split: option.split)

lemma get_fold_typed:
  assumes "distinct (map attr_tag as)"
  shows "pa_get (fold (\<lambda>a. pa_insert (typed a)) as p) t =
    (case find (\<lambda>a. attr_type_from_u8 (attr_tag a) = t) as of
       Some a \<Rightarrow> Some (typed a) | None \<Rightarrow> pa_get p t)"
  using assms
proof (induction as arbitrary: p)
  case (Cons a as)
  have "find (\<lambda>b. attr_type_from_u8 (attr_tag b) = attr_type_from_u8 (attr_tag a)) as = None"
    using Cons.prems by (auto simp: find_None_iff image_iff dest!: arg_cong[of _ _ attr_type_to_u8])
  with Cons show ?case by (auto split: option.split)
qed simp

lemma find_tag:
  assumes "attrs_wf m" and "canonical t"
  shows "find (\<lambda>a. attr_type_from_u8 (attr_tag a) = t) (map snd m) = bt_get m (attr_type_to_u8 t)"
proof -
  have "attr_type_from_u8 c = t \<longleftrightarrow> c = attr_type_to_u8 t" for c
    using assms(2) by (auto simp: canonical_def)
  moreover have "\<forall>(k, a) \<in> set m. attr_tag a = k" using assms(1) by (simp add: attrs_wf_def)
  ultimately show ?thesis by (induction m) auto
qed

lemma get_of_attributes:
  assumes "attrs_wf m" and "canonical t"
  shows "pa_get (of_attributes m) t = map_option typed (bt_get m (attr_type_to_u8 t))"
proof -
  have "map attr_tag (map snd m) = map fst m"
    using assms(1) by (auto simp: attrs_wf_def)
  moreover have "distinct (map fst m)"
    using assms(1) by (simp add: attrs_wf_def bt_inv_distinct)
  ultimately have "distinct (map attr_tag (map snd m))" by (simp only:)
  from get_fold_typed[OF this, of "[]" t] find_tag[OF assms] show ?thesis
    by (simp add: of_attributes_def split: option.split)
qed

lemma pa_wf_of_attributes: "pa_wf (of_attributes m)"
proof -
  have "pa_wf p \<Longrightarrow> pa_wf (fold (\<lambda>a. pa_insert (typed a)) as p)" for p as
  proof (induction as arbitrary: p)
    case (Cons a as)
    have "set (pa_insert (typed a) p) \<subseteq> insert (typed a) (set p)"
      by (induction p) auto
    then have "pa_wf (pa_insert (typed a) p)"
      using Cons.prems by (auto simp: pa_wf_def pa_inv_insert)
    with Cons.IH show ?case by simp
  qed simp
  from this[of "[]"] show ?thesis by (simp add: of_attributes_def pa_wf_def pa_inv_def)
qed

lemma bt_ext:
  assumes "bt_inv m" "bt_inv m'" "\<And>k. bt_get m k = bt_get m' k"
  shows "m = m'"
proof -
  have "set m = set m'"
    using assms bt_get_in by (metis (no_types, opaque_lifting) subrelI subset_antisym)
  moreover have "sorted (map fst m)" "sorted (map fst m')"
    using assms(1,2) by (auto simp: bt_inv_def strict_sorted_imp_sorted)
  ultimately show ?thesis
    using assms bt_inv_distinct map_sorted_distinct_set_unique[of fst m m']
    by (metis distinct_map inj_on_Un sup.idem)
qed

lemma communities_insert:
  "pa_type a = Communities \<Longrightarrow> pa_communities (pa_insert a p) = community_decode_set (pa_value a)"
  by (simp add: pa_communities_def pa_value_of_def)

lemma community_round: "community_decode_set (community_encode_set cs) = cs"
  using be32.decode_encode_set[of cs] by (simp add: community_decode_set_def community_encode_set_def)

lemma low_bytes: "drop 2 (to_be_bytes 4 (ucast q :: u32)) = to_be_bytes 2 (q :: u16)"
proof -
  have "ucast (drop_bit 8 (ucast q :: u32)) = (ucast (drop_bit 8 q) :: u8)"
    "ucast (ucast q :: u32) = (ucast q :: u8)"
    by (auto intro!: bit_word_eqI simp: bit_simps)
  then show ?thesis by (simp add: to_be_bytes_def upt_rec)
qed

section \<open>Properties\<close>

text \<open>
  C36.  The two attribute containers carry the same information: converting a generic attribute set to
  path attributes and back is the identity, and converting path attributes to the generic set and back
  keeps every lookup.
\<close>

theorem attributes_conversion:
  assumes "attrs_wf m" and "pa_wf p"
  shows "to_attributes (of_attributes m) = m \<and>
    (\<forall>t. canonical t \<longrightarrow> pa_get (of_attributes (to_attributes p)) t = pa_get p t)"
proof (intro conjI allI impI)
  show "to_attributes (of_attributes m) = m"
  proof (rule bt_ext)
    show "bt_inv (to_attributes (of_attributes m))" "bt_inv m"
      using attrs_wf_to_attributes assms(1) by (auto simp: attrs_wf_def)
    fix k
    have "bt_get m k = Some a \<Longrightarrow> attr_tag a = k" for a
      using assms(1) bt_get_in[of m k a] by (auto simp: attrs_wf_def)
    then show "bt_get (to_attributes (of_attributes m)) k = bt_get m k"
      by (cases "bt_get m k")
        (simp_all add: get_to_attributes pa_wf_of_attributes get_of_attributes assms(1))
  qed
  fix t assume t: "canonical t"
  have "pa_get p t = Some a \<Longrightarrow> pa_type a = t" for a by (induction p) (auto split: if_splits)
  with t show "pa_get (of_attributes (to_attributes p)) t = pa_get p t"
    by (cases "pa_get p t")
      (simp_all add: get_of_attributes attrs_wf_to_attributes get_to_attributes assms(2) canonical_def)
qed

definition sample_attributes :: path_attributes where
  "sample_attributes =
     set_local_pref 200 (set_peer_source_address (V4 [10, 0, 0, 1]) (insert_community LLGR_STALE []))"

theorem attributes_conversion_witness:
  "to_attributes (of_attributes (to_attributes sample_attributes)) = to_attributes sample_attributes \<and>
   pa_get (of_attributes (to_attributes sample_attributes)) Communities =
     pa_get sample_attributes Communities"
proof -
  have "pa_wf sample_attributes"
    by (simp add: sample_attributes_def set_local_pref_def set_peer_source_address_def put_private_def
        insert_community_def pa_communities_def pa_value_of_def pa_wf_def pa_inv_def canonical_iff)
  moreover have "canonical Communities" by (simp add: canonical_iff)
  ultimately show ?thesis
    using attributes_conversion[OF attrs_wf_to_attributes[of sample_attributes]] by blast
qed

text \<open>
  Each private setter is read back by its accessor, the metric of a type-2 external route cut to
  24 bits, and none of them changes any other attribute; adding a community keeps the others.
\<close>

theorem private_attributes_roundtrip:
  assumes "ip_wf a" and "s \<noteq> []" and "list_all label_wf s"
  shows "peer_source_address (set_peer_source_address a p) = Some a \<and>
    get_label_stack (set_label_stack s p) = Some s \<and>
    ospf_metric2 (set_ospf_metric2 m p) = Some (m AND 0x00ffffff) \<and>
    ospf_router_id (set_ospf_router_id m p) = Some m \<and>
    babel_seqno (set_babel_seqno q p) = Some q \<and>
    babel_router_id (set_babel_router_id r p) = Some r \<and>
    igp_metric (set_igp_metric m p) = Some m \<and>
    pa_local_pref (set_local_pref m p) = Some m \<and>
    set (pa_communities (insert_community c p)) = insert c (set (pa_communities p)) \<and>
    (\<forall>t. t \<noteq> LrIgpMetric \<longrightarrow> pa_get (set_igp_metric m p) t = pa_get p t)"
proof -
  have "get_label_stack (set_label_stack s p) = Some s"
    using assms(2,3) by (simp add: get_label_stack_def set_label_stack_def put_private_def stack_round)
  moreover have "peer_source_address (set_peer_source_address a p) = Some a"
    using assms(1)
    by (cases a) (simp_all add: peer_source_address_def set_peer_source_address_def put_private_def)
  moreover have "babel_seqno (set_babel_seqno q p) = Some q"
    by (simp add: babel_seqno_def set_babel_seqno_def put_private_def low_bytes)
  moreover have "set (pa_communities (insert_community c p)) = insert c (set (pa_communities p))"
    by (auto simp: insert_community_def communities_insert community_round)
  ultimately show ?thesis
    by (simp add: ospf_metric2_def set_ospf_metric2_def ospf_router_id_def set_ospf_router_id_def
        babel_router_id_def set_babel_router_id_def igp_metric_def set_igp_metric_def get_be_u32_def
        put_private_def pa_local_pref_def set_local_pref_def pa_value_of_def)
qed

theorem private_attributes_roundtrip_witness:
  "peer_source_address (set_peer_source_address (V4 [10, 0, 0, 1]) sample_attributes) =
     Some (V4 [10, 0, 0, 1]) \<and>
   get_label_stack (set_label_stack [label_new 16] sample_attributes) = Some [label_new 16]"
  using private_attributes_roundtrip[of "V4 [10, 0, 0, 1]" "[label_new 16]" sample_attributes]
  by (simp add: label_wf_def label_new_def MAX_VALUE_def)

end
