(* ===== verification/LR_BestPath.thy ===== *)
theory LR_BestPath
  imports LR_PathAttr
begin

text \<open>
  The BGP decision process, \<open>crates/lr-bgp/src/best_path/mod.rs\<close>: the configurable comparison of two
  routes, selection, full ranking and multipath extraction.
\<close>

section \<open>Configuration\<close>

record best_path_config =
  always_compare_med :: bool
  missing_med_as_infinity :: bool
  deterministic_router_id :: bool
  prefer_externals :: bool
  count_confed_in_path_len :: bool
  multipath :: u32
  multipath_relax :: bool
  graceful_shutdown_least_preferred :: bool
  compare_igp_metric :: bool
  prefer_next_hop_self :: bool

definition default_config :: best_path_config where
  "default_config =
     \<lparr>always_compare_med = False, missing_med_as_infinity = False, deterministic_router_id = True,
      prefer_externals = True, count_confed_in_path_len = False, multipath = 1,
      multipath_relax = False, graceful_shutdown_least_preferred = True, compare_igp_metric = True,
      prefer_next_hop_self = True\<rparr>"

section \<open>The steps\<close>

definition path_attrs :: "route \<Rightarrow> path_attributes" where
  "path_attrs r = of_attributes (attributes r)"

definition as_path_len :: "best_path_config \<Rightarrow> as_path \<Rightarrow> nat" where
  "as_path_len cfg p = (if count_confed_in_path_len cfg then length_with_confed p else as_path_length p)"

definition is_llgr_stale :: "path_attributes \<Rightarrow> bool" where
  "is_llgr_stale p = has_community p LLGR_STALE"

definition is_graceful_shutdown :: "path_attributes \<Rightarrow> bool" where
  "is_graceful_shutdown p = has_community p GRACEFUL_SHUTDOWN"

definition first_as :: "route \<Rightarrow> u32 option" where
  "first_as r =
     (case pa_as_path (path_attrs r) of
        Some (s # _) \<Rightarrow> (case ases s of a # _ \<Rightarrow> Some a | [] \<Rightarrow> None)
      | _ \<Rightarrow> None)"

definition same_neighbor :: "route \<Rightarrow> route \<Rightarrow> bool" where
  "same_neighbor a b \<longleftrightarrow> first_as a = first_as b"

definition best_originator_id :: "path_attributes \<Rightarrow> u32" where
  "best_originator_id p =
     (case pa_get p OriginatorId of
        Some a \<Rightarrow> if length (pa_value a) = 4 then from_be_bytes (pa_value a) else 0
      | None \<Rightarrow> 0)"

definition cluster_list_len :: "path_attributes \<Rightarrow> nat" where
  "cluster_list_len p =
     (case pa_get p ClusterList of Some a \<Rightarrow> length (pa_value a) div 4 | None \<Rightarrow> 0)"

definition internal :: "route \<Rightarrow> bool" where
  "internal r \<longleftrightarrow> route_protocol r = Bgp \<and> proto (origin r) = 1"

definition local_pref_of :: "route \<Rightarrow> u32" where
  "local_pref_of r =
     (if internal r then (case pa_local_pref (path_attrs r) of Some v \<Rightarrow> v | None \<Rightarrow> 100) else 100)"

definition path_len_of :: "best_path_config \<Rightarrow> route \<Rightarrow> nat" where
  "path_len_of cfg r = (case pa_as_path (path_attrs r) of Some p \<Rightarrow> as_path_len cfg p | None \<Rightarrow> 0)"

definition origin_of :: "route \<Rightarrow> u8" where
  "origin_of r = (case pa_origin (path_attrs r) of Some k \<Rightarrow> origin_kind_u8 k | None \<Rightarrow> 2)"

definition med_of :: "best_path_config \<Rightarrow> route \<Rightarrow> u32" where
  "med_of cfg r =
     (case pa_med (path_attrs r) of
        Some m \<Rightarrow> m | None \<Rightarrow> if missing_med_as_infinity cfg then - 1 else 0)"

definition igp_of :: "route \<Rightarrow> u32" where
  "igp_of r = (case igp_metric (path_attrs r) of Some m \<Rightarrow> m | None \<Rightarrow> - 1)"

definition next_hop_matches :: "route \<Rightarrow> bool" where
  "next_hop_matches r =
     (case next_hop r of Some nh \<Rightarrow> peer_source_address (path_attrs r) = Some nh | None \<Rightarrow> False)"

text \<open>The route with the mark loses; a tie when both or neither have it.\<close>

definition marked_loses :: "bool \<Rightarrow> bool \<Rightarrow> ordering" where
  "marked_loses a b = (if a \<noteq> b then (if a then Greater else Less) else Equal)"

text \<open>\<open>if enabled { step; if cmp != Equal { return cmp; } }\<close>\<close>

definition step_if :: "bool \<Rightarrow> ordering \<Rightarrow> ordering" where
  "step_if enabled c = (if enabled then c else Equal)"

text \<open>The steps the two comparisons share, up to the preference for the peer's own next hop.\<close>

definition compare_major :: "route \<Rightarrow> route \<Rightarrow> best_path_config \<Rightarrow> ordering" where
  "compare_major a b cfg =
     then_cmp (marked_loses (is_llgr_stale (path_attrs a)) (is_llgr_stale (path_attrs b)))
    (then_cmp (step_if (graceful_shutdown_least_preferred cfg)
        (marked_loses (is_graceful_shutdown (path_attrs a)) (is_graceful_shutdown (path_attrs b))))
    (then_cmp (cmp (local_pref_of b) (local_pref_of a))
    (then_cmp (cmp (path_len_of cfg a) (path_len_of cfg b))
    (then_cmp (cmp (origin_of a) (origin_of b))
    (then_cmp (step_if (always_compare_med cfg \<or> same_neighbor a b) (cmp (med_of cfg a) (med_of cfg b)))
    (then_cmp (step_if (prefer_externals cfg) (marked_loses (internal a) (internal b)))
    (then_cmp (step_if (compare_igp_metric cfg) (cmp (igp_of a) (igp_of b)))
     (step_if (prefer_next_hop_self cfg) (marked_loses (next_hop_matches b) (next_hop_matches a))))))))))"

definition compare_multipath :: "route \<Rightarrow> route \<Rightarrow> best_path_config \<Rightarrow> ordering" where
  "compare_multipath a b cfg =
     then_cmp (compare_major a b cfg)
    (then_cmp (step_if (deterministic_router_id cfg)
        (cmp (best_originator_id (path_attrs a)) (best_originator_id (path_attrs b))))
     (cmp (cluster_list_len (path_attrs a)) (cluster_list_len (path_attrs b))))"

definition compare :: "route \<Rightarrow> route \<Rightarrow> best_path_config \<Rightarrow> ordering" where
  "compare a b cfg =
     then_cmp (compare_major a b cfg)
    (then_cmp
       (if deterministic_router_id cfg
        then cmp (best_originator_id (path_attrs a)) (best_originator_id (path_attrs b))
        else cmp (age_ms a) (age_ms b))
    (then_cmp (cmp (cluster_list_len (path_attrs a)) (cluster_list_len (path_attrs b)))
     (cmp (peer (origin a)) (peer (origin b)))))"

section \<open>Selection, ranking, multipath\<close>

definition best_select :: "route list \<Rightarrow> best_path_config \<Rightarrow> route option" where
  "best_select rs cfg = min_by (\<lambda>a b. compare a b cfg) rs"

definition rank :: "route list \<Rightarrow> best_path_config \<Rightarrow> route list" where
  "rank rs cfg = sort_by (\<lambda>a b. compare a b cfg) rs"

fun multipath_loop :: "best_path_config \<Rightarrow> route \<Rightarrow> route list \<Rightarrow> route list \<Rightarrow> route list" where
  "multipath_loop cfg best out [] = out"
| "multipath_loop cfg best out (r # rs) =
     (if compare_multipath r best cfg = Equal \<and> (multipath_relax cfg \<or> same_neighbor r best) then
        let out' = out @ [r]
        in if (of_nat (length out') :: u32) \<ge> multipath cfg then out'
           else multipath_loop cfg best out' rs
      else multipath_loop cfg best out rs)"

definition best_multipath :: "route list \<Rightarrow> best_path_config \<Rightarrow> route list option" where
  "best_multipath rs cfg =
     (case best_select rs cfg of
        None \<Rightarrow> None
      | Some best \<Rightarrow>
          if multipath cfg \<le> 1 then Some [best]
          else let out = multipath_loop cfg best [] rs in Some (if out = [] then [best] else out))"

section \<open>The order behind the comparison\<close>

definition lp_rank :: "route \<Rightarrow> nat" where
  "lp_rank r = 2 ^ 32 - unat (local_pref_of r)"

lemma cmp_lp_rank: "cmp (lp_rank a) (lp_rank b) = cmp (local_pref_of b) (local_pref_of a)"
proof -
  have lt: "unat (local_pref_of r) < 2 ^ 32" for r
    using unsigned_less[of "local_pref_of r", where ?'a = nat] by simp
  have "2 ^ 32 - unat (local_pref_of a) < 2 ^ 32 - unat (local_pref_of b) \<longleftrightarrow>
      unat (local_pref_of b) < unat (local_pref_of a)" for a b
    using lt[of a] lt[of b] by linarith
  moreover have "2 ^ 32 - unat (local_pref_of a) = 2 ^ 32 - unat (local_pref_of b) \<longleftrightarrow>
      unat (local_pref_of b) = unat (local_pref_of a)"
    using lt[of a] lt[of b] by linarith
  ultimately show ?thesis by (simp only: cmp_def lp_rank_def word_less_nat_alt word_unat_eq_iff)
qed

lemma marked_loses_cmp: "marked_loses a b = cmp a b"
  by (cases a; cases b) (simp_all add: marked_loses_def cmp_def)

lemma step_if_cmp: "step_if e (cmp x y) = cmp (if e then x else z) (if e then y else z)"
  by (simp add: step_if_def)

text \<open>What is compared before the MED step, and after it.\<close>

definition premed_key :: "best_path_config \<Rightarrow> route \<Rightarrow> bool \<times> bool \<times> nat \<times> nat \<times> u8" where
  "premed_key cfg r =
     (is_llgr_stale (path_attrs r),
      (if graceful_shutdown_least_preferred cfg then is_graceful_shutdown (path_attrs r) else False),
      lp_rank r, path_len_of cfg r, origin_of r)"

definition postmed_key ::
  "best_path_config \<Rightarrow> route \<Rightarrow> bool \<times> u32 \<times> bool \<times> u32 \<times> u64 \<times> nat \<times> u64" where
  "postmed_key cfg r =
     ((if prefer_externals cfg then internal r else False),
      (if compare_igp_metric cfg then igp_of r else 0),
      (if prefer_next_hop_self cfg then \<not> next_hop_matches r else False),
      (if deterministic_router_id cfg then best_originator_id (path_attrs r) else 0),
      (if deterministic_router_id cfg then 0 else age_ms r),
      cluster_list_len (path_attrs r), peer (origin r))"

lemma then_cmp_assoc: "then_cmp (then_cmp a b) c = then_cmp a (then_cmp b c)"
  by (simp add: then_cmp_def)

lemma cmp_Not: "cmp (\<not> a) (\<not> b) = cmp b a"
  by (cases a; cases b) (simp_all add: cmp_def)

lemma next_hop_step:
  "step_if e (cmp y x) = cmp (if e then \<not> x else False) (if e then \<not> y else False)"
  by (cases e) (simp_all add: step_if_def cmp_Not)

lemma then_cmp_Equal [simp]: "then_cmp c Equal = c"
  by (cases c) (simp_all add: then_cmp_def)

lemma router_id_step:
  "(if d then cmp x y else cmp x' y') =
     then_cmp (cmp (if d then x else 0) (if d then y else 0)) (cmp (if d then 0 else x') (if d then 0 else y'))"
  for x y :: u32 and x' y' :: u64
  by (cases d) simp_all

lemma compare_keys:
  "compare a b cfg =
     then_cmp (cmp (premed_key cfg a) (premed_key cfg b))
    (then_cmp (step_if (always_compare_med cfg \<or> same_neighbor a b) (cmp (med_of cfg a) (med_of cfg b)))
     (cmp (postmed_key cfg a) (postmed_key cfg b)))"
  unfolding compare_def compare_major_def premed_key_def postmed_key_def cmp_pair cmp_lp_rank
    marked_loses_cmp router_id_step then_cmp_assoc
    next_hop_step[of "prefer_next_hop_self cfg"]
    step_if_cmp[of "graceful_shutdown_least_preferred cfg", where z = False]
    step_if_cmp[of "prefer_externals cfg", where z = False]
    step_if_cmp[of "compare_igp_metric cfg", where z = "0 :: u32"]
  ..

definition full_key :: "best_path_config \<Rightarrow> route \<Rightarrow> _" where
  "full_key cfg r = (premed_key cfg r, (if always_compare_med cfg then med_of cfg r else 0), postmed_key cfg r)"

lemma compare_full_key:
  assumes "always_compare_med cfg"
  shows "compare a b cfg = cmp (full_key cfg a) (full_key cfg b)"
  using assms by (simp add: compare_keys full_key_def cmp_pair step_if_def)

interpretation med: key_comparator
  "\<lambda>a b. compare a b (cfg\<lparr>always_compare_med := True\<rparr>)"
  "full_key (cfg\<lparr>always_compare_med := True\<rparr>)" for cfg
  by unfold_locales (simp add: compare_full_key)

text \<open>
  A comparison that starts with a key: selection minimises that key whatever the later steps do, even
  when they are not transitive.
\<close>

locale prefix_comparator =
  fixes c :: "'a \<Rightarrow> 'a \<Rightarrow> ordering" and k :: "'a \<Rightarrow> 'k::linorder" and d :: "'a \<Rightarrow> 'a \<Rightarrow> ordering"
  assumes prefix: "c x y = then_cmp (cmp (k x) (k y)) (d x y)"
begin

lemma keep_or_less: "k (if c x y = Greater then y else x) \<le> min (k x) (k y)"
  by (cases "k x" "k y" rule: linorder_cases) (auto simp: prefix cmp_def then_cmp_def)

lemma foldl_prefix:
  "z \<in> insert x (set xs) \<Longrightarrow> k (foldl (\<lambda>m y. if c m y = Greater then y else m) x xs) \<le> k z"
proof (induction xs arbitrary: x z)
  case (Cons y ys)
  let ?x = "if c x y = Greater then y else x"
  have "k ?x \<le> k x" "k ?x \<le> k y" using keep_or_less[of x y] by (simp_all del: if_split)
  moreover have "k (foldl (\<lambda>m y. if c m y = Greater then y else m) ?x ys) \<le> k ?x"
    by (rule Cons.IH) simp
  ultimately show ?case
    using Cons.prems Cons.IH[of z ?x] by (auto simp del: if_split)
qed simp

lemma min_by_prefix: "min_by c xs = Some m \<Longrightarrow> x \<in> set xs \<Longrightarrow> k m \<le> k x"
  using foldl_prefix by (cases xs) auto

end

interpretation premed: prefix_comparator "\<lambda>a b. compare a b cfg" "premed_key cfg"
  "\<lambda>a b. then_cmp (step_if (always_compare_med cfg \<or> same_neighbor a b) (cmp (med_of cfg a) (med_of cfg b)))
     (cmp (postmed_key cfg a) (postmed_key cfg b))" for cfg
  by unfold_locales (rule compare_keys)

lemma min_by_cong:
  assumes "\<And>x y. x \<in> set xs \<Longrightarrow> y \<in> set xs \<Longrightarrow> c x y = c' x y"
  shows "min_by c xs = min_by c' xs"
proof (cases xs)
  case (Cons x ys)
  have "set (z # zs) \<subseteq> set xs \<Longrightarrow>
      foldl (\<lambda>m y. if c m y = Greater then y else m) z zs =
      foldl (\<lambda>m y. if c' m y = Greater then y else m) z zs" for z zs
    by (induction zs arbitrary: z) (auto simp: assms)
  from this[of x ys] Cons show ?thesis by (simp add: set_subset_Cons)
qed simp

lemma sort_by_cong:
  assumes "\<And>x y. x \<in> set xs \<Longrightarrow> y \<in> set xs \<Longrightarrow> c x y = c' x y"
  shows "sort_by c xs = sort_by c' xs"
  using assms
proof (induction xs)
  case (Cons x xs)
  have "set ys \<subseteq> set xs \<Longrightarrow> insert_by c x ys = insert_by c' x ys" for ys
    by (induction ys) (auto simp: Cons.prems)
  with Cons show ?case by simp
qed simp

lemma compare_same_neighbor:
  assumes "always_compare_med cfg \<or> same_neighbor a b"
  shows "compare a b cfg = compare a b (cfg\<lparr>always_compare_med := True\<rparr>)"
proof -
  have "premed_key (cfg\<lparr>always_compare_med := True\<rparr>) r = premed_key cfg r"
    "postmed_key (cfg\<lparr>always_compare_med := True\<rparr>) r = postmed_key cfg r"
    "med_of (cfg\<lparr>always_compare_med := True\<rparr>) r = med_of cfg r" for r
    by (simp_all add: premed_key_def postmed_key_def med_of_def path_len_of_def as_path_len_def
        split: option.split)
  with assms show ?thesis by (simp add: compare_keys step_if_def)
qed

lemma compare_multipath_refl: "compare_multipath r r cfg = Equal"
  by (simp add: compare_multipath_def compare_major_def marked_loses_def step_if_def)

lemma multipath_loop_sound:
  "r \<in> set (multipath_loop cfg best out rs) \<Longrightarrow>
     r \<in> set out \<or> r \<in> set rs \<and> compare_multipath r best cfg = Equal \<and>
       (multipath_relax cfg \<or> same_neighbor r best)"
proof (induction rs arbitrary: out)
  case (Cons a rs)
  then show ?case
    using Cons.IH[of "out @ [a]"] Cons.IH[of out] by (auto simp: Let_def split: if_splits)
qed simp

lemma multipath_loop_length:
  assumes "length out < unat (multipath cfg)"
  shows "length (multipath_loop cfg best out rs) \<le> unat (multipath cfg)"
  using assms
proof (induction rs arbitrary: out)
  case (Cons r rs)
  have "unat (multipath cfg) < 2 ^ LENGTH(32)" by (rule unsigned_less)
  then have "unat (of_nat (Suc (length out)) :: u32) = Suc (length out)"
    using Cons.prems by (simp add: unat_of_nat del: of_nat_Suc)
  then have "(of_nat (Suc (length out)) :: u32) \<ge> multipath cfg \<longleftrightarrow> unat (multipath cfg) \<le> Suc (length out)"
    by (simp only: word_le_nat_alt)
  with Cons show ?case by (simp add: Let_def del: of_nat_Suc)
qed simp

lemma multipath_loop_extends: "set out \<subseteq> set (multipath_loop cfg best out rs)"
proof (induction rs arbitrary: out)
  case (Cons r rs)
  have "set out \<subseteq> set (multipath_loop cfg best (out @ [r]) rs)"
    using Cons.IH[of "out @ [r]"] by simp
  with Cons.IH[of out] show ?case by (simp add: Let_def subset_insertI2)
qed simp

lemma multipath_loop_nonempty:
  "best \<in> set rs \<Longrightarrow> multipath_loop cfg best out rs \<noteq> []"
proof (induction rs arbitrary: out)
  case (Cons r rs)
  then show ?case
    using multipath_loop_extends[of "out @ [r]" cfg best rs]
    by (auto simp: Let_def compare_multipath_refl same_neighbor_def)
qed simp

text \<open>Of several least elements \<open>min_by\<close> selects the first.\<close>

context comparator
begin

lemma min_by_add: "min_by c xs = Some m \<Longrightarrow> min_by c (xs @ [y]) = Some (if c m y = Greater then y else m)"
  by (cases xs) auto

lemma min_by_first: "min_by c xs = Some m \<Longrightarrow> hd (filter (\<lambda>r. c m r = Equal) xs) = m"
proof (induction xs arbitrary: m rule: rev_induct)
  case (snoc y xs)
  show ?case
  proof (cases "min_by c xs")
    case None
    then have "xs = []" by (cases xs) auto
    then show ?thesis using snoc.prems by (simp add: refl)
  next
    case (Some n)
    have m: "m = (if c n y = Greater then y else n)" using min_by_add[OF Some, of y] snoc.prems by simp
    show ?thesis
    proof (cases "c n y = Greater")
      case True
      have "c y x \<noteq> Equal" if "x \<in> set xs" for x
        using trans[OF min_by_least[OF Some that], of y] swap[of x y] True by auto
      then have "filter (\<lambda>r. c y r = Equal) xs = []" by (simp add: filter_empty_conv)
      then show ?thesis using m True by (simp add: refl)
    next
      case False
      have "filter (\<lambda>r. c n r = Equal) xs \<noteq> []" using min_by_in_set[OF Some] refl[of n] by (auto simp: filter_empty_conv)
      then show ?thesis using m False snoc.IH[OF Some] by simp
    qed
  qed
qed simp

end

lemma compare_Equal_peer: "compare a b cfg = Equal \<Longrightarrow> peer (origin a) = peer (origin b)"
  by (auto simp: compare_def then_cmp_def split: if_split_asm)

section \<open>Properties\<close>

text \<open>
  C3.  When MED is always compared, or all candidates come from the same neighbouring AS, the decision
  process is a total preorder: the selected route loses to no candidate, and the ranking is sorted and starts with
  the selected route.  When no two candidates come from the same peer, the selected route does not depend on the order of
  the candidates.  In general routes selected in two orders tie on every step and come from one
  peer; of the routes that tie with it, the selected one is the first candidate.
\<close>

theorem select_deterministic:
  assumes "always_compare_med cfg \<or> (\<forall>a \<in> set rs. \<forall>b \<in> set rs. same_neighbor a b)"
    and "set rs' = set rs" and "rs \<noteq> []"
  shows "\<exists>m m'. best_select rs cfg = Some m \<and> best_select rs' cfg = Some m' \<and>
    (inj_on (\<lambda>r. peer (origin r)) (set rs) \<longrightarrow> m' = m) \<and>
    compare m m' cfg = Equal \<and> peer (origin m) = peer (origin m') \<and>
    hd (filter (\<lambda>r. compare m r cfg = Equal) rs) = m \<and>
    (\<forall>r \<in> set rs. compare m r cfg \<noteq> Greater) \<and> hd (rank rs cfg) = m \<and>
    sorted_wrt (\<lambda>a b. compare a b cfg \<noteq> Greater) (rank rs cfg)"
proof -
  let ?c = "\<lambda>a b. compare a b cfg" and ?d = "\<lambda>a b. compare a b (cfg\<lparr>always_compare_med := True\<rparr>)"
  have eq: "?c a b = ?d a b" if "a \<in> set rs" "b \<in> set rs" for a b
    using assms(1) that by (intro compare_same_neighbor) blast
  have sel: "best_select rs cfg = min_by ?d rs" "best_select rs' cfg = min_by ?d rs'"
    "rank rs cfg = sort_by ?d rs"
    using eq assms(2) unfolding best_select_def rank_def by (auto intro!: min_by_cong sort_by_cong)
  obtain m m' where m: "min_by ?d rs = Some m" "min_by ?d rs' = Some m'"
    using assms(2,3) by (cases rs; cases rs') auto
  have in_rs: "m \<in> set rs" "m' \<in> set rs" using min_by_in_set m assms(2) by metis+
  have "?d m m' = Equal" using med.min_by_unique[OF m] assms(2) by simp
  then have tie: "?c m m' = Equal" using eq in_rs by simp
  have "filter (\<lambda>r. ?c m r = Equal) rs = filter (\<lambda>r. ?d m r = Equal) rs" using eq in_rs by (intro filter_cong) auto
  then have first: "hd (filter (\<lambda>r. ?c m r = Equal) rs) = m" using med.min_by_first[OF m(1)] by simp
  have "sorted_wrt (\<lambda>a b. ?c a b \<noteq> Greater) (rank rs cfg)"
    unfolding sel by (rule sorted_wrt_mono_rel[OF _ med.sorted_sort_by[of cfg rs]]) (simp add: eq)
  moreover have "inj_on (\<lambda>r. peer (origin r)) (set rs) \<longrightarrow> m' = m"
    using compare_Equal_peer[OF tie] in_rs by (auto dest: inj_onD)
  moreover have "\<forall>r \<in> set rs. ?c m r \<noteq> Greater" using med.min_by_least[OF m(1)] eq in_rs by auto
  moreover have "hd (rank rs cfg) = m" using med.hd_sort_by[OF assms(3), of cfg] m(1) sel by simp
  ultimately show ?thesis
    using m sel tie first compare_Equal_peer[OF tie] by (intro exI[of _ m] exI[of _ m']) simp
qed

text \<open>A route from neighbour \<open>nb\<close> with a MED and an originator, for the examples.\<close>

definition bgp_route :: "u32 \<Rightarrow> u32 \<Rightarrow> u32 \<Rightarrow> route" where
  "bgp_route nb m rid =
     (sample_route 0)\<lparr>attributes := to_attributes
        [\<lparr>pa_flags = 0x40, pa_type = AsPath, pa_value = encode_4 (from_sequence [nb])\<rparr>,
         \<lparr>pa_flags = 0x80, pa_type = MultiExitDisc, pa_value = med_encode m\<rparr>,
         \<lparr>pa_flags = 0x80, pa_type = OriginatorId, pa_value = originator_id_encode rid\<rparr>]\<rparr>"

lemma sample_compare:
  "compare (bgp_route 65001 10 1) (bgp_route 65002 0 2) default_config = Less"
  "compare (bgp_route 65002 0 2) (bgp_route 65001 5 3) default_config = Less"
  "compare (bgp_route 65001 5 3) (bgp_route 65001 10 1) default_config = Less"
  "compare (bgp_route 65001 10 1) (bgp_route 65001 5 3) default_config = Greater"
  "compare (bgp_route 65002 0 2) (bgp_route 65001 10 1) default_config = Greater"
  by code_simp+

lemma sample_neighbor: "same_neighbor (bgp_route 65001 5 3) (bgp_route 65001 10 1)"
  by code_simp

theorem select_deterministic_witness:
  "best_select [bgp_route 65001 5 3, (bgp_route 65001 5 3)\<lparr>origin := RouteOrigin 1 9\<rparr>] default_config =
   best_select [(bgp_route 65001 5 3)\<lparr>origin := RouteOrigin 1 9\<rparr>, bgp_route 65001 5 3] default_config"
proof -
  let ?a = "bgp_route 65001 5 3" and ?b = "(bgp_route 65001 5 3)\<lparr>origin := RouteOrigin 1 9\<rparr>"
  have n: "same_neighbor ?a ?b" "same_neighbor ?b ?a" by code_simp+
  have p: "peer (origin ?a) \<noteq> peer (origin ?b)" by (simp add: bgp_route_def sample_route_def)
  have inj: "inj_on (\<lambda>r. peer (origin r)) (set [?a, ?b])" using p by (auto simp: inj_on_def)
  have c: "always_compare_med default_config \<or> (\<forall>x \<in> set [?a, ?b]. \<forall>y \<in> set [?a, ?b]. same_neighbor x y)"
    using n by (simp add: same_neighbor_def)
  have s: "set [?b, ?a] = set [?a, ?b]" "[?a, ?b] \<noteq> []" by auto
  obtain m m' where "best_select [?a, ?b] default_config = Some m" "best_select [?b, ?a] default_config = Some m'"
    "inj_on (\<lambda>r. peer (origin r)) (set [?a, ?b]) \<longrightarrow> m' = m"
    using select_deterministic[OF c s] by blast
  with inj show ?thesis by simp
qed

text \<open>
  C22.  Under every configuration, the selected route is least in the steps before MED: a long-lived
  stale route or a route in graceful shutdown is selected only when every candidate is one, and no
  candidate that ties on those has a higher LOCAL_PREF, or with equal LOCAL_PREF a shorter AS path, or
  with both equal a lower ORIGIN.
\<close>

theorem select_least_before_med:
  assumes "best_select rs cfg = Some m" and "r \<in> set rs"
  shows "(is_llgr_stale (path_attrs m),
      graceful_shutdown_least_preferred cfg \<and> is_graceful_shutdown (path_attrs m),
      2 ^ 32 - unat (local_pref_of m), path_len_of cfg m, origin_of m) \<le>
    (is_llgr_stale (path_attrs r),
      graceful_shutdown_least_preferred cfg \<and> is_graceful_shutdown (path_attrs r),
      2 ^ 32 - unat (local_pref_of r), path_len_of cfg r, origin_of r)"
  using premed.min_by_prefix[of cfg rs m r] assms
  by (simp add: best_select_def premed_key_def lp_rank_def if_bool_eq_conj conj_commute cong: conj_cong)

theorem select_least_before_med_witness:
  "path_len_of default_config (bgp_route 65001 5 3) \<le> path_len_of default_config (bgp_route 65002 0 2)"
proof -
  have s: "best_select [bgp_route 65001 10 1, bgp_route 65002 0 2, bgp_route 65001 5 3] default_config =
      Some (bgp_route 65001 5 3)"
    by (simp add: best_select_def sample_compare)
  have "is_llgr_stale (path_attrs (bgp_route 65001 5 3)) = is_llgr_stale (path_attrs (bgp_route 65002 0 2))"
    "is_graceful_shutdown (path_attrs (bgp_route 65001 5 3)) =
       is_graceful_shutdown (path_attrs (bgp_route 65002 0 2))"
    "local_pref_of (bgp_route 65001 5 3) = local_pref_of (bgp_route 65002 0 2)"
    by code_simp+
  with select_least_before_med[OF s, of "bgp_route 65002 0 2"] show ?thesis by auto
qed

text \<open>
  C37.  With the default configuration the comparison is not transitive across neighbouring ASes: three
  routes beat each other in a circle, and which one is selected depends on the order in which the
  candidates are given.
\<close>

theorem select_depends_on_order:
  "\<exists>a b c. compare a b default_config = Less \<and> compare b c default_config = Less \<and>
     compare c a default_config = Less \<and>
     best_select [a, b, c] default_config = Some c \<and> best_select [b, c, a] default_config = Some a \<and> a \<noteq> c"
proof (intro exI conjI)
  let ?a = "bgp_route 65001 10 1" and ?b = "bgp_route 65002 0 2" and ?c = "bgp_route 65001 5 3"
  show "compare ?a ?b default_config = Less" "compare ?b ?c default_config = Less"
    "compare ?c ?a default_config = Less" by (rule sample_compare)+
  show "best_select [?a, ?b, ?c] default_config = Some ?c"
    "best_select [?b, ?c, ?a] default_config = Some ?a"
    by (simp_all add: best_select_def sample_compare)
  show "?a \<noteq> ?c" using sample_compare(3) sample_compare(4) by auto
qed

text \<open>
  C39.  Multipath returns routes only when there is a best route, between one and the configured number
  of them, all candidates, each tying with the best on every step before the last and from its
  neighbouring AS unless that is relaxed.
\<close>

theorem multipath_sound:
  assumes "best_select rs cfg = Some best"
  shows "\<exists>out. best_multipath rs cfg = Some out \<and> out \<noteq> [] \<and> length out \<le> max 1 (unat (multipath cfg)) \<and>
    (\<forall>r \<in> set out. r \<in> set rs \<and> compare_multipath r best cfg = Equal \<and>
       (multipath_relax cfg \<or> same_neighbor r best))"
proof -
  have best: "best \<in> set rs" using assms min_by_in_set unfolding best_select_def by metis
  show ?thesis
  proof (cases "multipath cfg \<le> 1")
    case True
    then show ?thesis
      using assms best by (simp add: best_multipath_def compare_multipath_refl same_neighbor_def)
  next
    case False
    then have "0 < unat (multipath cfg)" by (simp add: word_le_nat_alt)
    then show ?thesis
      using False assms multipath_loop_nonempty[OF best, of cfg "[]"]
        multipath_loop_length[of "[]" cfg best rs] multipath_loop_sound[of _ cfg best "[]" rs]
      by (auto simp: best_multipath_def Let_def)
  qed
qed

theorem multipath_sound_witness:
  "\<exists>out. best_multipath [bgp_route 65001 10 1, bgp_route 65001 5 3] (default_config\<lparr>multipath := 4\<rparr>) =
     Some out \<and> out \<noteq> [] \<and> length out \<le> 4"
proof -
  have "best_select [bgp_route 65001 10 1, bgp_route 65001 5 3] (default_config\<lparr>multipath := 4\<rparr>) =
      Some (bgp_route 65001 5 3)" by code_simp
  from multipath_sound[OF this] show ?thesis by auto
qed

end
