(* ===== verification/LR_Buf.thy ===== *)
theory LR_Buf
  imports LR_Codec
begin

text \<open>
  The slice-backed buffers of \<open>crates/lr-core/src/buf.rs\<close> that the packet codecs read from and write
  to.  A read advances the position and may fail; a write fails, and changes nothing, when the buffer
  is full.  \<open>at\<close> says what is still to be read, \<open>written\<close> what has been written.
\<close>

section \<open>Reading\<close>

record read_buf =
  rb_inner :: bytes
  rb_pos :: nat

definition rb_new :: "bytes \<Rightarrow> read_buf" where
  "rb_new b = \<lparr>rb_inner = b, rb_pos = 0\<rparr>"

definition remaining :: "read_buf \<Rightarrow> nat" where
  "remaining r = length (rb_inner r) - rb_pos r"

definition advance :: "nat \<Rightarrow> read_buf \<Rightarrow> read_buf option" where
  "advance n r = (if rb_pos r + n \<le> length (rb_inner r) then Some (r\<lparr>rb_pos := rb_pos r + n\<rparr>) else None)"

definition rb_chunk :: "read_buf \<Rightarrow> bytes" where
  "rb_chunk r = drop (rb_pos r) (rb_inner r)"

definition peek_u8 :: "read_buf \<Rightarrow> u8 option" where
  "peek_u8 r = (case rb_chunk r of [] \<Rightarrow> None | b # _ \<Rightarrow> Some b)"

definition get_u8 :: "read_buf \<Rightarrow> (u8 \<times> read_buf) option" where
  "get_u8 r = (case peek_u8 r of None \<Rightarrow> None | Some v \<Rightarrow> Some (v, r\<lparr>rb_pos := rb_pos r + 1\<rparr>))"

definition get_bytes :: "nat \<Rightarrow> read_buf \<Rightarrow> (bytes \<times> read_buf) option" where
  "get_bytes n r =
     (if remaining r < n then None
      else Some (take n (drop (rb_pos r) (rb_inner r)), r\<lparr>rb_pos := rb_pos r + n\<rparr>))"

definition get_u16_be :: "read_buf \<Rightarrow> (u16 \<times> read_buf) option" where
  "get_u16_be r = map_option (\<lambda>(b, r). (from_be_bytes b, r)) (get_bytes 2 r)"

definition get_u32_be :: "read_buf \<Rightarrow> (u32 \<times> read_buf) option" where
  "get_u32_be r = map_option (\<lambda>(b, r). (from_be_bytes b, r)) (get_bytes 4 r)"

definition get_u64_be :: "read_buf \<Rightarrow> (u64 \<times> read_buf) option" where
  "get_u64_be r = map_option (\<lambda>(b, r). (from_be_bytes b, r)) (get_bytes 8 r)"

section \<open>Parse results\<close>

text \<open>
  \<open>ParseError::truncated\<close> and \<open>ParseError::invalid\<close> of \<open>crates/lr-core/src/error.rs\<close>, and the question
  mark operator on them.
\<close>

datatype parse_error = Truncated string | InvalidValueAt nat string

definition ok_or :: "'e \<Rightarrow> 'a option \<Rightarrow> 'e + 'a" where
  "ok_or e x = (case x of None \<Rightarrow> Inl e | Some a \<Rightarrow> Inr a)"

definition and_then :: "'e + 'a \<times> 's \<Rightarrow> ('a \<Rightarrow> 's \<Rightarrow> 'e + 'b) \<Rightarrow> 'e + 'b" where
  "and_then m f = (case m of Inl e \<Rightarrow> Inl e | Inr (a, s) \<Rightarrow> f a s)"

abbreviation need :: "string \<Rightarrow> 'a option \<Rightarrow> parse_error + 'a" where
  "need ctx x \<equiv> ok_or (Truncated ctx) x"

lemma and_then_simps [simp]:
  "and_then (Inl e) f = Inl e"
  "and_then (Inr (a, s)) f = f a s"
  by (simp_all add: and_then_def)

lemma ok_or_simps [simp]: "ok_or e None = Inl e" "ok_or e (Some a) = Inr a"
  by (simp_all add: ok_or_def)

section \<open>What is left to read\<close>

definition "at" :: "read_buf \<Rightarrow> bytes \<Rightarrow> bool" where
  "at r xs \<longleftrightarrow> rb_pos r \<le> length (rb_inner r) \<and> drop (rb_pos r) (rb_inner r) = xs"

abbreviation skip :: "nat \<Rightarrow> read_buf \<Rightarrow> read_buf" where
  "skip n r \<equiv> r\<lparr>rb_pos := rb_pos r + n\<rparr>"

lemma at_new [simp]: "at (rb_new b) b"
  by (simp add: at_def rb_new_def)

lemma at_remaining: "at r xs \<Longrightarrow> remaining r = length xs"
  by (auto simp: at_def remaining_def)

lemma at_skip: "at r (ys @ xs) \<Longrightarrow> length ys = n \<Longrightarrow> at (skip n r) xs"
proof -
  assume a: "at r (ys @ xs)" and n: "length ys = n"
  have d: "drop (rb_pos r) (rb_inner r) = ys @ xs" using a by (simp add: at_def)
  then have "length (rb_inner r) - rb_pos r = n + length xs" using n by (metis length_append length_drop)
  moreover have "drop (rb_pos r + n) (rb_inner r) = xs"
    using arg_cong[OF d, of "drop n"] n by (simp add: add.commute)
  ultimately show ?thesis using a by (auto simp: at_def)
qed

lemma get_u8_at: "at r (b # xs) \<Longrightarrow> get_u8 r = Some (b, skip 1 r)"
  by (simp add: get_u8_def peek_u8_def rb_chunk_def at_def)

lemma get_bytes_at: "at r (ys @ xs) \<Longrightarrow> length ys = n \<Longrightarrow> get_bytes n r = Some (ys, skip n r)"
  using at_remaining[of r "ys @ xs"] by (simp add: get_bytes_def at_def)

lemma get_u32_at:
  "at r (to_be_bytes 4 v @ xs) \<Longrightarrow> get_u32_be r = Some (v, skip 4 r)"
  using get_bytes_at[of r "to_be_bytes 4 v" xs 4] by (simp add: get_u32_be_def)

lemma get_u16_at:
  "at r (to_be_bytes 2 v @ xs) \<Longrightarrow> get_u16_be r = Some (v, skip 2 r)"
  using get_bytes_at[of r "to_be_bytes 2 v" xs 2] by (simp add: get_u16_be_def)

lemma get_u64_at:
  "at r (to_be_bytes 8 v @ xs) \<Longrightarrow> get_u64_be r = Some (v, skip 8 r)"
  using get_bytes_at[of r "to_be_bytes 8 v" xs 8] by (simp add: get_u64_be_def)

lemma at_skip_1: "at r (b # xs) \<Longrightarrow> at (skip 1 r) xs"
  using at_skip[of r "[b]" xs 1] by simp

text \<open>\<open>r'\<close> is the reader \<open>r\<close> after some reads, with \<open>xs\<close> left.\<close>

definition later :: "read_buf \<Rightarrow> read_buf \<Rightarrow> bytes \<Rightarrow> bool" where
  "later r r' xs \<longleftrightarrow> rb_inner r' = rb_inner r \<and> at r' xs"

lemma later_pos: "later r r' xs \<Longrightarrow> rb_pos r' = length (rb_inner r) - length xs"
  by (auto simp: later_def at_def)

lemma read_u8:
  assumes "later r0 r (b # xs)"
  obtains r' where "get_u8 r = Some (b, r')" "later r0 r' xs"
  using assms get_u8_at[of r b xs] at_skip_1[of r b xs] by (fastforce simp: later_def)

lemma read_bytes:
  assumes "later r0 r (ys @ xs)" and "length ys = n"
  obtains r' where "get_bytes n r = Some (ys, r')" "later r0 r' xs"
  using assms get_bytes_at[of r ys xs n] at_skip[of r ys xs n] by (fastforce simp: later_def)

lemma read_u32:
  assumes "later r0 r (to_be_bytes 4 v @ xs)"
  obtains r' where "get_u32_be r = Some (v, r')" "later r0 r' xs"
  using assms get_u32_at[of r v xs] at_skip[of r "to_be_bytes 4 v" xs 4] by (fastforce simp: later_def)

lemma later_remaining: "later r0 r xs \<Longrightarrow> remaining r = length xs"
  by (simp add: later_def at_remaining)

section \<open>Writing\<close>

record write_buf =
  wb_inner :: bytes
  wb_pos :: nat

definition wb_new :: "bytes \<Rightarrow> write_buf" where
  "wb_new b = \<lparr>wb_inner = b, wb_pos = 0\<rparr>"

definition remaining_mut :: "write_buf \<Rightarrow> nat" where
  "remaining_mut w = length (wb_inner w) - wb_pos w"

text \<open>\<open>dst[at..at + b.len()].copy_from_slice(b)\<close>\<close>

definition copy_at :: "nat \<Rightarrow> bytes \<Rightarrow> bytes \<Rightarrow> bytes" where
  "copy_at i b dst = take i dst @ b @ drop (i + length b) dst"

definition put_u8 :: "u8 \<Rightarrow> write_buf \<Rightarrow> write_buf option" where
  "put_u8 v w =
     (if wb_pos w \<ge> length (wb_inner w) then None
      else Some (w\<lparr>wb_inner := (wb_inner w)[wb_pos w := v], wb_pos := wb_pos w + 1\<rparr>))"

definition put_bytes :: "bytes \<Rightarrow> write_buf \<Rightarrow> write_buf option" where
  "put_bytes b w =
     (if remaining_mut w < length b then None
      else Some (w\<lparr>wb_inner := copy_at (wb_pos w) b (wb_inner w), wb_pos := wb_pos w + length b\<rparr>))"

definition put_u16_be :: "u16 \<Rightarrow> write_buf \<Rightarrow> write_buf option" where
  "put_u16_be v w = put_bytes (to_be_bytes 2 v) w"

definition put_u32_be :: "u32 \<Rightarrow> write_buf \<Rightarrow> write_buf option" where
  "put_u32_be v w = put_bytes (to_be_bytes 4 v) w"

definition put_u64_be :: "u64 \<Rightarrow> write_buf \<Rightarrow> write_buf option" where
  "put_u64_be v w = put_bytes (to_be_bytes 8 v) w"

definition reserve :: "nat \<Rightarrow> write_buf \<Rightarrow> (nat \<times> write_buf) option" where
  "reserve n w =
     (if remaining_mut w < n then None else Some (wb_pos w, w\<lparr>wb_pos := wb_pos w + n\<rparr>))"

definition patch :: "nat \<Rightarrow> bytes \<Rightarrow> write_buf \<Rightarrow> write_buf option" where
  "patch i b w =
     (if i + length b > length (wb_inner w) then None
      else Some (w\<lparr>wb_inner := copy_at i b (wb_inner w)\<rparr>))"

definition written :: "write_buf \<Rightarrow> bytes" where
  "written w = take (wb_pos w) (wb_inner w)"

text \<open>A call whose \<open>Option\<close> result is dropped: a failed write leaves the buffer as it is.\<close>

definition ignore_full :: "(write_buf \<Rightarrow> write_buf option) \<Rightarrow> write_buf \<Rightarrow> write_buf" where
  "ignore_full f w = (case f w of Some w' \<Rightarrow> w' | None \<Rightarrow> w)"

section \<open>What has been written\<close>

definition wb_ok :: "write_buf \<Rightarrow> bool" where
  "wb_ok w \<longleftrightarrow> wb_pos w \<le> length (wb_inner w)"

text \<open>\<open>w'\<close> is \<open>w\<close> with \<open>b\<close> appended.\<close>

definition appended :: "write_buf \<Rightarrow> bytes \<Rightarrow> write_buf \<Rightarrow> bool" where
  "appended w b w' \<longleftrightarrow>
     wb_ok w' \<and> written w' = written w @ b \<and> wb_pos w' = wb_pos w + length b \<and>
     length (wb_inner w') = length (wb_inner w)"

lemma length_copy_at [simp]: "i + length b \<le> length dst \<Longrightarrow> length (copy_at i b dst) = length dst"
  by (simp add: copy_at_def)

lemma put_bytes_appended:
  assumes "wb_ok w" and "length b \<le> remaining_mut w"
  shows "\<exists>w'. put_bytes b w = Some w' \<and> appended w b w'"
  using assms
  by (auto simp: put_bytes_def appended_def wb_ok_def written_def remaining_mut_def copy_at_def)

lemma put_u8_appended:
  assumes "wb_ok w" and "1 \<le> remaining_mut w"
  shows "\<exists>w'. put_u8 v w = Some w' \<and> appended w [v] w'"
  using assms
  by (auto simp: put_u8_def appended_def wb_ok_def written_def remaining_mut_def take_Suc_conv_app_nth)

lemma ignore_put_bytes:
  "wb_ok w \<Longrightarrow> length b \<le> remaining_mut w \<Longrightarrow> appended w b (ignore_full (put_bytes b) w)"
  using put_bytes_appended[of w b] by (auto simp: ignore_full_def)

lemma ignore_put_u8:
  "wb_ok w \<Longrightarrow> 1 \<le> remaining_mut w \<Longrightarrow> appended w [v] (ignore_full (put_u8 v) w)"
  using put_u8_appended[of w v] by (auto simp: ignore_full_def)

lemma ignore_put_u32:
  "wb_ok w \<Longrightarrow> 4 \<le> remaining_mut w \<Longrightarrow> appended w (to_be_bytes 4 v) (ignore_full (put_u32_be v) w)"
  using ignore_put_bytes[of w "to_be_bytes 4 v"] by (simp add: ignore_full_def put_u32_be_def)

lemma appended_trans: "appended w a w' \<Longrightarrow> appended w' b w'' \<Longrightarrow> appended w (a @ b) w''"
  by (auto simp: appended_def)

lemma appended_ok: "appended w b w' \<Longrightarrow> wb_ok w'"
  by (simp add: appended_def)

lemma appended_remaining: "appended w b w' \<Longrightarrow> remaining_mut w' = remaining_mut w - length b"
  by (auto simp: appended_def remaining_mut_def)

lemma appended_refl: "wb_ok w \<Longrightarrow> appended w [] w"
  by (simp add: appended_def)

text \<open>One more write on top of what has been appended, as long as there is room.\<close>

lemma append_u8:
  "appended w a w' \<Longrightarrow> length a + 1 \<le> remaining_mut w \<Longrightarrow> appended w (a @ [v]) (ignore_full (put_u8 v) w')"
  using ignore_put_u8[of w' v] appended_trans appended_ok appended_remaining by fastforce

lemma append_bytes:
  "appended w a w' \<Longrightarrow> length a + length b \<le> remaining_mut w \<Longrightarrow>
   appended w (a @ b) (ignore_full (put_bytes b) w')"
  using ignore_put_bytes[of w' b] appended_trans appended_ok appended_remaining by fastforce

lemma append_u32:
  "appended w a w' \<Longrightarrow> length a + 4 \<le> remaining_mut w \<Longrightarrow>
   appended w (a @ to_be_bytes 4 v) (ignore_full (put_u32_be v) w')"
  using append_bytes[of w a w' "to_be_bytes 4 v"] by (simp add: ignore_full_def put_u32_be_def)

lemmas append_rules = append_u8 append_bytes append_u32

end
