(* ===== verification/LR_BfdPacket.thy ===== *)
theory LR_BfdPacket
  imports LR_Buf
begin

text \<open>
  BFD control packets: \<open>crates/lr-bfd/src/packet.rs\<close> (states, diagnostics, the packet and its codec),
  \<open>auth.rs\<close> (the authentication section) and \<open>keyed_auth.rs\<close> (keyed digests with the anti-replay window).
  The MD5 and SHA-1 digests come from crates outside the repository: the definitions take the digest
  function as an argument.
\<close>

section \<open>States and diagnostics\<close>

datatype bfd_state = AdminDown | Down | Init | Up

fun state_u8 :: "bfd_state \<Rightarrow> u8" where
  "state_u8 AdminDown = 0"
| "state_u8 Down = 1"
| "state_u8 Init = 2"
| "state_u8 Up = 3"

definition state_from_u8 :: "u8 \<Rightarrow> bfd_state option" where
  "state_from_u8 v =
     (if v = 0 then Some AdminDown else if v = 1 then Some Down else if v = 2 then Some Init
      else if v = 3 then Some Up else None)"

datatype diagnostic =
  NoDiag | CtrlExpired | EchoFailed | NeighborSignaled | FwdReset | PathDown | ConcatPathDown
  | DiagAdminDown | RevPathDown | MisConnDefect | UnknownDiag u8

definition diag_from_u8 :: "u8 \<Rightarrow> diagnostic" where
  "diag_from_u8 v =
     (if v = 0 then NoDiag else if v = 1 then CtrlExpired else if v = 2 then EchoFailed
      else if v = 3 then NeighborSignaled else if v = 4 then FwdReset else if v = 5 then PathDown
      else if v = 6 then ConcatPathDown else if v = 7 then DiagAdminDown else if v = 8 then RevPathDown
      else if v = 9 then MisConnDefect else UnknownDiag v)"

fun diag_to_u8 :: "diagnostic \<Rightarrow> u8" where
  "diag_to_u8 NoDiag = 0"
| "diag_to_u8 CtrlExpired = 1"
| "diag_to_u8 EchoFailed = 2"
| "diag_to_u8 NeighborSignaled = 3"
| "diag_to_u8 FwdReset = 4"
| "diag_to_u8 PathDown = 5"
| "diag_to_u8 ConcatPathDown = 6"
| "diag_to_u8 DiagAdminDown = 7"
| "diag_to_u8 RevPathDown = 8"
| "diag_to_u8 MisConnDefect = 9"
| "diag_to_u8 (UnknownDiag v) = v"

type_synonym packet_flags = u8

definition MULTIPOINT :: packet_flags where
  "MULTIPOINT = 0x01"

definition DEMAND :: packet_flags where
  "DEMAND = 0x02"

definition AUTH :: packet_flags where
  "AUTH = 0x04"

definition CPI :: packet_flags where
  "CPI = 0x08"

definition FINAL :: packet_flags where
  "FINAL = 0x10"

definition POLL :: packet_flags where
  "POLL = 0x20"

lemmas flag_defs = MULTIPOINT_def DEMAND_def AUTH_def CPI_def FINAL_def POLL_def

text \<open>\<open>contains\<close> and \<open>from_bits_truncate\<close> of the \<open>bitflags\<close> type: all bits of the argument are set; the
  bits no flag names are dropped.\<close>

definition has_flags :: "packet_flags \<Rightarrow> packet_flags \<Rightarrow> bool" where
  "has_flags f g \<longleftrightarrow> f AND g = g"

definition flags_truncate :: "u8 \<Rightarrow> packet_flags" where
  "flags_truncate b = b AND 0x3f"

section \<open>Authentication sections\<close>

datatype auth_type =
  SimplePassword | KeyedMd5 | MeticulousKeyedMd5 | KeyedSha1 | MeticulousKeyedSha1 | UnknownAuth u8

definition auth_type_from_u8 :: "u8 \<Rightarrow> auth_type" where
  "auth_type_from_u8 v =
     (if v = 1 then SimplePassword else if v = 2 then KeyedMd5 else if v = 3 then MeticulousKeyedMd5
      else if v = 4 then KeyedSha1 else if v = 5 then MeticulousKeyedSha1 else UnknownAuth v)"

fun auth_type_to_u8 :: "auth_type \<Rightarrow> u8" where
  "auth_type_to_u8 SimplePassword = 1"
| "auth_type_to_u8 KeyedMd5 = 2"
| "auth_type_to_u8 MeticulousKeyedMd5 = 3"
| "auth_type_to_u8 KeyedSha1 = 4"
| "auth_type_to_u8 MeticulousKeyedSha1 = 5"
| "auth_type_to_u8 (UnknownAuth v) = v"

fun expected_digest_len :: "auth_type \<Rightarrow> nat option" where
  "expected_digest_len KeyedMd5 = Some 16"
| "expected_digest_len MeticulousKeyedMd5 = Some 16"
| "expected_digest_len KeyedSha1 = Some 20"
| "expected_digest_len MeticulousKeyedSha1 = Some 20"
| "expected_digest_len _ = None"

fun is_keyed_hash :: "auth_type \<Rightarrow> bool" where
  "is_keyed_hash KeyedMd5 = True"
| "is_keyed_hash MeticulousKeyedMd5 = True"
| "is_keyed_hash KeyedSha1 = True"
| "is_keyed_hash MeticulousKeyedSha1 = True"
| "is_keyed_hash _ = False"

definition MAX_PASSWORD_LEN :: nat where
  "MAX_PASSWORD_LEN = 16"

record auth_key =
  key_key_id :: u8
  key_data :: bytes

record auth_section =
  auth_type :: auth_type
  auth_key_id :: u8
  auth_sequence :: "u32 option"
  auth_data :: bytes

definition simple_password :: "bytes \<Rightarrow> u8 \<Rightarrow> auth_section" where
  "simple_password pw k =
     \<lparr>auth_type = SimplePassword, auth_key_id = k, auth_sequence = None, auth_data = pw\<rparr>"

definition wire_len :: "auth_section \<Rightarrow> nat" where
  "wire_len a =
     (case auth_type a of
        SimplePassword \<Rightarrow> 3 + length (auth_data a)
      | KeyedMd5 \<Rightarrow> 24 | MeticulousKeyedMd5 \<Rightarrow> 24
      | KeyedSha1 \<Rightarrow> 28 | MeticulousKeyedSha1 \<Rightarrow> 28
      | UnknownAuth _ \<Rightarrow> 3 + length (auth_data a))"

datatype encode_error = BufferFull | InvalidValue string | MissingContext string

definition put_keyed_hash :: "u8 \<Rightarrow> auth_section \<Rightarrow> write_buf \<Rightarrow> write_buf" where
  "put_keyed_hash len a w =
     ignore_full (put_bytes (auth_data a))
       (ignore_full (put_u32_be (case auth_sequence a of Some s \<Rightarrow> s | None \<Rightarrow> 0))
         (ignore_full (put_u8 0)
           (ignore_full (put_u8 (auth_key_id a))
             (ignore_full (put_u8 len)
               (ignore_full (put_u8 (auth_type_to_u8 (auth_type a))) w)))))"

definition auth_encode :: "auth_section \<Rightarrow> write_buf \<Rightarrow> encode_error + nat \<times> write_buf" where
  "auth_encode a w =
     (let len = wire_len a
      in if remaining_mut w < len then Inl BufferFull
         else case auth_type a of
             SimplePassword \<Rightarrow>
               if auth_data a = [] \<or> length (auth_data a) > MAX_PASSWORD_LEN
               then Inl (InvalidValue ''password must be 1-16 bytes'')
               else Inr (len,
                 ignore_full (put_bytes (auth_data a))
                   (ignore_full (put_u8 (auth_key_id a))
                     (ignore_full (put_u8 (of_nat len))
                       (ignore_full (put_u8 (auth_type_to_u8 (auth_type a))) w))))
           | UnknownAuth _ \<Rightarrow> Inl (InvalidValue ''unknown auth type'')
           | t \<Rightarrow>
               if t = KeyedMd5 \<or> t = MeticulousKeyedMd5 then
                 if length (auth_data a) \<noteq> 16 then Inl (InvalidValue ''md5 digest must be 16 bytes'')
                 else Inr (len, put_keyed_hash 24 a w)
               else
                 if length (auth_data a) \<noteq> 20 then Inl (InvalidValue ''sha1 digest must be 20 bytes'')
                 else Inr (len, put_keyed_hash 28 a w))"

definition decode_keyed_hash ::
    "auth_type \<Rightarrow> nat \<Rightarrow> read_buf \<Rightarrow> parse_error + auth_section \<times> read_buf" where
  "decode_keyed_hash t n r =
     and_then (need ''bfd.auth.key_id'' (get_u8 r)) (\<lambda>k r.
     and_then (need ''bfd.auth.reserved'' (get_u8 r)) (\<lambda>_ r.
     and_then (need ''bfd.auth.sequence'' (get_u32_be r)) (\<lambda>s r.
     and_then (need ''bfd.auth.digest'' (get_bytes n r)) (\<lambda>d r.
       Inr (\<lparr>auth_type = t, auth_key_id = k, auth_sequence = Some s, auth_data = d\<rparr>, r)))))"

definition auth_decode :: "read_buf \<Rightarrow> parse_error + auth_section \<times> read_buf" where
  "auth_decode r =
     and_then (need ''bfd.auth.type'' (get_u8 r)) (\<lambda>raw r.
     and_then (need ''bfd.auth.len'' (get_u8 r)) (\<lambda>l r.
       let auth_len = unat l; t = auth_type_from_u8 raw
       in if auth_len < 3 then Inl (InvalidValueAt 1 ''bfd.auth.len'')
          else case t of
              SimplePassword \<Rightarrow>
                and_then (need ''bfd.auth.key_id'' (get_u8 r)) (\<lambda>k r.
                  let pw_len = auth_len - 3
                  in if pw_len = 0 \<or> pw_len > MAX_PASSWORD_LEN then Inl (InvalidValueAt 1 ''bfd.auth.len'')
                     else and_then (need ''bfd.auth.password'' (get_bytes pw_len r)) (\<lambda>d r.
                       Inr (\<lparr>auth_type = t, auth_key_id = k, auth_sequence = None, auth_data = d\<rparr>, r)))
            | UnknownAuth _ \<Rightarrow> Inl (InvalidValueAt 0 ''bfd.auth.type'')
            | _ \<Rightarrow>
                if t = KeyedMd5 \<or> t = MeticulousKeyedMd5 then
                  if auth_len \<noteq> 24 then Inl (InvalidValueAt 1 ''bfd.auth.len'')
                  else decode_keyed_hash t 16 r
                else
                  if auth_len \<noteq> 28 then Inl (InvalidValueAt 1 ''bfd.auth.len'')
                  else decode_keyed_hash t 20 r))"

section \<open>Packets\<close>

record bfd_packet =
  diag :: diagnostic
  pkt_state :: bfd_state
  flags :: packet_flags
  detect_mult :: u8
  my_discriminator :: u32
  your_discriminator :: u32
  desired_min_tx_interval :: u32
  required_min_rx_interval :: u32
  required_min_echo_interval :: u32
  auth :: "auth_section option"

definition BFD_VERSION :: u8 where
  "BFD_VERSION = 1"

definition MIN_LEN :: nat where
  "MIN_LEN = 24"

definition pkt_length :: "bfd_packet \<Rightarrow> u8" where
  "pkt_length p = of_nat MIN_LEN + (case auth p of None \<Rightarrow> 0 | Some a \<Rightarrow> of_nat (wire_len a))"

definition put_header :: "bfd_packet \<Rightarrow> packet_flags \<Rightarrow> write_buf \<Rightarrow> write_buf" where
  "put_header p fl w =
     ignore_full (put_u8 (push_bit 6 (state_u8 (pkt_state p)) OR (fl AND 0x3f)))
       (ignore_full (put_u8 (push_bit 5 BFD_VERSION OR (diag_to_u8 (diag p) AND 0x1f))) w)"

definition put_body :: "bfd_packet \<Rightarrow> write_buf \<Rightarrow> write_buf" where
  "put_body p w =
     ignore_full (put_u32_be (required_min_echo_interval p))
       (ignore_full (put_u32_be (required_min_rx_interval p))
         (ignore_full (put_u32_be (desired_min_tx_interval p))
           (ignore_full (put_u32_be (your_discriminator p))
             (ignore_full (put_u32_be (my_discriminator p))
               (ignore_full (put_u8 (pkt_length p))
                 (ignore_full (put_u8 (detect_mult p)) w))))))"

definition bfd_encode :: "bfd_packet \<Rightarrow> write_buf \<Rightarrow> encode_error + nat \<times> write_buf" where
  "bfd_encode p w =
     (if remaining_mut w < MIN_LEN then Inl BufferFull
      else
        let fl = (if auth p \<noteq> None then flags p OR AUTH else flags p);
            w = put_header p fl w
        in if detect_mult p = 0 then Inl (InvalidValue ''bfd detect_mult is zero'')
           else
             let w = put_body p w
             in case auth p of
                  None \<Rightarrow> Inr (MIN_LEN, w)
                | Some a \<Rightarrow> and_then (auth_encode a w) (\<lambda>n w. Inr (MIN_LEN + n, w)))"

definition bfd_decode :: "read_buf \<Rightarrow> parse_error + bfd_packet option \<times> read_buf" where
  "bfd_decode r =
     (if remaining r < MIN_LEN then Inr (None, r)
      else
        and_then (need ''bfd.byte0'' (get_u8 r)) (\<lambda>b0 r.
        if drop_bit 5 b0 \<noteq> BFD_VERSION then Inl (InvalidValueAt 0 ''bfd.version'')
        else
        and_then (need ''bfd.byte1'' (get_u8 r)) (\<lambda>b1 r.
        case state_from_u8 (drop_bit 6 b1 AND 0x3) of
          None \<Rightarrow> Inl (InvalidValueAt 1 ''bfd.state'')
        | Some st \<Rightarrow>
        let fl = flags_truncate (b1 AND 0x3f) in
        and_then (need ''bfd.detect_mult'' (get_u8 r)) (\<lambda>dm r.
        if dm = 0 then Inl (InvalidValueAt 2 ''bfd.detect_mult'')
        else
        and_then (need ''bfd.length'' (get_u8 r)) (\<lambda>l r.
        let length_field = unat l; min_len = (if has_flags fl AUTH then 26 else MIN_LEN) in
        if length_field < min_len \<or> length_field > remaining r + 4 then Inl (InvalidValueAt 3 ''bfd.length'')
        else
        and_then (need ''bfd.my_disc'' (get_u32_be r)) (\<lambda>my r.
        and_then (need ''bfd.your_disc'' (get_u32_be r)) (\<lambda>your r.
        and_then (need ''bfd.desired_tx'' (get_u32_be r)) (\<lambda>tx r.
        and_then (need ''bfd.required_rx'' (get_u32_be r)) (\<lambda>rx r.
        and_then (need ''bfd.required_echo'' (get_u32_be r)) (\<lambda>echo r.
        and_then
          (if has_flags fl AUTH then map_sum id (\<lambda>(a, r). (Some a, r)) (auth_decode r) else Inr (None, r))
          (\<lambda>au r.
        Inr (Some \<lparr>diag = diag_from_u8 (b0 AND 0x1f), pkt_state = st, flags = fl, detect_mult = dm,
                   my_discriminator = my, your_discriminator = your, desired_min_tx_interval = tx,
                   required_min_rx_interval = rx, required_min_echo_interval = echo, auth = au\<rparr>, r))))))))))))"

section \<open>Keyed digests\<close>

datatype keyed_auth_algorithm = AlgMd5 | AlgMeticulousMd5 | AlgSha1 | AlgMeticulousSha1

fun alg_auth_type :: "keyed_auth_algorithm \<Rightarrow> auth_type" where
  "alg_auth_type AlgMd5 = KeyedMd5"
| "alg_auth_type AlgMeticulousMd5 = MeticulousKeyedMd5"
| "alg_auth_type AlgSha1 = KeyedSha1"
| "alg_auth_type AlgMeticulousSha1 = MeticulousKeyedSha1"

fun digest_len :: "keyed_auth_algorithm \<Rightarrow> nat" where
  "digest_len AlgMd5 = 16"
| "digest_len AlgMeticulousMd5 = 16"
| "digest_len AlgSha1 = 20"
| "digest_len AlgMeticulousSha1 = 20"

fun is_meticulous :: "keyed_auth_algorithm \<Rightarrow> bool" where
  "is_meticulous AlgMd5 = False"
| "is_meticulous AlgMeticulousMd5 = True"
| "is_meticulous AlgSha1 = False"
| "is_meticulous AlgMeticulousSha1 = True"

definition key_in_digest_field :: "keyed_auth_algorithm \<Rightarrow> bytes \<Rightarrow> bytes" where
  "key_in_digest_field alg k =
     (let l = digest_len alg; n = min (length k) l in copy_at 0 (take n k) (replicate l 0))"

record bfd_keyed_auth =
  ka_key_id :: u8
  ka_algorithm :: keyed_auth_algorithm
  ka_secret :: bytes
  xmit_seq :: u32
  rcv_auth_seq_known :: bool
  rcv_auth_seq :: u32

definition keyed_auth_new :: "u8 \<Rightarrow> keyed_auth_algorithm \<Rightarrow> bytes \<Rightarrow> bfd_keyed_auth option" where
  "keyed_auth_new k alg secret =
     (if secret = [] \<or> length secret > digest_len alg then None
      else Some \<lparr>ka_key_id = k, ka_algorithm = alg, ka_secret = secret, xmit_seq = 0,
                 rcv_auth_seq_known = False, rcv_auth_seq = 0\<rparr>)"

definition auth_section_for_tx :: "bfd_keyed_auth \<Rightarrow> auth_section" where
  "auth_section_for_tx ka =
     \<lparr>auth_type = alg_auth_type (ka_algorithm ka), auth_key_id = ka_key_id ka,
      auth_sequence = Some (xmit_seq ka),
      auth_data = key_in_digest_field (ka_algorithm ka) (ka_secret ka)\<rparr>"

definition advance_xmit_seq :: "bfd_keyed_auth \<Rightarrow> bfd_keyed_auth" where
  "advance_xmit_seq ka = ka\<lparr>xmit_seq := xmit_seq ka + 1\<rparr>"

text \<open>The digest function of an algorithm: \<open>h\<close> stands for the \<open>md5\<close> and \<open>sha1\<close> crates.\<close>

type_synonym digest_fun = "keyed_auth_algorithm \<Rightarrow> bytes \<Rightarrow> bytes"

definition sign_packet :: "digest_fun \<Rightarrow> bfd_keyed_auth \<Rightarrow> bytes \<Rightarrow> bytes" where
  "sign_packet h ka p =
     (let l = digest_len (ka_algorithm ka)
      in if length p < l then p
         else let off = length p - l in take off p @ h (ka_algorithm ka) p)"

definition in_circular_range :: "u32 \<Rightarrow> u32 \<Rightarrow> u32 \<Rightarrow> bool" where
  "in_circular_range s lo hi \<longleftrightarrow> s - lo \<le> hi - lo"

definition verify_inbound ::
    "digest_fun \<Rightarrow> bytes \<Rightarrow> auth_section \<Rightarrow> u8 \<Rightarrow> bfd_keyed_auth \<Rightarrow> bool \<times> bfd_keyed_auth" where
  "verify_inbound h received sec dm ka =
     (if auth_type sec \<noteq> alg_auth_type (ka_algorithm ka) then (False, ka)
      else if auth_key_id sec \<noteq> ka_key_id ka then (False, ka)
      else
        let l = digest_len (ka_algorithm ka)
        in if length (auth_data sec) \<noteq> l then (False, ka)
           else case auth_sequence sec of
             None \<Rightarrow> (False, ka)
           | Some s \<Rightarrow>
               let dm = (ucast (max dm 1) :: u32);
                   lo = (if is_meticulous (ka_algorithm ka) then rcv_auth_seq ka + 1 else rcv_auth_seq ka);
                   hi = rcv_auth_seq ka + 3 * dm
               in if rcv_auth_seq_known ka \<and> \<not> in_circular_range s lo hi then (False, ka)
                  else if length received < l then (False, ka)
                  else
                    let off = length received - l;
                        scratch = take off received @ key_in_digest_field (ka_algorithm ka) (ka_secret ka)
                    in if auth_data sec \<noteq> h (ka_algorithm ka) scratch then (False, ka)
                       else (True, ka\<lparr>rcv_auth_seq_known := True, rcv_auth_seq := s\<rparr>))"

section \<open>Encoded bytes\<close>

definition auth_wf :: "auth_section \<Rightarrow> bool" where
  "auth_wf a \<longleftrightarrow>
     (case auth_type a of
        SimplePassword \<Rightarrow> auth_sequence a = None \<and> auth_data a \<noteq> [] \<and> length (auth_data a) \<le> 16
      | UnknownAuth _ \<Rightarrow> False
      | t \<Rightarrow> auth_sequence a \<noteq> None \<and> expected_digest_len t = Some (length (auth_data a)))"

definition pkt_wf :: "bfd_packet \<Rightarrow> bool" where
  "pkt_wf p \<longleftrightarrow>
     (\<forall>v. diag p = UnknownDiag v \<longrightarrow> 9 < v \<and> v < 32) \<and> flags p AND 0x3f = flags p \<and>
     (has_flags (flags p) AUTH \<longleftrightarrow> auth p \<noteq> None) \<and> detect_mult p \<noteq> 0 \<and>
     (\<forall>a. auth p = Some a \<longrightarrow> auth_wf a)"

definition auth_bytes :: "auth_section \<Rightarrow> bytes" where
  "auth_bytes a =
     (if auth_type a = SimplePassword
      then [1, of_nat (wire_len a), auth_key_id a] @ auth_data a
      else [auth_type_to_u8 (auth_type a), of_nat (wire_len a), auth_key_id a, 0] @
        to_be_bytes 4 (case auth_sequence a of Some s \<Rightarrow> s | None \<Rightarrow> 0) @ auth_data a)"

definition pkt_bytes :: "bfd_packet \<Rightarrow> bytes" where
  "pkt_bytes p =
     [push_bit 5 BFD_VERSION OR (diag_to_u8 (diag p) AND 0x1f),
      push_bit 6 (state_u8 (pkt_state p)) OR (flags p AND 0x3f), detect_mult p, pkt_length p] @
     to_be_bytes 4 (my_discriminator p) @ to_be_bytes 4 (your_discriminator p) @
     to_be_bytes 4 (desired_min_tx_interval p) @ to_be_bytes 4 (required_min_rx_interval p) @
     to_be_bytes 4 (required_min_echo_interval p) @
     (case auth p of None \<Rightarrow> [] | Some a \<Rightarrow> auth_bytes a)"

lemma length_auth_bytes: "auth_wf a \<Longrightarrow> length (auth_bytes a) = wire_len a"
  by (auto simp: auth_wf_def auth_bytes_def wire_len_def split: auth_type.splits)

lemma wire_len_le: "auth_wf a \<Longrightarrow> wire_len a \<le> 28"
  by (auto simp: auth_wf_def wire_len_def split: auth_type.splits)

lemma put_keyed_hash_bytes:
  assumes "appended w b w'" and "length b + 8 + length (auth_data a) \<le> remaining_mut w"
  shows "appended w (b @ [auth_type_to_u8 (auth_type a), n, auth_key_id a, 0] @
      to_be_bytes 4 (case auth_sequence a of Some s \<Rightarrow> s | None \<Rightarrow> 0) @ auth_data a) (put_keyed_hash n a w')"
proof -
  have "appended w ((((((b @ [auth_type_to_u8 (auth_type a)]) @ [n]) @ [auth_key_id a]) @ [0]) @
      to_be_bytes 4 (case auth_sequence a of Some s \<Rightarrow> s | None \<Rightarrow> 0)) @ auth_data a) (put_keyed_hash n a w')"
    unfolding put_keyed_hash_def using assms(2) by (intro append_rules assms(1)) simp_all
  then show ?thesis by simp
qed

lemma auth_encode_bytes:
  assumes "auth_wf a" and "appended w b w'" and "length b + wire_len a \<le> remaining_mut w"
  shows "\<exists>w''. auth_encode a w' = Inr (wire_len a, w'') \<and> appended w (b @ auth_bytes a) w''"
proof (cases "auth_type a = SimplePassword")
  case True
  have "appended w ((((b @ [1]) @ [of_nat (wire_len a)]) @ [auth_key_id a]) @ auth_data a)
      (ignore_full (put_bytes (auth_data a)) (ignore_full (put_u8 (auth_key_id a))
        (ignore_full (put_u8 (of_nat (wire_len a))) (ignore_full (put_u8 1) w'))))"
    using assms(3) True by (intro append_rules assms(2)) (simp_all add: wire_len_def)
  then show ?thesis
    using True assms appended_remaining[OF assms(2)]
    by (auto simp: auth_encode_def auth_bytes_def auth_wf_def MAX_PASSWORD_LEN_def Let_def)
next
  case False
  have "length b + 8 + length (auth_data a) \<le> remaining_mut w"
    using assms(1,3) False by (auto simp: auth_wf_def wire_len_def split: auth_type.splits)
  from put_keyed_hash_bytes[OF assms(2) this, of "of_nat (wire_len a)"] show ?thesis
    using False assms appended_remaining[OF assms(2)]
    by (auto simp: auth_encode_def auth_bytes_def auth_wf_def wire_len_def Let_def split: auth_type.splits)
qed

lemma has_flags_bit: "has_flags f g \<Longrightarrow> bit g n \<Longrightarrow> bit f n"
  unfolding has_flags_def by (metis bit_and_iff)

lemma has_flags_or: "has_flags f g \<Longrightarrow> f OR g = f"
  by (auto intro!: bit_word_eqI simp: bit_simps dest: has_flags_bit)

lemma bfd_encode_bytes:
  assumes "pkt_wf p" and "wb_ok w" and "length (pkt_bytes p) \<le> remaining_mut w"
  shows "\<exists>w'. bfd_encode p w = Inr (length (pkt_bytes p), w') \<and> appended w (pkt_bytes p) w'"
proof -
  have fl: "auth p = Some a \<Longrightarrow> flags p OR AUTH = flags p" for a
    using assms(1) by (auto simp: pkt_wf_def has_flags_or)
  have auth: "length (case auth p of None \<Rightarrow> [] | Some a \<Rightarrow> auth_bytes a) =
      (case auth p of None \<Rightarrow> 0 | Some a \<Rightarrow> wire_len a)"
    using assms(1) by (auto simp: pkt_wf_def length_auth_bytes split: option.split)
  have len: "24 + (case auth p of None \<Rightarrow> 0 | Some a \<Rightarrow> wire_len a) \<le> remaining_mut w"
    using assms(3) auth by (simp add: pkt_bytes_def)
  let ?b = "(((((((([] @ [push_bit 5 BFD_VERSION OR (diag_to_u8 (diag p) AND 0x1f)]) @
      [push_bit 6 (state_u8 (pkt_state p)) OR (flags p AND 0x3f)]) @ [detect_mult p]) @ [pkt_length p]) @
      to_be_bytes 4 (my_discriminator p)) @ to_be_bytes 4 (your_discriminator p)) @
      to_be_bytes 4 (desired_min_tx_interval p)) @ to_be_bytes 4 (required_min_rx_interval p)) @
      to_be_bytes 4 (required_min_echo_interval p)"
  have body: "appended w ?b (put_body p (put_header p (flags p) w))"
    unfolding put_body_def put_header_def using len
    by (intro append_rules appended_refl assms(2)) simp_all
  have enc: "pkt_bytes p = ?b @ (case auth p of None \<Rightarrow> [] | Some a \<Rightarrow> auth_bytes a)"
    by (simp add: pkt_bytes_def)
  have lb: "length ?b = 24" by simp
  show ?thesis
  proof (cases "auth p")
    case None
    then show ?thesis
      using body len assms(1) lb enc by (auto simp: bfd_encode_def pkt_wf_def MIN_LEN_def Let_def)
  next
    case (Some a)
    then have "length ?b + wire_len a \<le> remaining_mut w" "auth_wf a"
      using len lb assms(1) by (auto simp: pkt_wf_def)
    from auth_encode_bytes[OF this(2) body this(1)] Some show ?thesis
      using len assms(1) lb enc auth
      by (auto simp: bfd_encode_def fl pkt_wf_def MIN_LEN_def Let_def)
  qed
qed

section \<open>Decoding what was encoded\<close>

lemma auth_type_round: "auth_type_from_u8 (auth_type_to_u8 t) = (case t of UnknownAuth v \<Rightarrow> auth_type_from_u8 v | _ \<Rightarrow> t)"
  by (cases t) (simp_all add: auth_type_from_u8_def)

lemma decode_keyed_hash_bytes:
  assumes "later r0 r (k # z # to_be_bytes 4 s @ d @ rest)" and "length d = n"
  shows "\<exists>r'. decode_keyed_hash t n r =
    Inr (\<lparr>auth_type = t, auth_key_id = k, auth_sequence = Some s, auth_data = d\<rparr>, r') \<and> later r0 r' rest"
proof -
  obtain r1 where 1: "get_u8 r = Some (k, r1)" "later r0 r1 (z # to_be_bytes 4 s @ d @ rest)"
    using assms(1) by (rule read_u8)
  obtain r2 where 2: "get_u8 r1 = Some (z, r2)" "later r0 r2 (to_be_bytes 4 s @ d @ rest)"
    using 1(2) by (rule read_u8)
  obtain r3 where 3: "get_u32_be r2 = Some (s, r3)" "later r0 r3 (d @ rest)" using 2(2) by (rule read_u32)
  obtain r4 where 4: "get_bytes n r3 = Some (d, r4)" "later r0 r4 rest"
    using 3(2) assms(2) by (rule read_bytes)
  from 1(1) 2(1) 3(1) 4 show ?thesis by (simp add: decode_keyed_hash_def)
qed

lemma unat_wire_len: "auth_wf a \<Longrightarrow> unat (of_nat (wire_len a) :: u8) = wire_len a"
  using wire_len_le[of a] by (simp add: unat_of_nat)

lemma auth_decode_bytes:
  assumes "auth_wf a" and "later r0 r (auth_bytes a @ rest)"
  shows "\<exists>r'. auth_decode r = Inr (a, r') \<and> later r0 r' rest"
proof -
  let ?tl = "auth_bytes a @ rest"
  have "\<exists>ys. ?tl = auth_type_to_u8 (auth_type a) # of_nat (wire_len a) # auth_key_id a # ys \<and>
      ys = (if auth_type a = SimplePassword then auth_data a @ rest
        else 0 # to_be_bytes 4 (the (auth_sequence a)) @ auth_data a @ rest)"
    using assms(1) by (auto simp: auth_bytes_def auth_wf_def split: auth_type.splits)
  then obtain ys where ys: "later r0 r (auth_type_to_u8 (auth_type a) # of_nat (wire_len a) # auth_key_id a # ys)"
    "ys = (if auth_type a = SimplePassword then auth_data a @ rest
        else 0 # to_be_bytes 4 (the (auth_sequence a)) @ auth_data a @ rest)" using assms(2) by auto
  obtain r1 where 1: "get_u8 r = Some (auth_type_to_u8 (auth_type a), r1)"
    "later r0 r1 (of_nat (wire_len a) # auth_key_id a # ys)" using ys(1) by (rule read_u8)
  obtain r2 where 2: "get_u8 r1 = Some (of_nat (wire_len a), r2)" "later r0 r2 (auth_key_id a # ys)"
    using 1(2) by (rule read_u8)
  show ?thesis
  proof (cases "auth_type a = SimplePassword")
    case True
    obtain r3 where 3: "get_u8 r2 = Some (auth_key_id a, r3)" "later r0 r3 (auth_data a @ rest)"
      using 2(2) True ys(2) by (auto elim: read_u8)
    obtain r4 where 4: "get_bytes (length (auth_data a)) r3 = Some (auth_data a, r4)" "later r0 r4 rest"
      using 3(2) by (rule read_bytes) simp
    have "wire_len a = 3 + length (auth_data a)" using True by (simp add: wire_len_def)
    with 1(1) 2(1) 3(1) 4 True assms(1) unat_wire_len[OF assms(1)] show ?thesis
      by (auto simp: auth_decode_def auth_type_from_u8_def auth_wf_def MAX_PASSWORD_LEN_def Let_def)
  next
    case False
    have "later r0 r2 (auth_key_id a # 0 # to_be_bytes 4 (the (auth_sequence a)) @ auth_data a @ rest)"
      using 2(2) ys(2) False by simp
    from decode_keyed_hash_bytes[OF this refl, of "auth_type a"]
    obtain r' where r': "decode_keyed_hash (auth_type a) (length (auth_data a)) r2 =
        Inr (\<lparr>auth_type = auth_type a, auth_key_id = auth_key_id a,
          auth_sequence = Some (the (auth_sequence a)), auth_data = auth_data a\<rparr>, r')" "later r0 r' rest"
      by blast
    have "\<lparr>auth_type = auth_type a, auth_key_id = auth_key_id a,
        auth_sequence = Some (the (auth_sequence a)), auth_data = auth_data a\<rparr> = a"
      using assms(1) False by (auto simp: auth_wf_def split: auth_type.splits)
    with r' 1(1) 2(1) False assms(1) unat_wire_len[OF assms(1)] show ?thesis
      by (auto simp: auth_decode_def auth_type_from_u8_def auth_wf_def wire_len_def Let_def
          split: auth_type.splits)
  qed
qed

lemma and_1f_id: "v < (32 :: u8) \<Longrightarrow> v AND 0x1f = v"
proof -
  assume "v < 32"
  then have "unat v < 32" by (simp add: word_less_nat_alt)
  then have "take_bit 5 v = v" by (simp add: word_unat_eq_iff unsigned_take_bit_eq take_bit_nat_eq_self)
  then show ?thesis by (simp add: take_bit_eq_mask mask_eq_exp_minus_1)
qed

lemma diag_round:
  assumes "\<forall>v. d = UnknownDiag v \<longrightarrow> 9 < v \<and> v < 32"
  shows "diag_from_u8 (diag_to_u8 d AND 0x1f) = d"
proof (cases d)
  case (UnknownDiag v)
  then have "v AND 0x1f = v" "9 < v" using assms by (auto simp: and_1f_id)
  with UnknownDiag show ?thesis by (auto simp: diag_from_u8_def)
qed (simp_all add: diag_from_u8_def)

lemma mask_u8:
  "(x :: u8) AND 0x3f = take_bit 6 x" "(x :: u8) AND 0x1f = take_bit 5 x" "(x :: u8) AND 0x3 = take_bit 2 x"
  by (simp_all add: take_bit_eq_mask mask_eq_exp_minus_1)

lemma field_low: "take_bit n (push_bit n x OR take_bit n y) = take_bit n (y :: 'a::len word)"
  by (auto intro!: bit_word_eqI simp: bit_simps)

lemma field_high: "drop_bit n (push_bit n x OR take_bit n y) = take_bit (LENGTH('a) - n) (x :: 'a::len word)"
  by (auto intro!: bit_word_eqI simp: bit_simps)

lemma state_round: "state_from_u8 (drop_bit 6 (push_bit 6 (state_u8 s) OR (f AND 0x3f)) AND 0x3) = Some s"
  unfolding mask_u8 field_high by (cases s) (simp_all add: state_from_u8_def)

lemma state_flags: "(push_bit 6 (state_u8 s) OR (f AND 0x3f)) AND 0x3f = f AND 0x3f"
  unfolding mask_u8 field_low ..

lemma version_round: "drop_bit 5 (push_bit 5 BFD_VERSION OR (d AND 0x1f)) = BFD_VERSION"
  unfolding mask_u8 field_high by (simp add: BFD_VERSION_def)

lemma version_diag: "(push_bit 5 BFD_VERSION OR (d AND 0x1f)) AND 0x1f = d AND 0x1f"
  unfolding mask_u8 field_low ..

lemma unat_pkt_length:
  assumes "pkt_wf p"
  shows "unat (pkt_length p) = 24 + (case auth p of None \<Rightarrow> 0 | Some a \<Rightarrow> wire_len a)"
proof (cases "auth p")
  case (Some a)
  then have "wire_len a \<le> 28" using assms by (auto simp: pkt_wf_def intro: wire_len_le)
  then have "unat (of_nat (24 + wire_len a) :: u8) = 24 + wire_len a" by (simp add: unat_of_nat del: of_nat_add)
  with Some show ?thesis by (simp add: pkt_length_def MIN_LEN_def)
qed (simp add: pkt_length_def MIN_LEN_def)

lemma wire_len_ge: "auth_wf a \<Longrightarrow> 4 \<le> wire_len a"
  by (cases "auth_data a") (auto simp: auth_wf_def wire_len_def split: auth_type.splits)

lemma read_five_u32:
  assumes "later r0 r (to_be_bytes 4 a @ to_be_bytes 4 b @ to_be_bytes 4 c @ to_be_bytes 4 d @ to_be_bytes 4 e @ xs)"
  obtains r1 r2 r3 r4 r5 where "get_u32_be r = Some (a, r1)" "get_u32_be r1 = Some (b, r2)"
    "get_u32_be r2 = Some (c, r3)" "get_u32_be r3 = Some (d, r4)" "get_u32_be r4 = Some (e, r5)" "later r0 r5 xs"
  using assms by (elim read_u32) blast

lemma read_four_u8:
  assumes "later r0 r (a # b # c # d # xs)"
  obtains r1 r2 r3 r4 where "get_u8 r = Some (a, r1)" "get_u8 r1 = Some (b, r2)"
    "get_u8 r2 = Some (c, r3)" "get_u8 r3 = Some (d, r4)" "later r0 r4 xs"
  using assms by (elim read_u8) blast

lemma bfd_decode_bytes:
  assumes "pkt_wf p" and "later r0 r (pkt_bytes p @ rest)"
  shows "\<exists>r'. bfd_decode r = Inr (Some p, r') \<and> later r0 r' rest"
proof -
  let ?tl = "(case auth p of None \<Rightarrow> [] | Some a \<Rightarrow> auth_bytes a) @ rest"
  let ?b0 = "push_bit 5 BFD_VERSION OR (diag_to_u8 (diag p) AND 0x1f)"
  let ?b1 = "push_bit 6 (state_u8 (pkt_state p)) OR (flags p AND 0x3f)"
  let ?w = "to_be_bytes 4 :: u32 \<Rightarrow> bytes"
  let ?ws = "?w (my_discriminator p) @ ?w (your_discriminator p) @ ?w (desired_min_tx_interval p) @
      ?w (required_min_rx_interval p) @ ?w (required_min_echo_interval p) @ ?tl"
  have start: "later r0 r (?b0 # ?b1 # detect_mult p # pkt_length p # ?ws)"
    using assms(2) by (simp add: pkt_bytes_def)
  have tl: "length ?tl = (case auth p of None \<Rightarrow> 0 | Some a \<Rightarrow> wire_len a) + length rest"
    using assms(1) by (auto simp: pkt_wf_def length_auth_bytes split: option.split)
  obtain r1 r2 r3 r4 where hd: "get_u8 r = Some (?b0, r1)" "get_u8 r1 = Some (?b1, r2)"
    "get_u8 r2 = Some (detect_mult p, r3)" "get_u8 r3 = Some (pkt_length p, r4)" "later r0 r4 ?ws"
    using start by (rule read_four_u8)
  obtain r5 r6 r7 r8 r9 where ws: "get_u32_be r4 = Some (my_discriminator p, r5)"
    "get_u32_be r5 = Some (your_discriminator p, r6)" "get_u32_be r6 = Some (desired_min_tx_interval p, r7)"
    "get_u32_be r7 = Some (required_min_rx_interval p, r8)"
    "get_u32_be r8 = Some (required_min_echo_interval p, r9)" "later r0 r9 ?tl"
    using hd(5) by (rule read_five_u32)
  have rem: "\<not> remaining r < MIN_LEN" "remaining r4 = 20 + length ?tl"
    using later_remaining[OF start] later_remaining[OF hd(5)] by (simp_all add: MIN_LEN_def)
  have fl: "flags_truncate (?b1 AND 0x3f) = flags p"
    using assms(1) unfolding state_flags by (simp add: flags_truncate_def pkt_wf_def)
  have au: "\<exists>r'. (if has_flags (flags p) AUTH then map_sum id (\<lambda>(a, r). (Some a, r)) (auth_decode r9)
      else Inr (None, r9)) = Inr (auth p, r') \<and> later r0 r' rest"
  proof (cases "auth p")
    case (Some a)
    then have "auth_wf a" "later r0 r9 (auth_bytes a @ rest)" using assms(1) ws(6) by (auto simp: pkt_wf_def)
    from auth_decode_bytes[OF this] Some assms(1) show ?thesis by (auto simp: pkt_wf_def)
  qed (use assms(1) ws(6) in \<open>auto simp: pkt_wf_def\<close>)
  then obtain r' where r': "(if has_flags (flags p) AUTH then map_sum id (\<lambda>(a, r). (Some a, r)) (auth_decode r9)
      else Inr (None, r9)) = Inr (auth p, r')" "later r0 r' rest" by blast
  have len: "\<not> (unat (pkt_length p) < (if has_flags (flags p) AUTH then 26 else MIN_LEN) \<or>
      unat (pkt_length p) > remaining r4 + 4)"
    using assms(1) unat_pkt_length[OF assms(1)] rem(2) tl
    by (auto simp: pkt_wf_def MIN_LEN_def split: option.splits dest!: wire_len_ge)
  have "detect_mult p \<noteq> 0" and dg: "\<forall>v. diag p = UnknownDiag v \<longrightarrow> 9 < v \<and> v < 32"
    using assms(1) by (simp_all add: pkt_wf_def)
  then show ?thesis
    unfolding bfd_decode_def
    by (simp only: rem(1) hd(1-4) ws(1-5) r' fl len if_False ok_or_simps and_then_simps version_round
        state_round version_diag diag_round[OF dg] Let_def not_True_eq_False option.case
        simp_thms HOL.simp_thms refl) (simp add: r'(2))
qed

section \<open>The anti-replay window\<close>

definition in_window :: "bfd_keyed_auth \<Rightarrow> u8 \<Rightarrow> u32 \<Rightarrow> bool" where
  "in_window ka dm s \<longleftrightarrow>
     \<not> rcv_auth_seq_known ka \<or>
     (let d = unat (s - rcv_auth_seq ka)
      in d \<le> 3 * max (unat dm) 1 \<and> (is_meticulous (ka_algorithm ka) \<longrightarrow> 0 < d))"

lemma circular_window:
  fixes s r m :: u32
  assumes "0 < unat m"
  shows "in_circular_range s r (r + m) \<longleftrightarrow> unat (s - r) \<le> unat m"
    and "in_circular_range s (r + 1) (r + m) \<longleftrightarrow> 0 < unat (s - r) \<and> unat (s - r) \<le> unat m"
proof -
  show "in_circular_range s r (r + m) \<longleftrightarrow> unat (s - r) \<le> unat m"
    by (simp add: in_circular_range_def word_le_nat_alt)
  define d where "d = s - r"
  have e: "s - (r + 1) = d - 1" "r + m - (r + 1) = m - 1" by (simp_all add: d_def)
  have m1: "unat (m - 1) = unat m - 1"
    using assms by (simp add: unat_sub word_le_nat_alt)
  show "in_circular_range s (r + 1) (r + m) \<longleftrightarrow> 0 < unat (s - r) \<and> unat (s - r) \<le> unat m"
  proof (cases "d = 0")
    case True
    then have "unat (d - 1) = 2 ^ 32 - 1" by (simp add: unat_max)
    moreover have "unat m < 2 ^ 32" using unsigned_less[of m, where ?'a = nat] by simp
    ultimately show ?thesis
      unfolding in_circular_range_def e word_le_nat_alt m1 d_def[symmetric] using True assms by auto
  next
    case False
    then have "0 < unat d" by (simp add: unat_gt_0)
    moreover from this have "unat (d - 1) = unat d - 1" by (simp add: unat_sub word_le_nat_alt)
    ultimately show ?thesis
      unfolding in_circular_range_def e word_le_nat_alt m1 d_def[symmetric] using assms by auto
  qed
qed

lemma unat_window: "unat (3 * ucast (max (dm :: u8) 1) :: u32) = 3 * max (unat dm) 1"
proof -
  have "unat (max dm 1 :: u8) = max (unat dm) 1" by (simp add: max_def word_le_nat_alt)
  moreover have "unat (max dm 1 :: u8) < 256"
    using unsigned_less[of "max dm 1 :: u8", where ?'a = nat] by simp
  ultimately have "unat (ucast (max dm 1 :: u8) :: u32) = max (unat dm) 1" "max (unat dm) 1 < 256"
    by (simp_all add: unsigned_ucast_eq take_bit_nat_eq_self)
  then show ?thesis by (simp add: unat_word_ariths)
qed

lemma length_key_in_digest [simp]: "length (key_in_digest_field alg k) = digest_len alg"
  by (simp add: key_in_digest_field_def Let_def)

lemma verify_inbound_correct:
  assumes "length (auth_data sec) = digest_len (ka_algorithm ka)"
    and "auth_type sec = alg_auth_type (ka_algorithm ka)" and "auth_key_id sec = ka_key_id ka"
    and "auth_sequence sec = Some s" and "digest_len (ka_algorithm ka) \<le> length raw"
  shows "verify_inbound h raw sec dm ka =
    (if in_window ka dm s \<and> auth_data sec = h (ka_algorithm ka)
          (take (length raw - digest_len (ka_algorithm ka)) raw @ key_in_digest_field (ka_algorithm ka) (ka_secret ka))
     then (True, ka\<lparr>rcv_auth_seq_known := True, rcv_auth_seq := s\<rparr>) else (False, ka))"
proof -
  let ?m = "3 * ucast (max dm 1) :: u32"
  have "0 < unat ?m" unfolding unat_window by simp
  then have "in_circular_range s (if is_meticulous (ka_algorithm ka) then rcv_auth_seq ka + 1 else rcv_auth_seq ka)
      (rcv_auth_seq ka + ?m) \<longleftrightarrow>
    (unat (s - rcv_auth_seq ka) \<le> unat ?m \<and> (is_meticulous (ka_algorithm ka) \<longrightarrow> 0 < unat (s - rcv_auth_seq ka)))"
    using circular_window[of ?m s "rcv_auth_seq ka"] by auto
  then have w: "rcv_auth_seq_known ka \<and> \<not> in_circular_range s
      (if is_meticulous (ka_algorithm ka) then rcv_auth_seq ka + 1 else rcv_auth_seq ka) (rcv_auth_seq ka + ?m)
      \<longleftrightarrow> \<not> in_window ka dm s"
    unfolding unat_window by (auto simp: in_window_def Let_def)
  have l: "\<not> length raw < digest_len (ka_algorithm ka)" using assms(5) by simp
  show ?thesis
    unfolding verify_inbound_def Let_def assms(4) option.case w using assms(1,2,3) l by simp
qed

section \<open>Properties\<close>

text \<open>
  C31.  A well-formed control packet, with or without an authentication section, is read back from the
  bytes it is encoded to, and the reader stops right after it.
\<close>

theorem bfd_packet_roundtrip:
  assumes "pkt_wf p" and "length (pkt_bytes p) \<le> length buf"
  shows "\<exists>n w. bfd_encode p (wb_new buf) = Inr (n, w) \<and> n = length (written w) \<and>
    (\<exists>r. bfd_decode (rb_new (written w @ rest)) = Inr (Some p, r) \<and> rb_pos r = n)"
proof -
  have "wb_ok (wb_new buf)" "length (pkt_bytes p) \<le> remaining_mut (wb_new buf)" "written (wb_new buf) = []"
    using assms(2) by (simp_all add: wb_ok_def wb_new_def remaining_mut_def written_def)
  from bfd_encode_bytes[OF assms(1) this(1,2)] this(3) obtain w where
    w: "bfd_encode p (wb_new buf) = Inr (length (pkt_bytes p), w)" "written w = pkt_bytes p"
    by (auto simp: appended_def)
  have "later (rb_new (pkt_bytes p @ rest)) (rb_new (pkt_bytes p @ rest)) (pkt_bytes p @ rest)"
    by (simp add: later_def)
  from bfd_decode_bytes[OF assms(1) this] obtain r where
    "bfd_decode (rb_new (pkt_bytes p @ rest)) = Inr (Some p, r)" "later (rb_new (pkt_bytes p @ rest)) r rest"
    by blast
  moreover from this(2) have "rb_pos r = length (pkt_bytes p)"
    using later_pos by (fastforce simp: rb_new_def)
  ultimately show ?thesis using w by auto
qed

definition sample_packet :: bfd_packet where
  "sample_packet =
     \<lparr>diag = NoDiag, pkt_state = Up, flags = AUTH, detect_mult = 3, my_discriminator = 7,
      your_discriminator = 9, desired_min_tx_interval = 1000000, required_min_rx_interval = 1000000,
      required_min_echo_interval = 0, auth = Some (simple_password [1, 2, 3] 5)\<rparr>"

theorem bfd_packet_roundtrip_witness:
  "\<exists>n w. bfd_encode sample_packet (wb_new (replicate 96 0)) = Inr (n, w) \<and> n = length (written w) \<and>
     (\<exists>r. bfd_decode (rb_new (written w @ [])) = Inr (Some sample_packet, r) \<and> rb_pos r = n)"
  by (rule bfd_packet_roundtrip)
    (simp_all add: sample_packet_def pkt_wf_def auth_wf_def simple_password_def has_flags_def AUTH_def
      pkt_bytes_def auth_bytes_def)

text \<open>
  C32.  A packet signed with the shared secret is accepted exactly when its sequence number is in the
  anti-replay window; accepting it moves the window, and a meticulous receiver then refuses the same
  packet.  The digest function may be any function with results of the digest length.
\<close>

theorem keyed_auth_window:
  assumes "\<And>alg b. length (h alg b) = digest_len alg"
    and "ka_key_id ka = ka_key_id kb" "ka_algorithm ka = ka_algorithm kb" "ka_secret ka = ka_secret kb"
    and "auth p = Some (auth_section_for_tx kb)"
  shows "let raw = sign_packet h kb (pkt_bytes p);
      sec = (auth_section_for_tx kb)\<lparr>auth_data := h (ka_algorithm kb) (pkt_bytes p)\<rparr>;
      (ok, ka') = verify_inbound h raw sec dm ka
    in (ok \<longleftrightarrow> in_window ka dm (xmit_seq kb)) \<and>
       (ok \<longrightarrow> rcv_auth_seq ka' = xmit_seq kb \<and>
          (fst (verify_inbound h raw sec dm ka') \<longleftrightarrow> \<not> is_meticulous (ka_algorithm ka)))"
proof -
  let ?alg = "ka_algorithm kb" and ?key = "key_in_digest_field (ka_algorithm kb) (ka_secret kb)"
  define sec where "sec = (auth_section_for_tx kb)\<lparr>auth_data := h ?alg (pkt_bytes p)\<rparr>"
  define raw where "raw = sign_packet h kb (pkt_bytes p)"
  obtain pre where pre: "pkt_bytes p = pre @ ?key"
    using assms(5) by (cases ?alg) (auto simp: pkt_bytes_def auth_bytes_def auth_section_for_tx_def)
  have raw: "raw = pre @ h ?alg (pkt_bytes p)"
    using assms(1) by (simp add: raw_def sign_packet_def pre Let_def)
  have ver: "verify_inbound h raw sec dm k =
      (if in_window k dm (xmit_seq kb) then (True, k\<lparr>rcv_auth_seq_known := True, rcv_auth_seq := xmit_seq kb\<rparr>)
       else (False, k))"
    if "ka_algorithm k = ?alg" "ka_key_id k = ka_key_id kb" "ka_secret k = ka_secret kb" for k
    using that assms(1) raw pre
    by (subst verify_inbound_correct) (auto simp: sec_def auth_section_for_tx_def)
  show ?thesis
    unfolding raw_def[symmetric] sec_def[symmetric] Let_def
    using assms(2,3,4) by (auto simp: ver in_window_def Let_def split: if_splits)
qed

definition sample_digest :: digest_fun where
  "sample_digest alg b = replicate (digest_len alg) (of_nat (length b))"

definition sample_keyed :: "u32 \<Rightarrow> bfd_keyed_auth" where
  "sample_keyed s =
     \<lparr>ka_key_id = 1, ka_algorithm = AlgMeticulousSha1, ka_secret = [1, 2, 3], xmit_seq = s,
      rcv_auth_seq_known = True, rcv_auth_seq = 5\<rparr>"

theorem keyed_auth_window_witness:
  "fst (verify_inbound sample_digest
       (sign_packet sample_digest (sample_keyed 7)
         (pkt_bytes (sample_packet\<lparr>auth := Some (auth_section_for_tx (sample_keyed 7))\<rparr>)))
       ((auth_section_for_tx (sample_keyed 7))\<lparr>auth_data := sample_digest AlgMeticulousSha1
         (pkt_bytes (sample_packet\<lparr>auth := Some (auth_section_for_tx (sample_keyed 7))\<rparr>))\<rparr>)
       3 (sample_keyed 0))"
proof -
  have len: "length (sample_digest alg b) = digest_len alg" for alg b by (simp add: sample_digest_def)
  have same: "ka_key_id (sample_keyed s) = 1" "ka_algorithm (sample_keyed s) = AlgMeticulousSha1"
    "ka_secret (sample_keyed s) = [1, 2, 3]" for s by (simp_all add: sample_keyed_def)
  have win: "in_window (sample_keyed 0) 3 (xmit_seq (sample_keyed 7))"
    by (simp add: sample_keyed_def in_window_def)
  have "auth (sample_packet\<lparr>auth := Some (auth_section_for_tx (sample_keyed 7))\<rparr>) =
      Some (auth_section_for_tx (sample_keyed 7))" by simp
  from keyed_auth_window[of sample_digest "sample_keyed 0" "sample_keyed 7", OF len _ _ _ this, of 3] same win
  show ?thesis by (simp add: split_beta Let_def)
qed

end
