(* ===== verification/LR_BfdSession.thy ===== *)
theory LR_BfdSession
  imports LR_BfdPacket LR_Timer
begin

text \<open>
  The BFD session of \<open>crates/lr-bfd/src/session.rs\<close>: configuration, state variables, reception with the
  discard rules and the state machine, the poll sequence, timers, and transmission.  The events that the
  code returns are the second component of each operation's result.  The digest function \<open>h\<close> is the
  one of the packet theory.
\<close>

section \<open>State\<close>

datatype session_role = Active | Passive

record bfd_config =
  cfg_detect_mult :: u8
  cfg_desired_min_tx :: u32
  cfg_required_min_rx :: u32
  cfg_required_min_echo :: u32
  role :: session_role
  cfg_auth_key :: "auth_key option"

definition default_bfd_config :: bfd_config where
  "default_bfd_config =
     \<lparr>cfg_detect_mult = 3, cfg_desired_min_tx = 1000000, cfg_required_min_rx = 1000000,
      cfg_required_min_echo = 0, role = Active, cfg_auth_key = None\<rparr>"

definition IDLE_TX_INTERVAL_US :: u32 where
  "IDLE_TX_INTERVAL_US = 1000000"

datatype bfd_event =
  StateChanged bfd_state bfd_state diagnostic | PeerDiagnostic diagnostic | Timeout | AuthFailed
  | OutboundQueued

definition TX :: timer_id where "TX = 1"
definition DETECT :: timer_id where "DETECT = 2"

record bfd_session =
  cfg :: bfd_config
  state :: bfd_state
  my_disc :: u32
  remote_disc :: u32
  local_diag :: diagnostic
  remote_state :: bfd_state
  remote_diag :: diagnostic
  remote_detect_mult :: u8
  remote_desired_tx :: u32
  remote_min_rx :: u32
  remote_demand :: bool
  desired_min_tx :: u32
  required_min_rx :: u32
  pending_tx :: "u32 option"
  pending_rx :: "u32 option"
  poll_active :: bool
  out_buf :: bytes
  last_peer_diag :: diagnostic
  pending_events :: "bfd_event list"
  timers :: timer_queue
  tx_armed :: bool
  last_tx_ms :: u64
  rng :: u32
  started :: bool
  keyed_auth :: "bfd_keyed_auth option"

definition session_new :: "bfd_config \<Rightarrow> u32 \<Rightarrow> bfd_session" where
  "session_new c disc =
     \<lparr>cfg = c, state = Down, my_disc = max disc 1, remote_disc = 0, local_diag = NoDiag,
      remote_state = Down, remote_diag = NoDiag, remote_detect_mult = 0, remote_desired_tx = 0,
      remote_min_rx = 0, remote_demand = False, desired_min_tx = max (cfg_desired_min_tx c) 1,
      required_min_rx = max (cfg_required_min_rx c) 1, pending_tx = None, pending_rx = None,
      poll_active = False, out_buf = [], last_peer_diag = NoDiag, pending_events = [], timers = [],
      tx_armed = False, last_tx_ms = 0, rng = disc * 2654435761 OR 1, started = False,
      keyed_auth = None\<rparr>"

section \<open>Intervals\<close>

definition tx_interval_us :: "bfd_session \<Rightarrow> u32" where
  "tx_interval_us s =
     (let base = (if state s = Up then desired_min_tx s else max (desired_min_tx s) IDLE_TX_INTERVAL_US)
      in max (max base (remote_min_rx s)) 1)"

definition detection_time_us :: "bfd_session \<Rightarrow> u64" where
  "detection_time_us s =
     (let interval = (ucast (max (max (required_min_rx s) (remote_desired_tx s)) 1) :: u64)
      in ucast (max (remote_detect_mult s) 1) * interval)"

definition advertised_tx :: "bfd_session \<Rightarrow> u32" where
  "advertised_tx s =
     (let v = (case pending_tx s of Some t \<Rightarrow> t | None \<Rightarrow> desired_min_tx s)
      in if state s = Up then v else max v IDLE_TX_INTERVAL_US)"

definition advertised_rx :: "bfd_session \<Rightarrow> u32" where
  "advertised_rx s = (case pending_rx s of Some t \<Rightarrow> t | None \<Rightarrow> required_min_rx s)"

definition tx_allowed :: "bfd_session \<Rightarrow> bool" where
  "tx_allowed s =
     (if state s = AdminDown then False
      else if role (cfg s) = Passive \<and> remote_disc s = 0 then False
      else if remote_demand s \<and> \<not> poll_active s \<and> state s = Up \<and> remote_state s = Up then False
      else if remote_min_rx s = 0 \<and> remote_disc s \<noteq> 0 then False
      else True)"

section \<open>Transitions and transmission\<close>

definition push_event :: "bfd_event \<Rightarrow> bfd_session \<Rightarrow> bfd_session" where
  "push_event e s = s\<lparr>pending_events := pending_events s @ [e]\<rparr>"

definition transition :: "bfd_state \<Rightarrow> bfd_session \<Rightarrow> bfd_session" where
  "transition t s =
     (if t = state s then s
      else
        let from = state s;
            s = s\<lparr>state := t\<rparr>;
            s = (if from = Up then s\<lparr>poll_active := False, pending_tx := None, pending_rx := None\<rparr> else s)
        in push_event (StateChanged from t (local_diag s)) s)"

definition outbound_packet :: "bfd_session \<Rightarrow> bool \<Rightarrow> bfd_packet" where
  "outbound_packet s final_bit =
     (let fl = (if poll_active s then POLL else 0);
          fl = (if final_bit then fl OR FINAL else fl);
          au = (case keyed_auth s of
              Some ka \<Rightarrow> Some (auth_section_for_tx ka)
            | None \<Rightarrow> map_option (\<lambda>k. simple_password (key_data k) (key_key_id k)) (cfg_auth_key (cfg s)));
          fl = (if au \<noteq> None then fl OR AUTH else fl)
      in \<lparr>diag = local_diag s, pkt_state = state s, flags = fl, detect_mult = max (cfg_detect_mult (cfg s)) 1,
          my_discriminator = my_disc s, your_discriminator = remote_disc s,
          desired_min_tx_interval = advertised_tx s, required_min_rx_interval = advertised_rx s,
          required_min_echo_interval = cfg_required_min_echo (cfg s), auth = au\<rparr>)"

definition enqueue_packet :: "digest_fun \<Rightarrow> u64 \<Rightarrow> bool \<Rightarrow> bfd_session \<Rightarrow> bfd_session" where
  "enqueue_packet h now final_bit s =
     (let p = outbound_packet s final_bit;
          s = s\<lparr>last_tx_ms := now\<rparr>
      in case bfd_encode p (wb_new (replicate 96 0)) of
           Inl _ \<Rightarrow> s
         | Inr (_, w) \<Rightarrow>
             (case keyed_auth s of
                None \<Rightarrow> s\<lparr>out_buf := out_buf s @ written w\<rparr>
              | Some ka \<Rightarrow>
                  s\<lparr>out_buf := out_buf s @ sign_packet h ka (written w),
                    keyed_auth := Some (advance_xmit_seq ka)\<rparr>))"

definition xorshift :: "u32 \<Rightarrow> u32" where
  "xorshift r =
     (let r = r XOR push_bit 13 r; r = r XOR drop_bit 17 r in r XOR push_bit 5 r)"

definition jittered_ms :: "u64 \<Rightarrow> u8 \<Rightarrow> u32 \<Rightarrow> u64" where
  "jittered_ms base_us dm r =
     (let span = (if dm \<le> 1 then 15 else 25 :: u64);
          jitter_pct = (if dm \<le> 1 then 10 + ucast r mod (span + 1) else ucast r mod (span + 1));
          interval_us = base_us - base_us * jitter_pct div 100
      in max (interval_us div 1000) 1)"

definition arm_tx_timer :: "u64 \<Rightarrow> bfd_session \<Rightarrow> bfd_session" where
  "arm_tx_timer now s =
     (if \<not> tx_allowed s then s\<lparr>timers := timer_cancel TX (timers s), tx_armed := False\<rparr>
      else
        let r = xorshift (rng s);
            interval_ms = jittered_ms (ucast (tx_interval_us s)) (cfg_detect_mult (cfg s)) r;
            normal = now + interval_ms;
            deadline = saturating_add (last_tx_ms s) interval_ms;
            fire_at = min normal (max deadline now)
        in s\<lparr>rng := r, timers := arm now TX (timer_once (fire_at - now)) (timer_cancel TX (timers s)),
             tx_armed := True\<rparr>)"

text \<open>\<open>core::mem::take(&mut self.pending_events)\<close>\<close>

definition take_events :: "bfd_session \<Rightarrow> bfd_session \<times> bfd_event list" where
  "take_events s = (s\<lparr>pending_events := []\<rparr>, pending_events s)"

section \<open>Reception\<close>

definition check_auth :: "digest_fun \<Rightarrow> bytes \<Rightarrow> bfd_packet \<Rightarrow> bfd_session \<Rightarrow> bool \<times> bfd_session" where
  "check_auth h raw pkt s =
     (let mismatch = (False, push_event AuthFailed s)
      in case keyed_auth s of
           Some ka \<Rightarrow>
             (case auth pkt of
                None \<Rightarrow> mismatch
              | Some sec \<Rightarrow>
                  if auth_type sec \<noteq> alg_auth_type (ka_algorithm ka) then mismatch
                  else if auth_key_id sec \<noteq> ka_key_id ka then mismatch
                  else
                    (let (ok, ka') = verify_inbound h raw sec (cfg_detect_mult (cfg s)) ka;
                         s' = s\<lparr>keyed_auth := Some ka'\<rparr>
                     in if ok then (True, s') else (False, push_event AuthFailed s')))
         | None \<Rightarrow>
             (case (cfg_auth_key (cfg s), auth pkt) of
                (None, None) \<Rightarrow> (True, s)
              | (None, Some _) \<Rightarrow> mismatch
              | (Some _, None) \<Rightarrow> mismatch
              | (Some k, Some sec) \<Rightarrow>
                  if auth_type sec \<noteq> SimplePassword \<or> auth_key_id sec \<noteq> key_key_id k \<or>
                     auth_data sec \<noteq> key_data k
                  then mismatch else (True, s)))"

text \<open>The discard rules that do not depend on authentication, in the order of the code.\<close>

definition discarded :: "bfd_packet \<Rightarrow> bfd_session \<Rightarrow> bool" where
  "discarded pkt s \<longleftrightarrow>
     detect_mult pkt = 0 \<or> has_flags (flags pkt) MULTIPOINT \<or> has_flags (flags pkt) (POLL OR FINAL) \<or>
     my_discriminator pkt = 0 \<or>
     (your_discriminator pkt \<noteq> 0 \<and> your_discriminator pkt \<noteq> my_disc s) \<or>
     (your_discriminator pkt = 0 \<and> pkt_state pkt \<noteq> Down \<and> pkt_state pkt \<noteq> AdminDown) \<or>
     state s = AdminDown"

definition update_remote :: "bfd_packet \<Rightarrow> bfd_session \<Rightarrow> bfd_session" where
  "update_remote pkt s =
     (let s = s\<lparr>remote_disc := my_discriminator pkt, remote_state := pkt_state pkt, remote_diag := diag pkt,
                remote_demand := has_flags (flags pkt) DEMAND,
                remote_min_rx := required_min_rx_interval pkt,
                remote_desired_tx := desired_min_tx_interval pkt, remote_detect_mult := detect_mult pkt\<rparr>
      in if diag pkt \<noteq> last_peer_diag s then
           let s = s\<lparr>last_peer_diag := diag pkt\<rparr>
           in if diag pkt \<noteq> NoDiag then push_event (PeerDiagnostic (diag pkt)) s else s
         else s)"

definition finish_poll :: "bfd_packet \<Rightarrow> bfd_session \<Rightarrow> bfd_session" where
  "finish_poll pkt s =
     (if poll_active s \<and> has_flags (flags pkt) FINAL then
        let s = s\<lparr>poll_active := False\<rparr>;
            s = (case pending_tx s of Some t \<Rightarrow> s\<lparr>desired_min_tx := t, pending_tx := None\<rparr> | None \<Rightarrow> s)
        in (case pending_rx s of Some t \<Rightarrow> s\<lparr>required_min_rx := t, pending_rx := None\<rparr> | None \<Rightarrow> s)
      else s)"

definition next_state :: "bfd_state \<Rightarrow> bfd_state \<Rightarrow> bfd_state option" where
  "next_state st remote =
     (case st of
        Down \<Rightarrow> (case remote of Down \<Rightarrow> Some Init | Init \<Rightarrow> Some Up | _ \<Rightarrow> None)
      | Init \<Rightarrow> (case remote of Init \<Rightarrow> Some Up | Up \<Rightarrow> Some Up | _ \<Rightarrow> None)
      | Up \<Rightarrow> (if remote = Down then Some Down else None)
      | AdminDown \<Rightarrow> None)"

definition state_machine :: "bfd_packet \<Rightarrow> bfd_session \<Rightarrow> bfd_session" where
  "state_machine pkt s =
     (if pkt_state pkt = AdminDown then
        if state s \<noteq> Down then transition Down (s\<lparr>local_diag := NeighborSignaled\<rparr>) else s
      else
        case next_state (state s) (pkt_state pkt) of
          None \<Rightarrow> s
        | Some n \<Rightarrow> transition n (s\<lparr>local_diag := (if n \<noteq> Down then NoDiag else NeighborSignaled)\<rparr>))"

definition rearm_detect :: "u64 \<Rightarrow> bfd_session \<Rightarrow> bfd_session" where
  "rearm_detect now s =
     (let detect_ms = max (detection_time_us s div 1000) 1
      in s\<lparr>timers := arm now DETECT (timer_once detect_ms) (timer_cancel DETECT (timers s))\<rparr>)"

definition cadence :: "u64 \<Rightarrow> bfd_state \<Rightarrow> u32 \<Rightarrow> bfd_session \<Rightarrow> bfd_session" where
  "cadence now prev old_min_rx s =
     (if tx_allowed s then
        if \<not> tx_armed s \<or> prev \<noteq> state s \<or> old_min_rx \<noteq> remote_min_rx s then arm_tx_timer now s else s
      else if tx_armed s then s\<lparr>timers := timer_cancel TX (timers s), tx_armed := False\<rparr>
      else s)"

definition announce :: "digest_fun \<Rightarrow> u64 \<Rightarrow> bfd_state \<Rightarrow> bfd_session \<Rightarrow> bfd_session" where
  "announce h now prev s =
     (if prev \<noteq> state s \<and> tx_allowed s
      then push_event OutboundQueued (enqueue_packet h now False s) else s)"

definition answer_poll :: "digest_fun \<Rightarrow> u64 \<Rightarrow> bfd_packet \<Rightarrow> bfd_session \<Rightarrow> bfd_session" where
  "answer_poll h now pkt s =
     (if has_flags (flags pkt) POLL \<and> state s \<noteq> AdminDown
      then push_event OutboundQueued (enqueue_packet h now True s) else s)"

definition on_packet ::
    "digest_fun \<Rightarrow> u64 \<Rightarrow> bytes \<Rightarrow> bfd_packet \<Rightarrow> bfd_session \<Rightarrow> bfd_session \<times> bfd_event list" where
  "on_packet h now raw pkt s =
     (if discarded pkt s then (s, [])
      else
        let (ok, s) = check_auth h raw pkt s
        in if \<not> ok then take_events s
           else
             let old_min_rx = remote_min_rx s;
                 s = finish_poll pkt (update_remote pkt s);
                 prev = state s;
                 s = rearm_detect now (state_machine pkt s);
                 s = cadence now prev old_min_rx s;
                 s = announce h now prev s;
                 s = answer_poll h now pkt s
             in take_events s)"

section \<open>Operations\<close>

definition expire :: "digest_fun \<Rightarrow> u64 \<Rightarrow> timer_id \<Rightarrow> bfd_session \<times> bfd_event list \<Rightarrow> bfd_session \<times> bfd_event list" where
  "expire h now tid = (\<lambda>(s, events).
     if tid = DETECT then
       if state s = Init \<or> state s = Up then
         let s = transition Down (s\<lparr>local_diag := CtrlExpired\<rparr>)
         in (if tx_allowed s then arm_tx_timer now s else s, events @ [Timeout])
       else (s, events)
     else if tid = TX then
       let s = s\<lparr>tx_armed := False\<rparr>
       in if tx_allowed s
          then (arm_tx_timer now (enqueue_packet h now False s), events @ [OutboundQueued])
          else (s, events)
     else (s, events))"

definition session_tick :: "digest_fun \<Rightarrow> u64 \<Rightarrow> bfd_session \<Rightarrow> (bfd_session \<times> bfd_event list) option" where
  "session_tick h now s =
     (let (s, events) = take_events s
      in case tick now (timers s) of
           None \<Rightarrow> None
         | Some (q, expired) \<Rightarrow>
             let (s, events) = fold (expire h now) expired (s\<lparr>timers := q\<rparr>, events);
                 (s, late) = take_events s
             in Some (s, events @ late))"

definition session_start :: "digest_fun \<Rightarrow> u64 \<Rightarrow> bfd_session \<Rightarrow> bfd_session \<times> bfd_event list" where
  "session_start h now s =
     take_events
       (if \<not> started s then
          let s = transition Down (s\<lparr>started := True\<rparr>)
          in if tx_allowed s then arm_tx_timer now (enqueue_packet h now False s) else s
        else s)"

definition admin_down :: "bfd_session \<Rightarrow> bfd_session \<times> bfd_event list" where
  "admin_down s =
     take_events
       ((transition AdminDown (s\<lparr>local_diag := DiagAdminDown\<rparr>))\<lparr>timers := cancel_all (timers s), tx_armed := False\<rparr>)"

definition set_keyed_auth :: "bfd_keyed_auth option \<Rightarrow> bfd_session \<Rightarrow> bfd_session" where
  "set_keyed_auth ka s = s\<lparr>keyed_auth := ka\<rparr>"

definition update_timers :: "u64 \<Rightarrow> u32 \<Rightarrow> u32 \<Rightarrow> bfd_session \<Rightarrow> bfd_session \<times> bfd_event list" where
  "update_timers now tx rx s =
     (let tx = max tx 1; rx = max rx 1; old_tx = desired_min_tx s; old_rx = required_min_rx s;
          live = (state s = Up \<and> remote_disc s \<noteq> 0);
          s = (if live \<and> tx > old_tx then s\<lparr>pending_tx := Some tx\<rparr>
               else s\<lparr>desired_min_tx := tx, pending_tx := None\<rparr>);
          s = (if live \<and> rx < old_rx then s\<lparr>pending_rx := Some rx\<rparr>
               else s\<lparr>required_min_rx := rx, pending_rx := None\<rparr>);
          s = (if live \<and> (tx \<noteq> old_tx \<or> rx \<noteq> old_rx) then s\<lparr>poll_active := True\<rparr>
               else if \<not> live then s\<lparr>poll_active := False\<rparr> else s);
          s = (if tx_allowed s then arm_tx_timer now s
               else if tx_armed s then s\<lparr>timers := timer_cancel TX (timers s), tx_armed := False\<rparr>
               else s)
      in take_events s)"

definition drain_outgoing :: "bfd_session \<Rightarrow> bfd_session \<times> bytes" where
  "drain_outgoing s = (s\<lparr>out_buf := []\<rparr>, out_buf s)"

section \<open>What the helpers leave alone\<close>

lemma enqueue_packet_fields [simp]:
  "cfg (enqueue_packet h now f s) = cfg s" "state (enqueue_packet h now f s) = state s"
  "my_disc (enqueue_packet h now f s) = my_disc s" "remote_disc (enqueue_packet h now f s) = remote_disc s"
  "remote_state (enqueue_packet h now f s) = remote_state s"
  "remote_min_rx (enqueue_packet h now f s) = remote_min_rx s"
  "remote_demand (enqueue_packet h now f s) = remote_demand s"
  "desired_min_tx (enqueue_packet h now f s) = desired_min_tx s"
  "required_min_rx (enqueue_packet h now f s) = required_min_rx s"
  "pending_tx (enqueue_packet h now f s) = pending_tx s"
  "pending_rx (enqueue_packet h now f s) = pending_rx s"
  "poll_active (enqueue_packet h now f s) = poll_active s"
  "timers (enqueue_packet h now f s) = timers s" "tx_armed (enqueue_packet h now f s) = tx_armed s"
  "pending_events (enqueue_packet h now f s) = pending_events s"
  by (simp_all add: enqueue_packet_def Let_def split: sum.split option.split prod.split)

lemma arm_tx_timer_fields [simp]:
  "cfg (arm_tx_timer now s) = cfg s" "state (arm_tx_timer now s) = state s"
  "my_disc (arm_tx_timer now s) = my_disc s" "remote_disc (arm_tx_timer now s) = remote_disc s"
  "remote_state (arm_tx_timer now s) = remote_state s" "remote_min_rx (arm_tx_timer now s) = remote_min_rx s"
  "remote_demand (arm_tx_timer now s) = remote_demand s"
  "desired_min_tx (arm_tx_timer now s) = desired_min_tx s"
  "required_min_rx (arm_tx_timer now s) = required_min_rx s"
  "pending_tx (arm_tx_timer now s) = pending_tx s" "pending_rx (arm_tx_timer now s) = pending_rx s"
  "poll_active (arm_tx_timer now s) = poll_active s"
  "pending_events (arm_tx_timer now s) = pending_events s"
  by (simp_all add: arm_tx_timer_def Let_def)

lemma transition_fields [simp]:
  "cfg (transition t s) = cfg s" "state (transition t s) = t" "my_disc (transition t s) = my_disc s"
  "remote_disc (transition t s) = remote_disc s" "remote_state (transition t s) = remote_state s"
  "remote_min_rx (transition t s) = remote_min_rx s" "remote_demand (transition t s) = remote_demand s"
  "desired_min_tx (transition t s) = desired_min_tx s" "required_min_rx (transition t s) = required_min_rx s"
  "timers (transition t s) = timers s" "tx_armed (transition t s) = tx_armed s"
  by (simp_all add: transition_def push_event_def Let_def)

lemma push_event_fields [simp]:
  "cfg (push_event e s) = cfg s" "state (push_event e s) = state s" "my_disc (push_event e s) = my_disc s"
  "remote_disc (push_event e s) = remote_disc s" "remote_state (push_event e s) = remote_state s"
  "remote_min_rx (push_event e s) = remote_min_rx s" "remote_demand (push_event e s) = remote_demand s"
  "desired_min_tx (push_event e s) = desired_min_tx s" "required_min_rx (push_event e s) = required_min_rx s"
  "pending_tx (push_event e s) = pending_tx s" "pending_rx (push_event e s) = pending_rx s"
  "poll_active (push_event e s) = poll_active s" "timers (push_event e s) = timers s"
  "tx_armed (push_event e s) = tx_armed s"
  by (simp_all add: push_event_def)

lemma take_events_fields [simp]:
  "state (fst (take_events s)) = state s" "my_disc (fst (take_events s)) = my_disc s"
  "desired_min_tx (fst (take_events s)) = desired_min_tx s"
  "required_min_rx (fst (take_events s)) = required_min_rx s"
  "pending_tx (fst (take_events s)) = pending_tx s" "pending_rx (fst (take_events s)) = pending_rx s"
  "poll_active (fst (take_events s)) = poll_active s" "timers (fst (take_events s)) = timers s"
  "tx_armed (fst (take_events s)) = tx_armed s" "remote_disc (fst (take_events s)) = remote_disc s"
  by (simp_all add: take_events_def)

section \<open>The invariant\<close>

text \<open>
  A poll sequence runs only in an Up session and only it holds pending intervals; intervals and the
  discriminator are positive.
\<close>

definition poll_ok :: "bfd_session \<Rightarrow> bool" where
  "poll_ok s \<longleftrightarrow>
     (pending_tx s \<noteq> None \<or> pending_rx s \<noteq> None \<longrightarrow> poll_active s) \<and> (poll_active s \<longrightarrow> state s = Up) \<and>
     1 \<le> desired_min_tx s \<and> 1 \<le> required_min_rx s \<and> my_disc s \<noteq> 0 \<and>
     (\<forall>t. pending_tx s = Some t \<longrightarrow> 1 \<le> t) \<and> (\<forall>t. pending_rx s = Some t \<longrightarrow> 1 \<le> t)"

text \<open>
  The queue holds at most one entry of each of the two timers, fired once, a transmission entry exactly
  when \<open>tx_armed\<close> says so, and nothing while administratively down.
\<close>

definition entries_of :: "timer_id \<Rightarrow> timer_queue \<Rightarrow> nat" where
  "entries_of i q = length (filter (\<lambda>e. entry_id e = i) q)"

definition queue_ok :: "timer_queue \<Rightarrow> bool" where
  "queue_ok q \<longleftrightarrow>
     (\<forall>e \<in> set q. period e = 0 \<and> (entry_id e = TX \<or> entry_id e = DETECT)) \<and> entries_of DETECT q \<le> 1"

definition timers_ok :: "bfd_session \<Rightarrow> bool" where
  "timers_ok s \<longleftrightarrow>
     queue_ok (timers s) \<and> entries_of TX (timers s) = (if tx_armed s then 1 else 0) \<and>
     (state s = AdminDown \<longrightarrow> timers s = [])"

definition session_inv :: "bfd_session \<Rightarrow> bool" where
  "session_inv s \<longleftrightarrow> poll_ok s \<and> timers_ok s"

lemma TX_DETECT [simp]: "TX \<noteq> DETECT" "DETECT \<noteq> TX"
  by (simp_all add: TX_def DETECT_def)

lemma entries_cancel [simp]:
  "entries_of i (timer_cancel j q) = (if i = j then 0 else entries_of i q)"
  by (induction q) (auto simp: entries_of_def timer_cancel_def)

lemma entries_arm [simp]:
  "entries_of i (arm now j (timer_once a) q) = (if i = j then entries_of i q + 1 else entries_of i q)"
  by (simp add: entries_of_def arm_def)

lemma queue_Nil [simp]: "timer_cancel j [] = []" "entries_of i [] = 0" "queue_ok []"
  by (simp_all add: timer_cancel_def entries_of_def queue_ok_def)

lemma queue_cancel: "queue_ok q \<Longrightarrow> queue_ok (timer_cancel j q)"
proof -
  have "set (timer_cancel j q) \<subseteq> set q" by (auto simp: timer_cancel_def)
  moreover assume "queue_ok q"
  ultimately show ?thesis by (auto simp: queue_ok_def)
qed

lemma queue_arm:
  "queue_ok q \<Longrightarrow> entries_of j q = 0 \<Longrightarrow> j = TX \<or> j = DETECT \<Longrightarrow> queue_ok (arm now j (timer_once a) q)"
  by (auto simp: queue_ok_def arm_def timer_once_def entries_of_def)

lemma poll_ok_cong:
  assumes "poll_ok s" "state s' = state s" "pending_tx s' = pending_tx s" "pending_rx s' = pending_rx s"
    "poll_active s' = poll_active s" "desired_min_tx s' = desired_min_tx s"
    "required_min_rx s' = required_min_rx s" "my_disc s' = my_disc s"
  shows "poll_ok s'"
  using assms by (simp add: poll_ok_def)

lemma timers_ok_cong:
  assumes "timers_ok s" "state s' = state s" "timers s' = timers s" "tx_armed s' = tx_armed s"
  shows "timers_ok s'"
  using assms by (simp add: timers_ok_def)

lemma arm_tx_timer_ok:
  assumes "queue_ok (timers s)" and "state s = AdminDown \<longrightarrow> timers s = []"
  shows "timers_ok (arm_tx_timer now s)"
proof (cases "tx_allowed s")
  case True
  then have "state s \<noteq> AdminDown" by (auto simp: tx_allowed_def)
  with True assms queue_arm[OF queue_cancel[OF assms(1), of TX], of TX] show ?thesis
    by (simp add: arm_tx_timer_def timers_ok_def Let_def)
next
  case False
  with assms queue_cancel[OF assms(1), of TX] show ?thesis
    by (auto simp: arm_tx_timer_def timers_ok_def)
qed

lemma cancel_tx_ok: "timers_ok s \<Longrightarrow> timers_ok (s\<lparr>timers := timer_cancel TX (timers s), tx_armed := False\<rparr>)"
  using queue_cancel[of "timers s" TX] by (auto simp: timers_ok_def)

lemma poll_ok_transition: "poll_ok s \<Longrightarrow> poll_ok (transition t (s\<lparr>local_diag := d\<rparr>))"
  by (auto simp: poll_ok_def transition_def push_event_def Let_def)

lemma timers_ok_transition:
  "timers_ok s \<Longrightarrow> t \<noteq> AdminDown \<Longrightarrow> timers_ok (transition t (s\<lparr>local_diag := d\<rparr>))"
  by (simp add: timers_ok_def)

lemma check_auth_fields [simp]:
  "state (snd (check_auth h raw pkt s)) = state s" "my_disc (snd (check_auth h raw pkt s)) = my_disc s"
  "pending_tx (snd (check_auth h raw pkt s)) = pending_tx s"
  "pending_rx (snd (check_auth h raw pkt s)) = pending_rx s"
  "poll_active (snd (check_auth h raw pkt s)) = poll_active s"
  "desired_min_tx (snd (check_auth h raw pkt s)) = desired_min_tx s"
  "required_min_rx (snd (check_auth h raw pkt s)) = required_min_rx s"
  "timers (snd (check_auth h raw pkt s)) = timers s" "tx_armed (snd (check_auth h raw pkt s)) = tx_armed s"
  "remote_min_rx (snd (check_auth h raw pkt s)) = remote_min_rx s" "cfg (snd (check_auth h raw pkt s)) = cfg s"
  by (simp_all add: check_auth_def Let_def split: option.split prod.split)

lemma check_auth_ok:
  "poll_ok (snd (check_auth h raw pkt s)) = poll_ok s" "timers_ok (snd (check_auth h raw pkt s)) = timers_ok s"
  by (simp_all add: poll_ok_def timers_ok_def)

lemma update_remote_fields [simp]:
  "state (update_remote pkt s) = state s" "timers (update_remote pkt s) = timers s"
  "tx_armed (update_remote pkt s) = tx_armed s" "pending_tx (update_remote pkt s) = pending_tx s"
  "pending_rx (update_remote pkt s) = pending_rx s" "poll_active (update_remote pkt s) = poll_active s"
  "desired_min_tx (update_remote pkt s) = desired_min_tx s" "my_disc (update_remote pkt s) = my_disc s"
  "required_min_rx (update_remote pkt s) = required_min_rx s" "cfg (update_remote pkt s) = cfg s"
  "remote_disc (update_remote pkt s) = my_discriminator pkt"
  "remote_min_rx (update_remote pkt s) = required_min_rx_interval pkt"
  "remote_demand (update_remote pkt s) = has_flags (flags pkt) DEMAND"
  "remote_state (update_remote pkt s) = pkt_state pkt"
  "remote_detect_mult (update_remote pkt s) = detect_mult pkt"
  "remote_desired_tx (update_remote pkt s) = desired_min_tx_interval pkt"
  by (simp_all add: update_remote_def push_event_def Let_def)

lemma finish_poll_ok: "poll_ok s \<Longrightarrow> poll_ok (finish_poll pkt s)"
  by (auto simp: finish_poll_def poll_ok_def Let_def split: option.split)

lemma finish_poll_fields [simp]:
  "state (finish_poll pkt s) = state s" "timers (finish_poll pkt s) = timers s"
  "tx_armed (finish_poll pkt s) = tx_armed s" "my_disc (finish_poll pkt s) = my_disc s"
  "cfg (finish_poll pkt s) = cfg s" "remote_disc (finish_poll pkt s) = remote_disc s"
  "remote_min_rx (finish_poll pkt s) = remote_min_rx s" "remote_state (finish_poll pkt s) = remote_state s"
  "remote_demand (finish_poll pkt s) = remote_demand s"
  by (simp_all add: finish_poll_def Let_def split: option.split)

lemma next_state_not_admin: "next_state a b = Some n \<Longrightarrow> n \<noteq> AdminDown"
  by (cases a; cases b) (auto simp: next_state_def)

lemma state_machine_poll: "poll_ok s \<Longrightarrow> poll_ok (state_machine pkt s)"
  by (auto simp: state_machine_def intro!: poll_ok_transition split: option.split)

lemma state_machine_timers: "timers_ok s \<Longrightarrow> timers_ok (state_machine pkt s)"
  by (auto simp: state_machine_def intro!: timers_ok_transition dest: next_state_not_admin split: option.split)

lemma rearm_detect_ok:
  assumes "timers_ok s" and "state s \<noteq> AdminDown"
  shows "timers_ok (rearm_detect now s)"
  using assms queue_arm[OF queue_cancel[of "timers s" DETECT], of DETECT]
  by (simp add: rearm_detect_def timers_ok_def Let_def)

lemma rearm_detect_fields [simp]:
  "state (rearm_detect now s) = state s" "poll_ok (rearm_detect now s) = poll_ok s"
  "tx_armed (rearm_detect now s) = tx_armed s"
  by (simp_all add: rearm_detect_def poll_ok_def Let_def)

lemma poll_ok_arm: "poll_ok (arm_tx_timer now s) = poll_ok s"
  and poll_ok_enqueue: "poll_ok (enqueue_packet h now f s) = poll_ok s"
  and poll_ok_push: "poll_ok (push_event e s) = poll_ok s"
  and poll_ok_take: "poll_ok (fst (take_events s)) = poll_ok s"
  by (simp_all add: poll_ok_def)

lemma timers_ok_enqueue: "timers_ok (enqueue_packet h now f s) = timers_ok s"
  and timers_ok_push: "timers_ok (push_event e s) = timers_ok s"
  and timers_ok_take: "timers_ok (fst (take_events s)) = timers_ok s"
  by (simp_all add: timers_ok_def)

lemmas ok_simps = poll_ok_arm poll_ok_enqueue poll_ok_push poll_ok_take timers_ok_enqueue timers_ok_push
  timers_ok_take

lemma state_machine_not_admin: "state s \<noteq> AdminDown \<Longrightarrow> state (state_machine pkt s) \<noteq> AdminDown"
  by (auto simp: state_machine_def dest: next_state_not_admin split: option.split)

lemma timers_ok_arm: "timers_ok s \<Longrightarrow> timers_ok (arm_tx_timer now s)"
  by (rule arm_tx_timer_ok) (simp_all add: timers_ok_def)

lemma on_packet_cases:
  "on_packet h now raw pkt s =
     (if discarded pkt s then (s, [])
      else if \<not> fst (check_auth h raw pkt s) then take_events (snd (check_auth h raw pkt s))
      else take_events (answer_poll h now pkt (announce h now (state s) (cadence now (state s) (remote_min_rx s)
        (rearm_detect now (state_machine pkt (finish_poll pkt (update_remote pkt (snd (check_auth h raw pkt s))))))))))"
  by (simp add: on_packet_def Let_def split_beta)

lemma cadence_state [simp]: "state (cadence now prev old s) = state s"
  by (simp add: cadence_def)

lemma announce_state [simp]: "state (announce h now prev s) = state s"
  by (simp add: announce_def)

lemma answer_poll_state [simp]: "state (answer_poll h now pkt s) = state s"
  by (simp add: answer_poll_def)

lemma cadence_ok: "poll_ok (cadence now prev old s) = poll_ok s" "timers_ok s \<Longrightarrow> timers_ok (cadence now prev old s)"
  by (auto simp: cadence_def ok_simps poll_ok_def timers_ok_arm cancel_tx_ok)

lemma announce_ok: "poll_ok (announce h now prev s) = poll_ok s" "timers_ok (announce h now prev s) = timers_ok s"
  by (simp_all add: announce_def ok_simps)

lemma answer_poll_ok: "poll_ok (answer_poll h now pkt s) = poll_ok s" "timers_ok (answer_poll h now pkt s) = timers_ok s"
  by (simp_all add: answer_poll_def ok_simps)

lemma on_packet_inv:
  assumes "session_inv s"
  shows "session_inv (fst (on_packet h now raw pkt s))"
proof (cases "discarded pkt s \<or> \<not> fst (check_auth h raw pkt s)")
  case True
  with assms show ?thesis by (auto simp: on_packet_cases session_inv_def ok_simps check_auth_ok)
next
  case False
  let ?u = "finish_poll pkt (update_remote pkt (snd (check_auth h raw pkt s)))"
  have adm: "state s \<noteq> AdminDown" using False by (auto simp: discarded_def)
  have "poll_ok ?u"
    by (rule finish_poll_ok) (rule poll_ok_cong[of s], use assms in \<open>simp_all add: session_inv_def\<close>)
  moreover have "timers_ok ?u"
    by (rule timers_ok_cong[of s]) (use assms in \<open>simp_all add: session_inv_def\<close>)
  moreover have "state (state_machine pkt ?u) \<noteq> AdminDown"
    by (rule state_machine_not_admin) (simp add: adm)
  ultimately have "poll_ok (rearm_detect now (state_machine pkt ?u))" "timers_ok (rearm_detect now (state_machine pkt ?u))"
    by (simp_all add: state_machine_poll rearm_detect_ok state_machine_timers)
  with False show ?thesis
    by (simp add: on_packet_cases session_inv_def ok_simps answer_poll_ok announce_ok cadence_ok)
qed

lemma update_timers_inv:
  assumes "session_inv s"
  shows "session_inv (fst (update_timers now tx rx s))"
proof -
  have ge: "1 \<le> max t (1 :: u32)" for t by simp
  let ?live = "state s = Up \<and> remote_disc s \<noteq> 0"
  define s1 where "s1 = (if ?live \<and> max tx 1 > desired_min_tx s then s\<lparr>pending_tx := Some (max tx 1)\<rparr>
      else s\<lparr>desired_min_tx := max tx 1, pending_tx := None\<rparr>)"
  define s2 where "s2 = (if ?live \<and> max rx 1 < required_min_rx s then s1\<lparr>pending_rx := Some (max rx 1)\<rparr>
      else s1\<lparr>required_min_rx := max rx 1, pending_rx := None\<rparr>)"
  define s3 where "s3 = (if ?live \<and> (max tx 1 \<noteq> desired_min_tx s \<or> max rx 1 \<noteq> required_min_rx s)
      then s2\<lparr>poll_active := True\<rparr> else if \<not> ?live then s2\<lparr>poll_active := False\<rparr> else s2)"
  have "poll_ok s3"
    using assms ge by (auto simp: s3_def s2_def s1_def session_inv_def poll_ok_def simp del: max_less_iff_conj)
  moreover have "timers_ok s3"
    by (rule timers_ok_cong[of s]) (use assms in \<open>simp_all add: s3_def s2_def s1_def session_inv_def\<close>)
  moreover have "fst (update_timers now tx rx s) = fst (take_events (if tx_allowed s3 then arm_tx_timer now s3
      else if tx_armed s3 then s3\<lparr>timers := timer_cancel TX (timers s3), tx_armed := False\<rparr> else s3))"
    by (simp only: update_timers_def Let_def s3_def s2_def s1_def)
  ultimately show ?thesis
    by (auto simp: session_inv_def ok_simps timers_ok_arm cancel_tx_ok poll_ok_cong)
qed

lemma session_start_inv:
  assumes "session_inv s"
  shows "session_inv (fst (session_start h now s))"
proof (cases "started s")
  case False
  let ?t = "transition Down (s\<lparr>started := True\<rparr>)"
  have "poll_ok ?t" "timers_ok ?t"
    using assms by (auto simp: session_inv_def poll_ok_def timers_ok_def transition_def push_event_def Let_def)
  with False show ?thesis by (auto simp: session_start_def session_inv_def ok_simps timers_ok_arm Let_def)
qed (use assms in \<open>simp add: session_start_def session_inv_def ok_simps\<close>)

lemma admin_down_inv: "session_inv s \<Longrightarrow> session_inv (fst (admin_down s))"
  by (auto simp: admin_down_def session_inv_def poll_ok_def timers_ok_def transition_def push_event_def
      cancel_all_def Let_def)

section \<open>Ticking\<close>

lemma tick_loop_once:
  assumes "\<forall>e \<in> set q. period e = 0"
  shows "\<exists>q' ids. tick_loop now q fired = Some (q', fired @ ids) \<and>
    mset q' = filter_mset (\<lambda>e. now < fire_at e) (mset q) \<and>
    mset ids = image_mset entry_id (filter_mset (\<lambda>e. fire_at e \<le> now) (mset q))"
  using assms
proof (induction "length q" arbitrary: q fired)
  case 0
  then show ?case by (subst tick_loop.simps) (simp add: heap_peek_None[THEN iffD2])
next
  case (Suc n)
  then obtain e where e: "heap_peek q = Some e" using heap_peek_None[of q] by fastforce
  from heap_peek_Some[OF e] have mem: "e \<in> set q" and least: "\<And>x. x \<in> set q \<Longrightarrow> fire_at e \<le> fire_at x" by auto
  show ?case
  proof (cases "fire_at e \<le> now")
    case False
    then have "filter (\<lambda>x. now < fire_at x) q = q" "filter (\<lambda>x. fire_at x \<le> now) q = []"
      using least by (auto simp: filter_id_conv filter_empty_conv not_le intro: less_le_trans)
    with False e show ?thesis by (subst tick_loop.simps) (auto simp flip: mset_filter)
  next
    case True
    have len: "n = length (remove1 e q)" using Suc.hyps(2) mem by (simp add: length_remove1)
    have per: "\<forall>x \<in> set (remove1 e q). period x = 0" "reschedule e = []"
      using Suc.prems mem by (auto simp: reschedule_def dest: notin_set_remove1[rotated])
    from Suc.hyps(1)[OF len per(1), of "fired @ [entry_id e]"] obtain q' ids where
      IH: "tick_loop now (remove1 e q) (fired @ [entry_id e]) = Some (q', (fired @ [entry_id e]) @ ids)"
        "mset q' = filter_mset (\<lambda>e. now < fire_at e) (mset (remove1 e q))"
        "mset ids = image_mset entry_id (filter_mset (\<lambda>e. fire_at e \<le> now) (mset (remove1 e q)))" by blast
    have q: "mset q = add_mset e (mset (remove1 e q))" using mem by simp
    have "tick_loop now q fired = Some (q', fired @ entry_id e # ids)"
      using e True per(2) IH(1) by (subst tick_loop.simps) simp
    moreover have "mset q' = filter_mset (\<lambda>e. now < fire_at e) (mset q)"
      using True by (subst q) (simp add: IH(2) not_less)
    moreover have "mset (entry_id e # ids) = image_mset entry_id (filter_mset (\<lambda>e. fire_at e \<le> now) (mset q))"
      using True by (subst q) (simp add: IH(3))
    ultimately show ?thesis by blast
  qed
qed

lemma entries_of_mset: "mset q = mset q' \<Longrightarrow> entries_of i q = entries_of i q'"
  unfolding entries_of_def by (metis mset_filter size_mset)

lemma entries_of_split: "entries_of i (filter P q) + entries_of i (filter (\<lambda>e. \<not> P e) q) = entries_of i q"
  by (induction q) (auto simp: entries_of_def)

lemma count_entry_ids: "count (mset (map entry_id q)) i = entries_of i q"
  by (induction q) (auto simp: entries_of_def)

lemma tick_queue:
  assumes "queue_ok q"
  shows "\<exists>q' ids. tick now q = Some (q', ids) \<and> queue_ok q' \<and> set ids \<subseteq> {TX, DETECT} \<and>
    entries_of TX q' + count (mset ids) TX = entries_of TX q \<and>
    entries_of DETECT q' + count (mset ids) DETECT = entries_of DETECT q \<and> (q = [] \<longrightarrow> q' = [])"
proof -
  let ?P = "\<lambda>e. now < fire_at e"
  have "\<forall>e \<in> set q. period e = 0" using assms by (simp add: queue_ok_def)
  from tick_loop_once[OF this, of now "[]"] obtain q' ids where
    t: "tick now q = Some (q', ids)" "mset q' = mset (filter ?P q)"
      "mset ids = mset (map entry_id (filter (\<lambda>e. \<not> ?P e) q))"
    by (auto simp: tick_def not_less)
  have n: "entries_of i q' + count (mset ids) i = entries_of i q" for i
    using entries_of_split[of i ?P q] entries_of_mset[OF t(2)] count_entry_ids[of "filter (\<lambda>e. \<not> ?P e) q" i]
    by (simp only: t(3))
  have sub: "set q' \<subseteq> set q" using mset_eq_setD[OF t(2)] by auto
  have "set ids \<subseteq> entry_id ` set q" using mset_eq_setD[OF t(3)] by auto
  then have ids: "set ids \<subseteq> {TX, DETECT}" using assms by (auto simp: queue_ok_def)
  have "queue_ok q'" using assms sub n[of DETECT] by (auto simp: queue_ok_def)
  with t(1) n ids sub show ?thesis by (intro exI[of _ q'] exI[of _ ids]) auto
qed

lemma expire_poll: "poll_ok s \<Longrightarrow> poll_ok (fst (expire h now i (s, ev)))"
  by (auto simp: expire_def ok_simps poll_ok_transition Let_def) (auto simp: poll_ok_def)

text \<open>
  While the fired timers are handled, \<open>tx_armed\<close> may still be set for an entry that has already fired;
  its handler is then still to run.
\<close>

definition half_ok :: "timer_id list \<Rightarrow> bfd_session \<Rightarrow> bool" where
  "half_ok ids s \<longleftrightarrow>
     queue_ok (timers s) \<and> (state s = AdminDown \<longrightarrow> timers s = []) \<and>
     (if TX \<in> set ids then entries_of TX (timers s) = 0 \<or> tx_allowed s else timers_ok s)"

lemma tx_allowed_down: "tx_allowed s \<Longrightarrow> tx_allowed (transition Down (s\<lparr>local_diag := d\<rparr>))"
  by (auto simp: tx_allowed_def split: if_splits)

lemma tx_allowed_arm [simp]: "tx_allowed (arm_tx_timer now s) = tx_allowed s"
  by (simp add: tx_allowed_def)

lemma half_arm:
  assumes "queue_ok (timers s)" and "state s = AdminDown \<longrightarrow> timers s = []" and "tx_allowed s"
  shows "half_ok ids (arm_tx_timer now s)"
  using arm_tx_timer_ok[OF assms(1,2), of now] assms(3) by (auto simp: half_ok_def timers_ok_def)

lemma expire_half:
  assumes "half_ok (i # ids) s" and "i = TX \<or> i = DETECT"
  shows "half_ok ids (fst (expire h now i (s, ev)))"
proof (cases "i = DETECT")
  case True
  let ?t = "transition Down (s\<lparr>local_diag := CtrlExpired\<rparr>)"
  have q: "queue_ok (timers ?t)" using assms(1) by (simp add: half_ok_def)
  show ?thesis
  proof (cases "(state s = Init \<or> state s = Up) \<and> tx_allowed ?t")
    case act: True
    with half_arm[of ?t ids now] q True show ?thesis by (auto simp: expire_def Let_def)
  next
    case False
    with assms(1) True q show ?thesis
      by (auto simp: expire_def half_ok_def timers_ok_def Let_def dest: tx_allowed_down split: if_splits)
  qed
next
  case False
  then have i: "i = TX" using assms(2) by simp
  let ?u = "enqueue_packet h now False (s\<lparr>tx_armed := False\<rparr>)"
  have al: "tx_allowed (s\<lparr>tx_armed := False\<rparr>) = tx_allowed s" "tx_allowed ?u = tx_allowed s"
    by (simp_all add: tx_allowed_def)
  show ?thesis
  proof (cases "tx_allowed s")
    case True
    with half_arm[of ?u ids now] assms(1) i al show ?thesis by (auto simp: expire_def half_ok_def Let_def)
  next
    case False
    with assms(1) i al show ?thesis by (auto simp: expire_def half_ok_def timers_ok_def Let_def)
  qed
qed

lemma expire_fold:
  assumes "half_ok ids s" and "poll_ok s" and "set ids \<subseteq> {TX, DETECT}"
  shows "half_ok [] (fst (fold (expire h now) ids (s, ev))) \<and> poll_ok (fst (fold (expire h now) ids (s, ev)))"
  using assms
proof (induction ids arbitrary: s ev)
  case (Cons i ids)
  obtain s' ev' where e: "expire h now i (s, ev) = (s', ev')" by fastforce
  have "half_ok ids s'" "poll_ok s'"
    using expire_half[of i ids s h now ev] expire_poll[of s h now i ev] Cons.prems e by auto
  with Cons.IH[of s' ev'] Cons.prems(3) e show ?case by simp
qed simp

lemma session_tick_inv:
  assumes "session_inv s"
  shows "\<exists>s' ev. session_tick h now s = Some (s', ev) \<and> session_inv s'"
proof -
  have q: "queue_ok (timers s)" using assms by (simp add: session_inv_def timers_ok_def)
  from tick_queue[OF q, of now] obtain q' ids where t: "tick now (timers s) = Some (q', ids)" "queue_ok q'"
    "set ids \<subseteq> {TX, DETECT}" "entries_of TX q' + count (mset ids) TX = entries_of TX (timers s)"
    "timers s = [] \<longrightarrow> q' = []" by blast
  let ?s = "(fst (take_events s))\<lparr>timers := q'\<rparr>"
  have "TX \<in> set ids \<Longrightarrow> entries_of TX q' = 0"
  proof -
    assume "TX \<in> set ids"
    then have "0 < count (mset ids) TX" by (simp add: count_greater_zero_iff)
    moreover have "entries_of TX (timers s) \<le> 1" using assms by (auto simp: session_inv_def timers_ok_def)
    ultimately show ?thesis using t(4) by linarith
  qed
  moreover have "TX \<notin> set ids \<Longrightarrow> entries_of TX q' = entries_of TX (timers s)"
    using t(4) by (simp add: count_eq_zero_iff[THEN iffD2])
  ultimately have "half_ok ids ?s"
    using assms t(2,5) by (auto simp: half_ok_def session_inv_def timers_ok_def)
  moreover have "poll_ok ?s" using assms by (simp add: session_inv_def poll_ok_def)
  ultimately have r: "half_ok [] (fst (fold (expire h now) ids (?s, snd (take_events s))))"
    "poll_ok (fst (fold (expire h now) ids (?s, snd (take_events s))))"
    using expire_fold[of ids ?s] t(3) by blast+
  then have "session_inv (fst (take_events (fst (fold (expire h now) ids (?s, snd (take_events s))))))"
    by (simp add: session_inv_def ok_simps half_ok_def)
  with t(1) show ?thesis by (simp add: session_tick_def Let_def split_beta)
qed

end
