(* ===== verification/LR_BfdRun.thy ===== *)
theory LR_BfdRun
  imports LR_BfdSession
begin

text \<open>
  The reception loop \<open>feed_bytes\<close> of \<open>crates/lr-bfd/src/session.rs\<close> on top of the packet handler, the runs
  of a session as an inductive step relation, and the properties of whole runs: the session invariant,
  the effect of an accepted packet, and that two sessions exchanging packets reach Up.
\<close>

section \<open>Reading makes progress\<close>

definition keeps :: "read_buf \<Rightarrow> 'e + 'a \<times> read_buf \<Rightarrow> bool" where
  "keeps r m \<longleftrightarrow> (\<forall>a r'. m = Inr (a, r') \<longrightarrow> remaining r' \<le> remaining r)"

lemma keeps_Inl [simp]: "keeps r (Inl e)"
  and keeps_Inr: "remaining r' \<le> remaining r \<Longrightarrow> keeps r (Inr (a, r'))"
  by (simp_all add: keeps_def)

lemma keeps_and_then:
  assumes "keeps r m" and "\<And>a s. keeps s (f a s)"
  shows "keeps r (and_then m f)"
proof (cases m)
  case (Inr p)
  then obtain a s where "m = Inr (a, s)" by (cases p) auto
  with assms(1) assms(2)[of s a] show ?thesis by (auto simp: keeps_def intro: order_trans)
qed simp

lemma get_u8_shrinks: "get_u8 r = Some (b, r') \<Longrightarrow> remaining r' < remaining r"
  by (auto simp: get_u8_def peek_u8_def rb_chunk_def remaining_def split: list.splits)
    (metis drop_eq_Nil diff_less_mono2 lessI list.distinct(1) not_le)

lemma get_bytes_shrinks: "get_bytes n r = Some (b, r') \<Longrightarrow> remaining r' \<le> remaining r"
  by (auto simp: get_bytes_def remaining_def split: if_splits)

lemma keeps_get:
  "keeps r (need c (get_u8 r))" "keeps r (need c (get_bytes n r))" "keeps r (need c (get_u32_be r))"
  by (auto simp: keeps_def ok_or_def get_u32_be_def less_imp_le dest: get_u8_shrinks get_bytes_shrinks
      split: option.splits)

lemma keeps_auth: "keeps r (auth_decode r)"
  by (auto simp: auth_decode_def decode_keyed_hash_def Let_def intro!: keeps_and_then keeps_get keeps_Inr
      split: auth_type.split)

lemma bfd_decode_shrinks:
  assumes "bfd_decode r = Inr (Some p, r')"
  shows "remaining r' < remaining r"
proof -
  obtain b r1 where b: "get_u8 r = Some (b, r1)"
    using assms by (cases "get_u8 r") (auto simp: bfd_decode_def split: if_splits)
  have opt: "keeps s (map_sum id (\<lambda>(a, r). (Some a, r)) (auth_decode s))" for s
    using keeps_auth[of s] by (cases "auth_decode s") (auto simp: keeps_def)
  have "keeps r1 (bfd_decode r) \<or> bfd_decode r = Inr (None, r)"
    unfolding bfd_decode_def Let_def b ok_or_simps and_then_simps
    by (auto intro!: keeps_and_then keeps_get keeps_Inr opt split: option.split)
  with assms get_u8_shrinks[OF b] show ?thesis by (auto simp: keeps_def)
qed

section \<open>The reception loop\<close>

function feed_loop ::
    "digest_fun \<Rightarrow> u64 \<Rightarrow> read_buf \<Rightarrow> bfd_session \<Rightarrow> bfd_event list \<Rightarrow> bfd_session \<times> bfd_event list" where
  "feed_loop h now r s events =
     (case bfd_decode r of
        Inr (Some pkt, r') \<Rightarrow>
          let raw = take (rb_pos r' - rb_pos r) (drop (rb_pos r) (rb_inner r));
              (s', evs) = on_packet h now raw pkt s
          in feed_loop h now r' s' (events @ evs)
      | _ \<Rightarrow> (s, events))"
  by pat_completeness auto
termination
  by (relation "measure (\<lambda>(h, now, r, s, events). remaining r)") (auto dest: bfd_decode_shrinks)

declare feed_loop.simps [simp del]

definition feed_bytes :: "digest_fun \<Rightarrow> u64 \<Rightarrow> bytes \<Rightarrow> bfd_session \<Rightarrow> bfd_session \<times> bfd_event list" where
  "feed_bytes h now b s = feed_loop h now (rb_new b) s []"

lemma feed_loop_inv: "session_inv s \<Longrightarrow> session_inv (fst (feed_loop h now r s events))"
proof (induction h now r s events rule: feed_loop.induct)
  case (1 h now r s events)
  show ?case
  proof (cases "\<exists>pkt r'. bfd_decode r = Inr (Some pkt, r')")
    case True
    then obtain pkt r' where d: "bfd_decode r = Inr (Some pkt, r')" by blast
    let ?raw = "take (rb_pos r' - rb_pos r) (drop (rb_pos r) (rb_inner r))"
    obtain s' evs where o: "on_packet h now ?raw pkt s = (s', evs)" by fastforce
    have "session_inv s'" using on_packet_inv[OF "1.prems", of h now ?raw pkt] o by simp
    with "1.IH"[OF d refl refl refl o[symmetric]] d o show ?thesis
      by (simp add: feed_loop.simps[of h now r])
  next
    case False
    then show ?thesis using "1.prems"
      by (subst feed_loop.simps) (auto split: sum.split option.split)
  qed
qed

section \<open>Runs\<close>

inductive session_step :: "digest_fun \<Rightarrow> bfd_session \<Rightarrow> bfd_session \<Rightarrow> bool" for h where
  step_start: "session_step h s (fst (session_start h now s))"
| step_feed: "session_step h s (fst (feed_bytes h now b s))"
| step_tick: "session_tick h now s = Some (s', events) \<Longrightarrow> session_step h s s'"
| step_drain: "session_step h s (fst (drain_outgoing s))"
| step_admin_down: "session_step h s (fst (admin_down s))"
| step_update: "session_step h s (fst (update_timers now tx rx s))"
| step_keyed: "session_step h s (set_keyed_auth ka s)"

inductive session_run :: "digest_fun \<Rightarrow> bfd_session \<Rightarrow> bfd_session \<Rightarrow> bool" for h where
  run_refl: "session_run h s s"
| run_step: "session_run h s t \<Longrightarrow> session_step h t u \<Longrightarrow> session_run h s u"

lemma session_new_inv: "session_inv (session_new c disc)"
proof -
  have "max disc 1 \<noteq> 0" by (metis max.cobounded2 word_le_0_iff zero_neq_one)
  then show ?thesis by (simp add: session_inv_def poll_ok_def timers_ok_def session_new_def)
qed

lemma other_ops_inv: "session_inv (fst (drain_outgoing s)) = session_inv s" "session_inv (set_keyed_auth ka s) = session_inv s"
  by (simp_all add: drain_outgoing_def set_keyed_auth_def session_inv_def poll_ok_def timers_ok_def)

lemma session_step_inv: "session_step h s t \<Longrightarrow> session_inv s \<Longrightarrow> session_inv t"
proof (induction rule: session_step.induct)
  case (step_tick now s s' events)
  then show ?case using session_tick_inv[of s h now] by auto
qed (simp_all add: session_start_inv feed_loop_inv feed_bytes_def admin_down_inv update_timers_inv other_ops_inv)

lemma session_run_keeps: "session_run h s t \<Longrightarrow> session_inv s \<Longrightarrow> session_inv t"
  by (induction rule: session_run.induct) (simp_all add: session_step_inv)

text \<open>
  C21.  Every state a session reaches, by any sequence of its operations with any inputs and clocks,
  satisfies the invariant (a poll runs only in an Up session and only it holds pending intervals, one
  transmission entry exactly when armed, at most one detection entry, none while administratively down),
  and from it the next \<open>tick\<close> returns.
\<close>

theorem session_run_inv:
  assumes "session_run h (session_new c disc) s"
  shows "session_inv s \<and> session_tick h now s \<noteq> None"
proof -
  have "session_inv s" by (rule session_run_keeps[OF assms session_new_inv])
  with session_tick_inv[OF this, of h now] show ?thesis by auto
qed

theorem session_run_inv_witness:
  "session_inv (fst (admin_down (fst (session_start sample_digest 5 (session_new default_bfd_config 7)))))"
  using session_run_inv[OF run_step[OF run_step[OF run_refl step_start] step_admin_down]] by blast

section \<open>An accepted packet\<close>

text \<open>The reception table of RFC 5880, section 6.8.6: own state, received state, new state.\<close>

fun rfc_next :: "bfd_state \<Rightarrow> bfd_state \<Rightarrow> bfd_state" where
  "rfc_next _ AdminDown = Down"
| "rfc_next Down Down = Init"
| "rfc_next Down Init = Up"
| "rfc_next Down Up = Down"
| "rfc_next Init Down = Init"
| "rfc_next Init Init = Up"
| "rfc_next Init Up = Up"
| "rfc_next Up Down = Down"
| "rfc_next Up Init = Up"
| "rfc_next Up Up = Up"
| "rfc_next AdminDown _ = AdminDown"

lemma state_machine_state:
  "state s \<noteq> AdminDown \<Longrightarrow> state (state_machine pkt s) = rfc_next (state s) (pkt_state pkt)"
  by (cases "state s"; cases "pkt_state pkt") (simp_all add: state_machine_def next_state_def)

lemma state_machine_fields [simp]:
  "cfg (state_machine pkt s) = cfg s" "my_disc (state_machine pkt s) = my_disc s"
  "remote_disc (state_machine pkt s) = remote_disc s" "remote_min_rx (state_machine pkt s) = remote_min_rx s"
  "remote_demand (state_machine pkt s) = remote_demand s" "required_min_rx (state_machine pkt s) = required_min_rx s"
  "timers (state_machine pkt s) = timers s"
  by (simp_all add: state_machine_def split: option.split)

lemma tail_fields:
  "cfg (answer_poll h now pkt s) = cfg s" "my_disc (answer_poll h now pkt s) = my_disc s"
  "remote_disc (answer_poll h now pkt s) = remote_disc s" "remote_min_rx (answer_poll h now pkt s) = remote_min_rx s"
  "remote_demand (answer_poll h now pkt s) = remote_demand s" "timers (answer_poll h now pkt s) = timers s"
  "cfg (announce h now prev s) = cfg s" "my_disc (announce h now prev s) = my_disc s"
  "remote_disc (announce h now prev s) = remote_disc s" "remote_min_rx (announce h now prev s) = remote_min_rx s"
  "remote_demand (announce h now prev s) = remote_demand s" "timers (announce h now prev s) = timers s"
  "cfg (cadence now prev old s) = cfg s" "my_disc (cadence now prev old s) = my_disc s"
  "remote_disc (cadence now prev old s) = remote_disc s" "remote_min_rx (cadence now prev old s) = remote_min_rx s"
  "remote_demand (cadence now prev old s) = remote_demand s"
  "cfg (rearm_detect now s) = cfg s" "my_disc (rearm_detect now s) = my_disc s"
  "remote_disc (rearm_detect now s) = remote_disc s" "remote_min_rx (rearm_detect now s) = remote_min_rx s"
  "remote_demand (rearm_detect now s) = remote_demand s"
  by (simp_all add: answer_poll_def announce_def cadence_def rearm_detect_def Let_def)

lemma take_events_more [simp]:
  "cfg (fst (take_events s)) = cfg s" "remote_min_rx (fst (take_events s)) = remote_min_rx s"
  "remote_demand (fst (take_events s)) = remote_demand s" "local_diag (fst (take_events s)) = local_diag s"
  "keyed_auth (fst (take_events s)) = keyed_auth s"
  by (simp_all add: take_events_def)

lemma arm_tx_others: "e \<in> set (timers s) \<Longrightarrow> entry_id e \<noteq> TX \<Longrightarrow> e \<in> set (timers (arm_tx_timer now s))"
  by (simp add: arm_tx_timer_def timer_cancel_def arm_def Let_def)

lemma cadence_others: "e \<in> set (timers s) \<Longrightarrow> entry_id e \<noteq> TX \<Longrightarrow> e \<in> set (timers (cadence now prev old s))"
  by (auto simp: cadence_def arm_tx_others timer_cancel_def)

lemma entries_pos: "e \<in> set q \<Longrightarrow> entry_id e = i \<Longrightarrow> 0 < entries_of i q"
  by (auto simp: entries_of_def filter_empty_conv)

lemma rearm_detect_entry:
  "\<lparr>fire_at = saturating_add now (max (detection_time_us s div 1000) 1), period = 0, entry_id = DETECT\<rparr>
     \<in> set (timers (rearm_detect now s))"
  by (simp add: rearm_detect_def arm_def timer_once_def Let_def)

lemma state_machine_detection: "detection_time_us (state_machine pkt s) = detection_time_us s"
proof -
  have "remote_desired_tx (transition t u) = remote_desired_tx u"
    "remote_detect_mult (transition t u) = remote_detect_mult u" for t u
    by (simp_all add: transition_def push_event_def Let_def)
  then show ?thesis by (simp add: detection_time_us_def state_machine_def split: option.split)
qed

text \<open>
  A packet that passes the discard rules and authentication moves the session by the table of
  RFC 5880, section 6.8.6, records the sender's discriminator and intervals, and leaves exactly one
  detection timer, due one detection time after now; a packet the discard rules reject changes nothing.
\<close>

theorem on_packet_effect:
  assumes "session_inv s"
  shows "let s' = fst (on_packet h now raw pkt s);
      u = finish_poll pkt (update_remote pkt (snd (check_auth h raw pkt s)))
    in (discarded pkt s \<longrightarrow> s' = s) \<and>
       (\<not> discarded pkt s \<and> fst (check_auth h raw pkt s) \<longrightarrow>
          state s' = rfc_next (state s) (pkt_state pkt) \<and> remote_disc s' = my_discriminator pkt \<and>
          remote_min_rx s' = required_min_rx_interval pkt \<and> entries_of DETECT (timers s') = 1 \<and>
          \<lparr>fire_at = saturating_add now (max (detection_time_us u div 1000) 1), period = 0, entry_id = DETECT\<rparr>
            \<in> set (timers s'))"
proof -
  let ?s' = "fst (on_packet h now raw pkt s)"
  let ?u = "finish_poll pkt (update_remote pkt (snd (check_auth h raw pkt s)))"
  let ?e = "\<lparr>fire_at = saturating_add now (max (detection_time_us ?u div 1000) 1), period = 0, entry_id = DETECT\<rparr>"
  { assume a: "\<not> discarded pkt s" "fst (check_auth h raw pkt s)"
    then have adm: "state s \<noteq> AdminDown" by (auto simp: discarded_def)
    have e: "?e \<in> set (timers ?s')"
      using a rearm_detect_entry[of now "state_machine pkt ?u"]
      by (simp add: on_packet_cases tail_fields state_machine_detection cadence_others)
    then have "0 < entries_of DETECT (timers ?s')"
      by (rule entries_pos) simp
    moreover have "session_inv ?s'" by (rule on_packet_inv[OF assms])
    ultimately have "entries_of DETECT (timers ?s') = 1"
      by (simp add: session_inv_def timers_ok_def queue_ok_def)
    with a e adm have "state ?s' = rfc_next (state s) (pkt_state pkt) \<and> remote_disc ?s' = my_discriminator pkt \<and>
        remote_min_rx ?s' = required_min_rx_interval pkt \<and> entries_of DETECT (timers ?s') = 1 \<and> ?e \<in> set (timers ?s')"
      by (simp add: on_packet_cases state_machine_state tail_fields) }
  moreover have "discarded pkt s \<longrightarrow> ?s' = s" by (simp add: on_packet_cases)
  ultimately show ?thesis by (simp add: Let_def)
qed

definition hello :: bfd_packet where
  "hello =
     \<lparr>diag = NoDiag, pkt_state = Down, flags = 0, detect_mult = 3, my_discriminator = 9,
      your_discriminator = 0, desired_min_tx_interval = 1000000, required_min_rx_interval = 1000000,
      required_min_echo_interval = 0, auth = None\<rparr>"

theorem on_packet_effect_witness:
  "state (fst (on_packet sample_digest 5 [] hello (session_new default_bfd_config 7))) = Init"
  using on_packet_effect[OF session_new_inv, of sample_digest 5 "[]" hello default_bfd_config 7]
  by (simp add: Let_def discarded_def check_auth_def hello_def session_new_def default_bfd_config_def
      has_flags_def MULTIPOINT_def POLL_def FINAL_def max_def)

section \<open>Two sessions\<close>

text \<open>
  One periodic transmission of \<open>x\<close> received by \<open>y\<close>: what the expiry of the transmission timer queues,
  drained and fed to the other side.  Packets queued earlier are lost on the way.
\<close>

definition deliver :: "digest_fun \<Rightarrow> u64 \<Rightarrow> bfd_session \<Rightarrow> bfd_session \<Rightarrow> bfd_session \<times> bfd_session" where
  "deliver h now x y =
     (if tx_allowed x then
        let (x, _) = drain_outgoing x;
            (x, b) = drain_outgoing (enqueue_packet h now False x);
            (y, _) = feed_bytes h now b y
        in (x, y)
      else (x, y))"

definition exchange :: "digest_fun \<Rightarrow> u64 \<Rightarrow> bfd_session \<times> bfd_session \<Rightarrow> bfd_session \<times> bfd_session" where
  "exchange h now = (\<lambda>(a, b).
     let (b, a) = deliver h now b a; (a, b) = deliver h now a b in (a, b))"

text \<open>One end of a link: active, without authentication, and knowing its peer once it has left Down.\<close>

definition endpoint :: "bfd_session \<Rightarrow> bfd_session \<Rightarrow> bool" where
  "endpoint x y \<longleftrightarrow>
     poll_ok x \<and> role (cfg x) = Active \<and> cfg_auth_key (cfg x) = None \<and> keyed_auth x = None \<and>
     state x \<noteq> AdminDown \<and> local_diag x \<in> {NoDiag, NeighborSignaled, CtrlExpired, DiagAdminDown} \<and>
     (remote_disc x = 0 \<and> state x = Down \<or> remote_disc x = my_disc y) \<and> \<not> remote_demand x \<and>
     (remote_disc x \<noteq> 0 \<longrightarrow> remote_min_rx x \<noteq> 0)"

lemma endpoint_allowed: "endpoint x y \<Longrightarrow> tx_allowed x"
  by (auto simp: endpoint_def tx_allowed_def)

lemma endpoint_flags:
  assumes "endpoint x y"
  shows "flags (outbound_packet x False) = (if poll_active x then POLL else 0)" "auth (outbound_packet x False) = None"
  using assms by (simp_all add: endpoint_def outbound_packet_def Let_def)

lemma endpoint_packet_wf:
  assumes "endpoint x y"
  shows "pkt_wf (outbound_packet x False)" "length (pkt_bytes (outbound_packet x False)) = 24"
proof -
  have "max (cfg_detect_mult (cfg x)) 1 \<noteq> 0" by (metis max.cobounded2 word_le_0_iff zero_neq_one)
  then have "detect_mult (outbound_packet x False) \<noteq> 0" by (simp add: outbound_packet_def Let_def)
  moreover have "diag (outbound_packet x False) = local_diag x" by (simp add: outbound_packet_def Let_def)
  ultimately show "pkt_wf (outbound_packet x False)"
    using assms endpoint_flags[OF assms]
    by (auto simp: pkt_wf_def endpoint_def has_flags_def POLL_def AUTH_def)
  show "length (pkt_bytes (outbound_packet x False)) = 24"
    using endpoint_flags(2)[OF assms] by (simp add: pkt_bytes_def)
qed

lemma endpoint_beacon:
  assumes "endpoint x y"
  shows "out_buf (enqueue_packet h now False (x\<lparr>out_buf := []\<rparr>)) = pkt_bytes (outbound_packet x False)"
proof -
  let ?p = "outbound_packet x False"
  have "wb_ok (wb_new (replicate 96 0))" "length (pkt_bytes ?p) \<le> remaining_mut (wb_new (replicate 96 0))"
    "written (wb_new (replicate 96 0)) = []"
    using endpoint_packet_wf[OF assms] by (simp_all add: wb_ok_def wb_new_def remaining_mut_def written_def)
  from bfd_encode_bytes[OF endpoint_packet_wf(1)[OF assms] this(1,2)] this(3) obtain w where
    w: "bfd_encode ?p (wb_new (replicate 96 0)) = Inr (length (pkt_bytes ?p), w)" "written w = pkt_bytes ?p"
    by (auto simp: appended_def)
  have "advertised_tx (x\<lparr>out_buf := []\<rparr>) = advertised_tx x" "advertised_rx (x\<lparr>out_buf := []\<rparr>) = advertised_rx x"
    by (simp_all add: advertised_tx_def advertised_rx_def split: option.split)
  moreover have "keyed_auth x = None" "cfg_auth_key (cfg x) = None" using assms by (simp_all add: endpoint_def)
  ultimately have "outbound_packet (x\<lparr>out_buf := []\<rparr>) False = ?p"
    by (simp add: outbound_packet_def Let_def)
  with w assms show ?thesis by (simp add: enqueue_packet_def endpoint_def Let_def)
qed

lemma feed_one_packet:
  assumes "pkt_wf p"
  shows "feed_bytes h now (pkt_bytes p) s = on_packet h now (pkt_bytes p) p s"
proof -
  let ?r = "rb_new (pkt_bytes p)"
  have "later ?r ?r (pkt_bytes p @ [])" by (simp add: later_def)
  from bfd_decode_bytes[OF assms this] obtain r where
    r: "bfd_decode ?r = Inr (Some p, r)" "later ?r r []" by blast
  have "rb_pos r = length (pkt_bytes p)" using later_pos[OF r(2)] by (simp add: rb_new_def)
  moreover have "bfd_decode r = Inr (None, r)"
    using later_remaining[OF r(2)] by (simp add: bfd_decode_def MIN_LEN_def)
  moreover have "rb_pos ?r = 0" "rb_inner ?r = pkt_bytes p" by (simp_all add: rb_new_def)
  ultimately show ?thesis
    using r(1) feed_loop.simps[of h now r]
    by (simp add: feed_bytes_def feed_loop.simps[of h now ?r] split_beta)
qed

lemma enqueue_diag [simp]:
  "local_diag (enqueue_packet h now f s) = local_diag s" "keyed_auth (enqueue_packet h now f s) = None \<longleftrightarrow> keyed_auth s = None"
  by (simp_all add: enqueue_packet_def Let_def split: sum.split option.split prod.split)

lemma diag_fields:
  "local_diag (answer_poll h now pkt s) = local_diag s" "local_diag (announce h now prev s) = local_diag s"
  "local_diag (cadence now prev old s) = local_diag s" "local_diag (rearm_detect now s) = local_diag s"
  "local_diag (finish_poll pkt s) = local_diag s" "local_diag (update_remote pkt s) = local_diag s"
  by (simp_all add: answer_poll_def announce_def cadence_def arm_tx_timer_def push_event_def rearm_detect_def
      finish_poll_def update_remote_def Let_def split: option.split)

lemma keyed_fields:
  "keyed_auth (answer_poll h now pkt s) = None \<longleftrightarrow> keyed_auth s = None"
  "keyed_auth (announce h now prev s) = None \<longleftrightarrow> keyed_auth s = None"
  "keyed_auth (cadence now prev old s) = keyed_auth s" "keyed_auth (rearm_detect now s) = keyed_auth s"
  "keyed_auth (state_machine pkt s) = keyed_auth s"
  "keyed_auth (finish_poll pkt s) = keyed_auth s" "keyed_auth (update_remote pkt s) = keyed_auth s"
  by (simp_all add: answer_poll_def announce_def cadence_def arm_tx_timer_def push_event_def rearm_detect_def
      state_machine_def transition_def finish_poll_def update_remote_def Let_def split: option.split)

lemma state_machine_diag:
  "local_diag (state_machine pkt s) \<in> {local_diag s, NoDiag, NeighborSignaled}"
  by (simp add: state_machine_def transition_def push_event_def Let_def split: option.split)

lemma outbound_fields [simp]:
  "my_discriminator (outbound_packet x f) = my_disc x" "your_discriminator (outbound_packet x f) = remote_disc x"
  "pkt_state (outbound_packet x f) = state x" "required_min_rx_interval (outbound_packet x f) = advertised_rx x"
  by (simp_all add: outbound_packet_def Let_def)

lemma advertised_rx_pos: "poll_ok x \<Longrightarrow> advertised_rx x \<noteq> 0"
  by (auto simp: advertised_rx_def poll_ok_def split: option.split)

lemma hear_peer:
  fixes h :: digest_fun and now :: u64 and raw :: bytes
  assumes "endpoint x y" and "endpoint y x"
  defines "p \<equiv> outbound_packet x False" and "y' \<equiv> fst (on_packet h now raw (outbound_packet x False) y)"
  shows "state y' = rfc_next (state y) (state x)" and "endpoint y' x" and "my_disc y' = my_disc y"
proof -
  have acc: "\<not> discarded p y" and au: "check_auth h raw p y = (True, y)"
  proof -
    have "detect_mult p \<noteq> 0" "my_disc x \<noteq> 0"
      using endpoint_packet_wf(1)[OF assms(1)] assms(1) by (simp_all add: p_def pkt_wf_def endpoint_def poll_ok_def)
    moreover have "\<not> has_flags (flags p) MULTIPOINT" "\<not> has_flags (flags p) (POLL OR FINAL)"
      using endpoint_flags(1)[OF assms(1)]
      by (simp_all add: p_def has_flags_def POLL_def FINAL_def MULTIPOINT_def)
    moreover have "state y \<noteq> AdminDown" "remote_disc x = 0 \<and> state x = Down \<or> remote_disc x = my_disc y" "my_disc y \<noteq> 0"
      using assms(1,2) by (simp_all add: endpoint_def poll_ok_def)
    ultimately show "\<not> discarded p y" by (auto simp: discarded_def p_def)
    show "check_auth h raw p y = (True, y)"
      using assms(2) endpoint_flags(2)[OF assms(1)] by (simp add: check_auth_def p_def endpoint_def)
  qed
  have y': "y' = fst (take_events (answer_poll h now p (announce h now (state y) (cadence now (state y) (remote_min_rx y)
      (rearm_detect now (state_machine p (finish_poll p (update_remote p y))))))))"
    using acc au by (simp add: y'_def p_def[symmetric] on_packet_cases)
  have adm: "state y \<noteq> AdminDown" "state x \<noteq> AdminDown" using assms(1,2) by (simp_all add: endpoint_def)
  then show st: "state y' = rfc_next (state y) (state x)"
    by (simp add: y' state_machine_state p_def)
  show "my_disc y' = my_disc y" by (simp add: y' tail_fields)
  have "poll_ok (finish_poll p (update_remote p y))"
    by (rule finish_poll_ok, rule poll_ok_cong[of y]) (use assms(2) in \<open>simp_all add: endpoint_def\<close>)
  then have poll: "poll_ok y'"
    by (simp add: y' ok_simps answer_poll_ok announce_ok cadence_ok state_machine_poll)
  have "local_diag y' \<in> {local_diag y, NoDiag, NeighborSignaled}"
    using state_machine_diag[of p "finish_poll p (update_remote p y)"] by (simp add: y' diag_fields)
  then have diag: "local_diag y' \<in> {NoDiag, NeighborSignaled, CtrlExpired, DiagAdminDown}"
    using assms(2) by (auto simp: endpoint_def)
  have dem: "\<not> remote_demand y'"
    using endpoint_flags(1)[OF assms(1)] by (simp add: y' tail_fields p_def has_flags_def DEMAND_def POLL_def)
  have "state y' \<noteq> AdminDown" using adm st by (cases "state y"; cases "state x") simp_all
  with poll diag dem show "endpoint y' x"
    using assms(1,2) advertised_rx_pos[of x] by (simp add: endpoint_def y' tail_fields keyed_fields p_def)
qed

lemma endpoint_cong:
  assumes "endpoint x y" "my_disc y' = my_disc y" "poll_ok x'" "cfg x' = cfg x" "keyed_auth x' = keyed_auth x"
    "state x' = state x" "local_diag x' = local_diag x" "remote_disc x' = remote_disc x"
    "remote_demand x' = remote_demand x" "remote_min_rx x' = remote_min_rx x"
  shows "endpoint x' y'"
  using assms by (simp add: endpoint_def)

lemma deliver_step:
  assumes "endpoint x y" and "endpoint y x"
  obtains x' y' where "deliver h now x y = (x', y')" "endpoint x' y'" "endpoint y' x'"
    "state x' = state x" "state y' = rfc_next (state y) (state x)"
proof -
  let ?q = "enqueue_packet h now False (x\<lparr>out_buf := []\<rparr>)"
  let ?x = "?q\<lparr>out_buf := []\<rparr>"
  let ?p = "outbound_packet x False"
  let ?y = "fst (on_packet h now (pkt_bytes ?p) ?p y)"
  have "keyed_auth ?q = None" using assms(1) by (simp add: endpoint_def)
  then have k: "keyed_auth ?x = keyed_auth x" using assms(1) by (simp add: endpoint_def)
  have "poll_ok x" using assms(1) by (simp add: endpoint_def)
  then have "poll_ok ?x" by (simp add: poll_ok_def)
  with k have "endpoint ?x ?y"
    by (intro endpoint_cong[OF assms(1)]) (simp_all add: hear_peer(3)[OF assms])
  moreover have "endpoint ?y ?x"
    by (rule endpoint_cong[OF hear_peer(2)[OF assms]])
      (use hear_peer(2)[OF assms, of h now "pkt_bytes ?p"] in \<open>simp_all add: endpoint_def\<close>)
  moreover have "deliver h now x y = (?x, ?y)"
    using endpoint_allowed[OF assms(1)]
    by (simp add: deliver_def drain_outgoing_def endpoint_beacon[OF assms(1)]
        feed_one_packet[OF endpoint_packet_wf(1)[OF assms(1)]] split_beta)
  ultimately show ?thesis
    using that[of ?x ?y] hear_peer(1)[OF assms, of h now "pkt_bytes ?p"] by simp
qed

lemma exchange_step:
  assumes "endpoint a b" and "endpoint b a"
  obtains a' b' where "exchange h now (a, b) = (a', b')" "endpoint a' b'" "endpoint b' a'"
    "state a' = rfc_next (state a) (state b)" "state b' = rfc_next (state b) (state a')"
proof -
  obtain b1 a1 where 1: "deliver h now b a = (b1, a1)" "endpoint b1 a1" "endpoint a1 b1"
    "state b1 = state b" "state a1 = rfc_next (state a) (state b)"
    by (rule deliver_step[OF assms(2,1)])
  obtain a2 b2 where 2: "deliver h now a1 b1 = (a2, b2)" "endpoint a2 b2" "endpoint b2 a2"
    "state a2 = state a1" "state b2 = rfc_next (state b1) (state a1)"
    by (rule deliver_step[OF 1(3,2)])
  show ?thesis by (rule that[of a2 b2]) (use 1 2 in \<open>simp_all add: exchange_def\<close>)
qed

lemma exchange_pow:
  assumes "endpoint a b" and "endpoint b a"
  shows "\<exists>a' b'. (exchange h now ^^ n) (a, b) = (a', b') \<and> endpoint a' b' \<and> endpoint b' a' \<and>
    (state a', state b') = ((\<lambda>(s, t). (rfc_next s t, rfc_next t (rfc_next s t))) ^^ n) (state a, state b)"
proof (induction n)
  case (Suc n)
  then obtain a' b' where n: "(exchange h now ^^ n) (a, b) = (a', b')" "endpoint a' b'" "endpoint b' a'"
    "(state a', state b') = ((\<lambda>(s, t). (rfc_next s t, rfc_next t (rfc_next s t))) ^^ n) (state a, state b)"
    by blast
  obtain a'' b'' where "exchange h now (a', b') = (a'', b'')" "endpoint a'' b''" "endpoint b'' a''"
    "state a'' = rfc_next (state a') (state b')" "state b'' = rfc_next (state b') (state a'')"
    by (rule exchange_step[OF n(2,3)])
  with n show ?case by (auto simp: n(4)[symmetric])
qed (use assms in simp)

lemma three_rounds:
  assumes "s \<noteq> AdminDown" and "t \<noteq> AdminDown" and "3 \<le> n"
  shows "((\<lambda>(s, t). (rfc_next s t, rfc_next t (rfc_next s t))) ^^ n) (s, t) = (Up, Up)"
proof -
  let ?f = "\<lambda>(s, t). (rfc_next s t, rfc_next t (rfc_next s t))"
  obtain k where n: "n = k + 3" using assms(3) by (metis add.commute le_Suc_ex)
  have "(?f ^^ 3) (s, t) = (Up, Up)"
    using assms(1,2) by (cases s; cases t) (simp_all add: eval_nat_numeral)
  moreover have "(?f ^^ k) (Up, Up) = (Up, Up)" by (induction k) simp_all
  ultimately show ?thesis by (simp add: n funpow_add)
qed

text \<open>
  C20.  Two active sessions without authentication that are not administratively down come Up: from any
  pair of states (one side may still believe the session Up while the other restarted), three rounds in
  which each side's periodic packet, encoded, carried as bytes and decoded, reaches the other are enough,
  and every later round keeps both Up.
\<close>

theorem handshake_completes:
  assumes "endpoint a b" and "endpoint b a" and "3 \<le> n"
  shows "state (fst ((exchange h now ^^ n) (a, b))) = Up \<and> state (snd ((exchange h now ^^ n) (a, b))) = Up"
proof -
  have "state a \<noteq> AdminDown" "state b \<noteq> AdminDown" using assms(1,2) by (simp_all add: endpoint_def)
  from three_rounds[OF this assms(3)] exchange_pow[OF assms(1,2), of n h now] show ?thesis by auto
qed

lemma endpoint_new:
  "role c = Active \<Longrightarrow> cfg_auth_key c = None \<Longrightarrow> endpoint (session_new c disc) y"
  using session_new_inv[of c disc] by (auto simp: endpoint_def session_inv_def session_new_def)

theorem handshake_completes_witness:
  "state (fst ((exchange sample_digest 5 ^^ 3) (session_new default_bfd_config 7, session_new default_bfd_config 9))) = Up"
  using handshake_completes[OF endpoint_new endpoint_new, of default_bfd_config default_bfd_config 3]
  by (simp add: default_bfd_config_def)

section \<open>Polls and restarts\<close>

text \<open>
  A session that runs a poll sequence of its own answers its peer's poll with a packet carrying
  both the poll and the final bit, and every receiver discards such a packet: two polls at the same time
  do not complete each other.
\<close>

theorem poll_collision:
  assumes "poll_active s" and "keyed_auth s = None" and "cfg_auth_key (cfg s) = None"
  shows "discarded (outbound_packet s True) y \<and> on_packet h now raw (outbound_packet s True) y = (y, [])"
proof -
  have "flags (outbound_packet s True) = POLL OR FINAL"
    using assms by (simp add: outbound_packet_def Let_def)
  then have "discarded (outbound_packet s True) y" by (simp add: discarded_def has_flags_def)
  then show ?thesis by (simp add: on_packet_def)
qed

definition polling :: bfd_session where
  "polling = (session_new default_bfd_config 7)\<lparr>state := Up, remote_disc := 9, poll_active := True\<rparr>"

theorem poll_collision_witness:
  "discarded (outbound_packet polling True) (session_new default_bfd_config 9)"
  using poll_collision[of polling] by (simp add: polling_def session_new_def default_bfd_config_def)

text \<open>
  After \<open>admin_down\<close> a session that had been started stays administratively down: a further
  \<open>start\<close> changes nothing and sends nothing, and every packet is discarded.
\<close>

theorem restart_is_noop:
  assumes "started s"
  shows "let d = fst (admin_down s); d' = fst (session_start h now d)
    in d' = d \<and> state d' = AdminDown \<and> timers d' = [] \<and> on_packet h t raw pkt d' = (d', [])"
proof -
  have "started (fst (admin_down s))" "pending_events (fst (admin_down s)) = []"
    using assms by (simp_all add: admin_down_def take_events_def transition_def push_event_def Let_def)
  then have "fst (session_start h now (fst (admin_down s))) = fst (admin_down s)"
    by (simp add: session_start_def take_events_def)
  moreover have "state (fst (admin_down s)) = AdminDown" "timers (fst (admin_down s)) = []"
    by (simp_all add: admin_down_def cancel_all_def)
  ultimately show ?thesis by (simp add: Let_def on_packet_def discarded_def)
qed

theorem restart_is_noop_witness:
  "let s = fst (session_start sample_digest 1 (session_new default_bfd_config 7))
   in state (fst (session_start sample_digest 2 (fst (admin_down s)))) = AdminDown"
proof -
  have "started (fst (session_start sample_digest 1 (session_new default_bfd_config 7)))"
    by (simp add: session_start_def session_new_def take_events_def transition_def arm_tx_timer_def
        enqueue_packet_def Let_def split: sum.split option.split prod.split)
  from restart_is_noop[OF this, of sample_digest 2 0 "[]" hello] show ?thesis unfolding Let_def by blast
qed

end
