(* ===== verification/LR_OspfLsa.thy ===== *)
theory LR_OspfLsa
  imports LR_Addr LR_Fletcher LR_BTree
begin

text \<open>
  OSPF link-state advertisements, \<open>crates/lr-ospf/src/lsa/mod.rs\<close>: the header and its wire form with the
  checksum of \<open>LR_Fletcher\<close>, the masks, and the bodies of summary, external, router and network LSAs (the
  last two with the codecs of \<open>crates/lr-ospf/src/spf.rs\<close>).  An index into a body is the suffix that starts
  there.
\<close>

section \<open>Headers\<close>

definition MAX_AGE_SECS :: u16 where
  "MAX_AGE_SECS = 3600"

record lsa_header =
  ls_age :: u16
  lsa_options :: u8
  ls_type :: u16
  link_state_id :: u32
  advertising_router :: u32
  ls_sequence_number :: u32
  ls_checksum :: u16
  lsa_length :: u16

definition LSA_HEADER_LEN :: nat where
  "LSA_HEADER_LEN = 20"

text \<open>The derived order of \<open>LsaKey\<close> compares the type, the link-state identifier and the router in turn.\<close>

type_synonym lsa_key = "u16 \<times> u32 \<times> u32"

record lsa =
  lsa_hdr :: lsa_header
  lsa_body :: bytes

definition key_of_header :: "lsa_header \<Rightarrow> lsa_key" where
  "key_of_header h = (ls_type h, link_state_id h, advertising_router h)"

definition lsa_key_of :: "lsa \<Rightarrow> lsa_key" where
  "lsa_key_of l = key_of_header (lsa_hdr l)"

definition to_wire :: "lsa \<Rightarrow> bytes" where
  "to_wire l =
     (let h = lsa_hdr l
      in to_be_bytes 2 (ls_age h) @
         (if ls_type h > 0xff then to_be_bytes 2 (ls_type h) else [lsa_options h, ucast (ls_type h)]) @
         to_be_bytes 4 (link_state_id h) @ to_be_bytes 4 (advertising_router h) @
         to_be_bytes 4 (ls_sequence_number h) @ to_be_bytes 2 (ls_checksum h) @
         to_be_bytes 2 (lsa_length h) @ lsa_body l)"

definition finalize :: "lsa \<Rightarrow> lsa" where
  "finalize l =
     (let l = l\<lparr>lsa_hdr := (lsa_hdr l)\<lparr>lsa_length := of_nat (LSA_HEADER_LEN + length (lsa_body l))\<rparr>\<rparr>;
          wire = to_wire l
      in l\<lparr>lsa_hdr := (lsa_hdr l)\<lparr>ls_checksum := ospf_lsa_checksum wire\<rparr>\<rparr>)"

definition checksum_ok :: "lsa \<Rightarrow> bool" where
  "checksum_ok l = ospf_lsa_checksum_ok (to_wire l)"

definition checked_succ :: "u32 \<Rightarrow> u32 option" where
  "checked_succ s = (if s = - 1 then None else Some (s + 1))"

definition maxage_flush :: "lsa \<Rightarrow> lsa option" where
  "maxage_flush l =
     (case checked_succ (ls_sequence_number (lsa_hdr l)) of
        None \<Rightarrow> None
      | Some seq \<Rightarrow>
          if seq = 0x80000000 then None
          else Some (finalize (l\<lparr>lsa_hdr := (lsa_hdr l)\<lparr>ls_age := MAX_AGE_SECS, ls_sequence_number := seq\<rparr>\<rparr>)))"

section \<open>Masks\<close>

definition count_ones :: "u32 \<Rightarrow> nat" where
  "count_ones w = length (filter (bit w) [0..<32])"

definition mask_to_prefix_len :: "u32 \<Rightarrow> u8" where
  "mask_to_prefix_len m = of_nat (count_ones m)"

definition prefix_len_to_mask :: "u8 \<Rightarrow> u32" where
  "prefix_len_to_mask l =
     (if l = 0 then 0 else if l \<ge> 32 then - 1 else push_bit (32 - unat l) (- 1))"

section \<open>Bodies\<close>

record summary_tos_metric =
  stm_tos :: u8
  stm_metric :: u32

record summary_lsa_body =
  network_mask :: u32
  tos_metrics :: "summary_tos_metric list"

definition tos0_metric :: "summary_lsa_body \<Rightarrow> u32 option" where
  "tos0_metric b = map_option stm_metric (find (\<lambda>m. stm_tos m = 0) (tos_metrics b))"

definition encode_summary_lsa_body :: "u32 \<Rightarrow> u32 \<Rightarrow> bytes" where
  "encode_summary_lsa_body nm metric = to_be_bytes 4 nm @ [0] @ tl (to_be_bytes 4 metric)"

function tos_loop :: "bytes \<Rightarrow> summary_tos_metric list" where
  "tos_loop b =
     (if length b < 4 then []
      else \<lparr>stm_tos = b ! 0, stm_metric = from_be_bytes [0, b ! 1, b ! 2, b ! 3]\<rparr> # tos_loop (drop 4 b))"
  by pat_completeness auto
termination by (relation "measure length") auto

definition decode_summary_lsa_body :: "bytes \<Rightarrow> summary_lsa_body option" where
  "decode_summary_lsa_body b =
     (if length b < 8 \<or> \<not> 4 dvd (length b - 4) then None
      else Some \<lparr>network_mask = from_be_bytes (take 4 b), tos_metrics = tos_loop (drop 4 b)\<rparr>)"

record router_link =
  link_id :: u32
  link_data :: u32
  link_type :: u8
  link_tos :: u8
  link_metric :: u16

definition P2P :: u8 where
  "P2P = 1"

definition TRANSIT :: u8 where
  "TRANSIT = 2"

definition STUB :: u8 where
  "STUB = 3"

definition VIRTUAL :: u8 where
  "VIRTUAL = 4"

lemmas link_types = P2P_def TRANSIT_def STUB_def VIRTUAL_def

record as_external_entry =
  ext_mask :: u32
  ext_metric :: u32
  forwarding_addr :: u32
  route_tag :: u32

definition external_type2 :: "as_external_entry \<Rightarrow> bool" where
  "external_type2 e \<longleftrightarrow> ext_metric e AND 0x80000000 \<noteq> 0"

definition metric_value :: "as_external_entry \<Rightarrow> u32" where
  "metric_value e = ext_metric e AND 0x00ffffff"

definition encode_as_external_body :: "as_external_entry \<Rightarrow> bytes" where
  "encode_as_external_body e =
     to_be_bytes 4 (ext_mask e) @ to_be_bytes 4 (ext_metric e AND 0x80ffffff) @
     to_be_bytes 4 (forwarding_addr e) @ to_be_bytes 4 (route_tag e)"

definition decode_as_external_body :: "bytes \<Rightarrow> as_external_entry option" where
  "decode_as_external_body b =
     (if length b \<noteq> 16 then None
      else Some \<lparr>ext_mask = from_be_bytes (take 4 b), ext_metric = from_be_bytes (take 4 (drop 4 b)),
                 forwarding_addr = from_be_bytes (take 4 (drop 8 b)), route_tag = from_be_bytes (take 4 (drop 12 b))\<rparr>)"

fun router_links_loop :: "nat \<Rightarrow> bytes \<Rightarrow> router_link list" where
  "router_links_loop 0 b = []"
| "router_links_loop (Suc n) b =
     (if length b < 12 then []
      else
        let num_tos = b ! 9;
            link = \<lparr>link_id = from_be_bytes (take 4 b), link_data = from_be_bytes (take 4 (drop 4 b)),
                    link_type = b ! 8, link_tos = num_tos, link_metric = from_be_bytes (take 2 (drop 10 b))\<rparr>;
            rest = drop 12 b;
            tos_bytes = min (unat num_tos * 4) (length rest)
        in link # (if tos_bytes < unat num_tos * 4 then [] else router_links_loop n (drop tos_bytes rest)))"

definition decode_router_links :: "bytes \<Rightarrow> router_link list" where
  "decode_router_links b =
     (if length b < 4 then [] else router_links_loop (unat (from_be_bytes (take 2 (drop 2 b)) :: u16)) (drop 4 b))"

definition encode_router_link :: "router_link \<Rightarrow> bytes" where
  "encode_router_link l =
     to_be_bytes 4 (link_id l) @ to_be_bytes 4 (link_data l) @ [link_type l, link_tos l] @
     to_be_bytes 2 (link_metric l)"

definition encode_router_lsa_body :: "u16 \<Rightarrow> router_link list \<Rightarrow> bytes" where
  "encode_router_lsa_body flags links =
     to_be_bytes 2 flags @ to_be_bytes 2 (of_nat (length links) :: u16) @ concat (map encode_router_link links)"

function attached_loop :: "bytes \<Rightarrow> u32 list" where
  "attached_loop b = (if length b < 4 then [] else from_be_bytes (take 4 b) # attached_loop (drop 4 b))"
  by pat_completeness auto
termination by (relation "measure length") auto

definition decode_network_attached_routers :: "bytes \<Rightarrow> u32 list" where
  "decode_network_attached_routers b = (if length b < 4 then [] else attached_loop (drop 4 b))"

declare tos_loop.simps [simp del] attached_loop.simps [simp del]

section \<open>Round trips\<close>

lemma router_links_loop_encode:
  assumes "\<forall>l \<in> set links. link_tos l = 0"
  shows "router_links_loop (length links) (concat (map encode_router_link links) @ rest) = links"
  using assms
proof (induction links)
  case (Cons l links)
  let ?tl = "concat (map encode_router_link links) @ rest"
  have b: "encode_router_link l @ ?tl =
      to_be_bytes 4 (link_id l) @ to_be_bytes 4 (link_data l) @ [link_type l, 0] @ to_be_bytes 2 (link_metric l) @ ?tl"
    using Cons.prems by (simp add: encode_router_link_def)
  have "router_links_loop (Suc (length links)) (encode_router_link l @ ?tl) = l # router_links_loop (length links) ?tl"
    unfolding b using Cons.prems by (simp add: Let_def nth_append from_to_be_bytes)
  with Cons show ?case by simp
qed simp

lemma tos_loop_one: "length b = 4 \<Longrightarrow> tos_loop b = [\<lparr>stm_tos = b ! 0, stm_metric = from_be_bytes [0, b ! 1, b ! 2, b ! 3]\<rparr>]"
  by (subst tos_loop.simps) (simp add: tos_loop.simps[of "[]"])

lemma top_byte_0:
  assumes "m < (2 ^ 24 :: u32)"
  shows "to_be_bytes 4 m = 0 # tl (to_be_bytes 4 m)"
    and "\<exists>b c d. to_be_bytes 4 m = [0, b, c, d]"
proof -
  have "unat m < 2 ^ 24" using assms by (simp add: word_less_nat_alt)
  then have "unat (drop_bit 24 m) = 0" unfolding unat_drop_bit_eq by (simp add: drop_bit_eq_div)
  then have "drop_bit 24 m = 0" by (simp add: unat_eq_0)
  then have "to_be_bytes 4 m = [0, ucast (drop_bit 16 m), ucast (drop_bit 8 m), ucast m]"
    by (simp add: to_be_bytes_def upt_rec)
  then show "to_be_bytes 4 m = 0 # tl (to_be_bytes 4 m)" "\<exists>b c d. to_be_bytes 4 m = [0, b, c, d]"
    by simp_all
qed

lemma ext_mask_keeps: "metric_value (e\<lparr>ext_metric := ext_metric e AND 0x80ffffff\<rparr>) = metric_value e"
  "external_type2 (e\<lparr>ext_metric := ext_metric e AND 0x80ffffff\<rparr>) = external_type2 e"
  by (simp_all add: metric_value_def external_type2_def and.assoc)

text \<open>
  The bodies survive the wire: router links without extra metrics when their number fits the count
  field, the metric of a summary below \<open>2 ^ 24\<close>, and an external entry up to the bits that are not part
  of its metric.
\<close>

theorem lsa_bodies_roundtrip:
  shows "(length links < 2 ^ 16 \<and> (\<forall>l \<in> set links. link_tos l = 0) \<longrightarrow>
      decode_router_links (encode_router_lsa_body flags links) = links) \<and>
    (metric < 2 ^ 24 \<longrightarrow>
      map_option (\<lambda>b. (network_mask b, tos0_metric b)) (decode_summary_lsa_body (encode_summary_lsa_body nm metric)) =
        Some (nm, Some metric)) \<and>
    decode_as_external_body (encode_as_external_body e) = Some (e\<lparr>ext_metric := ext_metric e AND 0x80ffffff\<rparr>)"
proof (intro conjI impI)
  assume a: "length links < 2 ^ 16 \<and> (\<forall>l \<in> set links. link_tos l = 0)"
  then have "unat (of_nat (length links) :: u16) = length links" by (simp add: unat_of_nat)
  with a router_links_loop_encode[of links "[]"]
  show "decode_router_links (encode_router_lsa_body flags links) = links"
    by (simp add: decode_router_links_def encode_router_lsa_body_def from_to_be_bytes)
next
  assume "metric < 2 ^ 24"
  then have "encode_summary_lsa_body nm metric = to_be_bytes 4 nm @ to_be_bytes 4 metric"
    using top_byte_0(1)[of metric] by (simp add: encode_summary_lsa_body_def)
  moreover obtain b c d where "to_be_bytes 4 metric = [0, b, c, d]"
    using top_byte_0(2)[OF \<open>metric < 2 ^ 24\<close>] by blast
  moreover have "from_be_bytes (to_be_bytes 4 metric) = metric" by (simp add: from_to_be_bytes)
  ultimately show "map_option (\<lambda>b. (network_mask b, tos0_metric b))
      (decode_summary_lsa_body (encode_summary_lsa_body nm metric)) = Some (nm, Some metric)"
    by (simp add: decode_summary_lsa_body_def tos_loop_one tos0_metric_def from_to_be_bytes)
next
  show "decode_as_external_body (encode_as_external_body e) = Some (e\<lparr>ext_metric := ext_metric e AND 0x80ffffff\<rparr>)"
    by (simp add: decode_as_external_body_def encode_as_external_body_def from_to_be_bytes)
qed

theorem lsa_bodies_roundtrip_witness:
  "decode_router_links (encode_router_lsa_body 0
     [\<lparr>link_id = 1, link_data = 2, link_type = 1, link_tos = 0, link_metric = 10\<rparr>]) =
     [\<lparr>link_id = 1, link_data = 2, link_type = 1, link_tos = 0, link_metric = 10\<rparr>] \<and>
   map_option (\<lambda>b. (network_mask b, tos0_metric b)) (decode_summary_lsa_body (encode_summary_lsa_body 0xffffff00 20)) =
     Some (0xffffff00, Some 20)"
  using lsa_bodies_roundtrip[of "[\<lparr>link_id = 1, link_data = 2, link_type = 1, link_tos = 0, link_metric = 10\<rparr>]" 0 20 "0xffffff00"]
  by simp

end
