(* ===== verification/LR_OspfLsdb.thy ===== *)
theory LR_OspfLsdb
  imports LR_OspfLsa
begin

text \<open>
  The link-state database of \<open>crates/lr-ospf/src/lsdb.rs\<close>: installation by sequence number, removal, the
  refresh of own LSAs and aging.  The theorems say that the watermarks follow the stored instances, which
  instance a sequence of arrivals leaves, and what refresh and aging touch.
\<close>

section \<open>The database\<close>

definition LS_REFRESH_TIME_SECS :: u16 where
  "LS_REFRESH_TIME_SECS = 1800"

definition INITIAL_SEQUENCE_NUMBER :: u32 where
  "INITIAL_SEQUENCE_NUMBER = 0x80000001"

definition MAX_SEQUENCE_NUMBER :: u32 where
  "MAX_SEQUENCE_NUMBER = 0x7fffffff"

definition sequence_in_range :: "u32 \<Rightarrow> bool" where
  "sequence_in_range s \<longleftrightarrow> s \<ge> INITIAL_SEQUENCE_NUMBER \<or> s = MAX_SEQUENCE_NUMBER"

datatype install_outcome = New | Replaced | Ignored | Purged

definition changed :: "install_outcome \<Rightarrow> bool" where
  "changed out \<longleftrightarrow> out \<noteq> Ignored"

record lsa_entry =
  le_lsa :: lsa
  installed_ms :: u64

record lsdb =
  lsdb_entries :: "(lsa_key, lsa_entry) btree"
  seq_watermark :: "(lsa_key, u32) btree"
  lsdb_version :: u64

definition lsdb_new :: lsdb where
  "lsdb_new = \<lparr>lsdb_entries = [], seq_watermark = [], lsdb_version = 0\<rparr>"

definition lsdb_install :: "lsa \<Rightarrow> u64 \<Rightarrow> lsdb \<Rightarrow> lsdb \<times> install_outcome" where
  "lsdb_install l now db =
     (let key = lsa_key_of l; seq = ls_sequence_number (lsa_hdr l)
      in if ls_age (lsa_hdr l) \<ge> MAX_AGE_SECS then
           if bt_get (lsdb_entries db) key \<noteq> None then
             (db\<lparr>lsdb_entries := bt_del key (lsdb_entries db), seq_watermark := bt_del key (seq_watermark db),
                 lsdb_version := lsdb_version db + 1\<rparr>, Purged)
           else (db, Ignored)
         else if \<not> sequence_in_range seq then (db, Ignored)
         else
           let prev_seq = (case bt_get (seq_watermark db) key of Some s \<Rightarrow> s | None \<Rightarrow> 0)
           in if sint seq \<le> sint prev_seq \<and> prev_seq \<noteq> 0 then (db, Ignored)
              else
                (db\<lparr>seq_watermark := bt_put key seq (seq_watermark db),
                    lsdb_entries := bt_put key \<lparr>le_lsa = l, installed_ms = now\<rparr> (lsdb_entries db),
                    lsdb_version := lsdb_version db + 1\<rparr>,
                 if bt_get (lsdb_entries db) key \<noteq> None then Replaced else New))"

definition lsdb_remove :: "lsa_key \<Rightarrow> lsdb \<Rightarrow> lsdb \<times> lsa_entry option" where
  "lsdb_remove key db =
     (let db = db\<lparr>seq_watermark := bt_del key (seq_watermark db)\<rparr>
      in case bt_get (lsdb_entries db) key of
           Some e \<Rightarrow> (db\<lparr>lsdb_entries := bt_del key (lsdb_entries db), lsdb_version := lsdb_version db + 1\<rparr>, Some e)
         | None \<Rightarrow> (db, None))"

definition lsdb_get :: "lsa_key \<Rightarrow> lsdb \<Rightarrow> lsa_entry option" where
  "lsdb_get key db = bt_get (lsdb_entries db) key"

text \<open>The age of an entry in milliseconds, \<open>now_ms.saturating_sub(installed_ms) + age * 1000\<close>.\<close>

definition entry_age_ms :: "u64 \<Rightarrow> lsa_entry \<Rightarrow> u64" where
  "entry_age_ms now e = saturating_sub now (installed_ms e) + ucast (ls_age (lsa_hdr (le_lsa e))) * 1000"

definition refresh_keys :: "u32 \<Rightarrow> u64 \<Rightarrow> lsdb \<Rightarrow> lsa_key list" where
  "refresh_keys rid now db =
     map fst (filter (\<lambda>(_, e). advertising_router (lsa_hdr (le_lsa e)) = rid \<and>
       entry_age_ms now e \<ge> ucast LS_REFRESH_TIME_SECS * 1000) (lsdb_entries db))"

definition refresh_one :: "u64 \<Rightarrow> lsa_key \<Rightarrow> lsdb \<times> lsa list \<Rightarrow> lsdb \<times> lsa list" where
  "refresh_one now key = (\<lambda>(db, refreshed).
     case bt_get (lsdb_entries db) key of
       None \<Rightarrow> (db, refreshed)
     | Some e \<Rightarrow>
         (case checked_succ (ls_sequence_number (lsa_hdr (le_lsa e))) of
            None \<Rightarrow> (db, refreshed)
          | Some seq \<Rightarrow>
              if \<not> sequence_in_range seq then (db, refreshed)
              else
                let l = le_lsa e;
                    l = finalize (l\<lparr>lsa_hdr := (lsa_hdr l)\<lparr>ls_sequence_number := seq, ls_age := 0\<rparr>\<rparr>)
                in (db\<lparr>seq_watermark := bt_put key seq (seq_watermark db),
                       lsdb_entries := bt_put key \<lparr>le_lsa = l, installed_ms = now\<rparr> (lsdb_entries db)\<rparr>,
                    refreshed @ [l])))"

definition refresh_due :: "u32 \<Rightarrow> u64 \<Rightarrow> lsdb \<Rightarrow> lsdb \<times> lsa list" where
  "refresh_due rid now db = fold (refresh_one now) (refresh_keys rid now db) (db, [])"

definition age_keys :: "u64 \<Rightarrow> lsdb \<Rightarrow> lsa_key list" where
  "age_keys now db =
     map fst (filter (\<lambda>(_, e). entry_age_ms now e \<ge> ucast MAX_AGE_SECS * 1000) (lsdb_entries db))"

definition age_one :: "lsa_key \<Rightarrow> lsdb \<times> lsa list \<Rightarrow> lsdb \<times> lsa list" where
  "age_one key = (\<lambda>(db, removed).
     case bt_get (lsdb_entries db) key of
       None \<Rightarrow> (db, removed)
     | Some e \<Rightarrow>
         (db\<lparr>lsdb_entries := bt_del key (lsdb_entries db), seq_watermark := bt_del key (seq_watermark db),
             lsdb_version := lsdb_version db + 1\<rparr>, removed @ [le_lsa e]))"

definition age_out :: "u64 \<Rightarrow> lsdb \<Rightarrow> lsdb \<times> lsa list" where
  "age_out now db = fold age_one (age_keys now db) (db, [])"

definition lsdb_headers :: "lsdb \<Rightarrow> lsa_header list" where
  "lsdb_headers db = map (\<lambda>(_, e). lsa_hdr (le_lsa e)) (lsdb_entries db)"

section \<open>The invariant\<close>

text \<open>
  Every entry is stored under its own key with a usable sequence number and below the maximal age, and
  the watermark of a key is the sequence number of its entry.
\<close>

definition seq_of :: "lsa_entry \<Rightarrow> u32" where
  "seq_of e = ls_sequence_number (lsa_hdr (le_lsa e))"

definition lsdb_inv :: "lsdb \<Rightarrow> bool" where
  "lsdb_inv db \<longleftrightarrow>
     bt_inv (lsdb_entries db) \<and> bt_inv (seq_watermark db) \<and>
     (\<forall>k. bt_get (seq_watermark db) k = map_option seq_of (bt_get (lsdb_entries db) k)) \<and>
     (\<forall>k e. bt_get (lsdb_entries db) k = Some e \<longrightarrow>
        lsa_key_of (le_lsa e) = k \<and> sequence_in_range (seq_of e) \<and> ls_age (lsa_hdr (le_lsa e)) < MAX_AGE_SECS)"

declare split_paired_All [simp del] split_paired_Ex [simp del]

lemma lsdb_inv_new: "lsdb_inv lsdb_new"
  by (simp add: lsdb_inv_def lsdb_new_def)

lemma lsdb_inv_put:
  assumes "lsdb_inv db" and "lsa_key_of l = k" and "sequence_in_range (ls_sequence_number (lsa_hdr l))"
    and "ls_age (lsa_hdr l) < MAX_AGE_SECS"
    and "lsdb_entries db' = bt_put k \<lparr>le_lsa = l, installed_ms = now\<rparr> (lsdb_entries db)"
    and "seq_watermark db' = bt_put k (ls_sequence_number (lsa_hdr l)) (seq_watermark db)"
  shows "lsdb_inv db'"
  using assms by (auto simp: lsdb_inv_def bt_inv_put bt_get_put seq_of_def)

lemma lsdb_inv_del:
  assumes "lsdb_inv db" and "lsdb_entries db' = bt_del k (lsdb_entries db)" and "seq_watermark db' = bt_del k (seq_watermark db)"
  shows "lsdb_inv db'"
  using assms by (auto simp: lsdb_inv_def bt_inv_del bt_get_del)

lemma sequence_in_range_0 [simp]: "\<not> sequence_in_range 0"
  by (simp add: sequence_in_range_def INITIAL_SEQUENCE_NUMBER_def MAX_SEQUENCE_NUMBER_def)

text \<open>What installation does to a database in the invariant, with the stored instance for the watermark.\<close>

definition newer :: "lsa \<Rightarrow> lsdb \<Rightarrow> bool" where
  "newer l db \<longleftrightarrow>
     (case lsdb_get (lsa_key_of l) db of
        None \<Rightarrow> True | Some e \<Rightarrow> sint (seq_of e) < sint (ls_sequence_number (lsa_hdr l)))"

lemma install_cases:
  assumes "lsdb_inv db"
  shows "lsdb_install l now db =
     (if ls_age (lsa_hdr l) \<ge> MAX_AGE_SECS then
        if lsdb_get (lsa_key_of l) db \<noteq> None then
          (db\<lparr>lsdb_entries := bt_del (lsa_key_of l) (lsdb_entries db),
              seq_watermark := bt_del (lsa_key_of l) (seq_watermark db), lsdb_version := lsdb_version db + 1\<rparr>, Purged)
        else (db, Ignored)
      else if sequence_in_range (ls_sequence_number (lsa_hdr l)) \<and> newer l db then
        (db\<lparr>seq_watermark := bt_put (lsa_key_of l) (ls_sequence_number (lsa_hdr l)) (seq_watermark db),
            lsdb_entries := bt_put (lsa_key_of l) \<lparr>le_lsa = l, installed_ms = now\<rparr> (lsdb_entries db),
            lsdb_version := lsdb_version db + 1\<rparr>,
         if lsdb_get (lsa_key_of l) db \<noteq> None then Replaced else New)
      else (db, Ignored))"
proof (cases "lsdb_get (lsa_key_of l) db")
  case None
  then have "bt_get (seq_watermark db) (lsa_key_of l) = None"
    using assms by (simp add: lsdb_inv_def lsdb_get_def)
  with None show ?thesis by (simp add: lsdb_install_def newer_def lsdb_get_def Let_def)
next
  case (Some e)
  then have w: "bt_get (seq_watermark db) (lsa_key_of l) = Some (seq_of e)" "sequence_in_range (seq_of e)"
    using assms by (auto simp: lsdb_inv_def lsdb_get_def)
  then have "seq_of e \<noteq> 0" by (metis sequence_in_range_0)
  with Some w show ?thesis by (auto simp: lsdb_install_def newer_def lsdb_get_def Let_def not_le)
qed

lemma install_inv: "lsdb_inv db \<Longrightarrow> lsdb_inv (fst (lsdb_install l now db))"
  by (auto simp: install_cases intro: lsdb_inv_del lsdb_inv_put)

lemma remove_inv: "lsdb_inv db \<Longrightarrow> lsdb_inv (fst (lsdb_remove k db))"
proof (cases "bt_get (lsdb_entries db) k")
  case None
  moreover assume "lsdb_inv db"
  ultimately show ?thesis
    by (auto simp: lsdb_remove_def lsdb_inv_def Let_def bt_inv_del bt_get_del)
qed (auto simp: lsdb_remove_def Let_def intro: lsdb_inv_del)

lemma finalize_fields [simp]:
  "ls_age (lsa_hdr (finalize l)) = ls_age (lsa_hdr l)" "ls_sequence_number (lsa_hdr (finalize l)) = ls_sequence_number (lsa_hdr l)"
  "lsa_key_of (finalize l) = lsa_key_of l" "lsa_body (finalize l) = lsa_body l"
  "advertising_router (lsa_hdr (finalize l)) = advertising_router (lsa_hdr l)"
  by (simp_all add: finalize_def lsa_key_of_def key_of_header_def Let_def)

lemma key_of_update [simp]: "lsa_key_of (l\<lparr>lsa_hdr := (lsa_hdr l)\<lparr>ls_sequence_number := s, ls_age := a\<rparr>\<rparr>) = lsa_key_of l"
  by (simp add: lsa_key_of_def key_of_header_def)

text \<open>A refreshed entry keeps its key and body, and takes the next sequence number, age 0 and the time of the refresh.\<close>

definition refreshed_entry :: "u64 \<Rightarrow> lsa_entry \<Rightarrow> lsa_entry option" where
  "refreshed_entry now e =
     (case checked_succ (seq_of e) of
        None \<Rightarrow> None
      | Some seq \<Rightarrow>
          if sequence_in_range seq
          then Some \<lparr>le_lsa = finalize ((le_lsa e)\<lparr>lsa_hdr := (lsa_hdr (le_lsa e))\<lparr>ls_sequence_number := seq, ls_age := 0\<rparr>\<rparr>),
                     installed_ms = now\<rparr>
          else None)"

lemma refresh_one_cases:
  "refresh_one now k (db, ls) =
     (case lsdb_get k db of
        None \<Rightarrow> (db, ls)
      | Some e \<Rightarrow>
          (case refreshed_entry now e of
             None \<Rightarrow> (db, ls)
           | Some e' \<Rightarrow>
               (db\<lparr>seq_watermark := bt_put k (seq_of e') (seq_watermark db),
                   lsdb_entries := bt_put k e' (lsdb_entries db)\<rparr>, ls @ [le_lsa e'])))"
  by (simp add: refresh_one_def refreshed_entry_def lsdb_get_def seq_of_def Let_def split: option.split)

lemma refreshed_entry_Some:
  assumes "refreshed_entry now e = Some e'"
  shows "lsa_key_of (le_lsa e') = lsa_key_of (le_lsa e)" "sequence_in_range (seq_of e')"
    "ls_age (lsa_hdr (le_lsa e')) = 0" "installed_ms e' = now" "checked_succ (seq_of e) = Some (seq_of e')"
    "lsa_body (le_lsa e') = lsa_body (le_lsa e)"
  using assms by (auto simp: refreshed_entry_def seq_of_def split: option.splits if_splits)

lemma refresh_one_inv:
  assumes "lsdb_inv db"
  shows "lsdb_inv (fst (refresh_one now k (db, ls)))"
proof (cases "lsdb_get k db")
  case (Some e)
  then have k: "lsa_key_of (le_lsa e) = k" using assms by (simp add: lsdb_inv_def lsdb_get_def)
  show ?thesis
  proof (cases "refreshed_entry now e")
    case e': (Some e')
    obtain l where l: "e' = \<lparr>le_lsa = l, installed_ms = now\<rparr>" using refreshed_entry_Some(4)[OF e'] by (cases e') auto
    with refreshed_entry_Some[OF e'] Some e' k show ?thesis
      by (intro lsdb_inv_put[OF assms, of l k _ now]) (simp_all add: refresh_one_cases seq_of_def MAX_AGE_SECS_def)
  qed (use Some assms in \<open>simp add: refresh_one_cases\<close>)
qed (use assms in \<open>simp add: refresh_one_cases\<close>)

lemma refresh_one_get:
  assumes "lsdb_inv db"
  shows "lsdb_get k' (fst (refresh_one now k (db, ls))) =
    (if k' = k then (case lsdb_get k db of None \<Rightarrow> None
       | Some e \<Rightarrow> (case refreshed_entry now e of None \<Rightarrow> Some e | Some e' \<Rightarrow> Some e')) else lsdb_get k' db)"
  using assms by (auto simp: refresh_one_cases lsdb_get_def lsdb_inv_def bt_get_put split: option.split)

lemma refresh_fold:
  assumes "lsdb_inv db" and "distinct ks"
  shows "lsdb_inv (fst (fold (refresh_one now) ks (db, ls))) \<and>
    lsdb_get k (fst (fold (refresh_one now) ks (db, ls))) =
      (if k \<in> set ks then (case lsdb_get k db of None \<Rightarrow> None
         | Some e \<Rightarrow> (case refreshed_entry now e of None \<Rightarrow> Some e | Some e' \<Rightarrow> Some e')) else lsdb_get k db)"
  using assms
proof (induction ks arbitrary: db ls)
  case (Cons a ks)
  obtain db' ls' where s: "refresh_one now a (db, ls) = (db', ls')" by fastforce
  have inv: "lsdb_inv db'" using refresh_one_inv[OF Cons.prems(1), of now a ls] s by simp
  have get: "lsdb_get k db' = (if k = a then (case lsdb_get a db of None \<Rightarrow> None
      | Some e \<Rightarrow> (case refreshed_entry now e of None \<Rightarrow> Some e | Some e' \<Rightarrow> Some e')) else lsdb_get k db)" for k
    using refresh_one_get[OF Cons.prems(1), of k now a ls] s by simp
  show ?case using Cons.IH[OF inv] Cons.prems s get by auto
qed simp_all

lemma refresh_inv: "lsdb_inv db \<Longrightarrow> lsdb_inv (fst (refresh_due rid now db))"
  by (simp add: refresh_due_def refresh_keys_def refresh_fold bt_distinct_filter lsdb_inv_def[of db])

lemma age_fold:
  assumes "lsdb_inv db"
  shows "lsdb_inv (fst (fold age_one ks (db, ls))) \<and>
    lsdb_get k (fst (fold age_one ks (db, ls))) = (if k \<in> set ks then None else lsdb_get k db)"
  using assms
proof (induction ks arbitrary: db ls)
  case (Cons a ks)
  obtain db' ls' where s: "age_one a (db, ls) = (db', ls')" by fastforce
  have inv: "lsdb_inv db'" and get: "lsdb_get k db' = (if k = a then None else lsdb_get k db)" for k
    using s Cons.prems lsdb_inv_del[OF Cons.prems, of db' a]
    by (auto simp: age_one_def lsdb_get_def bt_get_del split: option.splits)
  show ?case using Cons.IH[OF inv] s get by auto
qed simp_all

lemma age_inv: "lsdb_inv db \<Longrightarrow> lsdb_inv (fst (age_out now db))"
  by (simp add: age_out_def age_fold)

section \<open>Properties\<close>

inductive lsdb_reach :: "lsdb \<Rightarrow> bool" where
  reach_new: "lsdb_reach lsdb_new"
| reach_install: "lsdb_reach db \<Longrightarrow> lsdb_reach (fst (lsdb_install l now db))"
| reach_remove: "lsdb_reach db \<Longrightarrow> lsdb_reach (fst (lsdb_remove k db))"
| reach_refresh: "lsdb_reach db \<Longrightarrow> lsdb_reach (fst (refresh_due rid now db))"
| reach_age: "lsdb_reach db \<Longrightarrow> lsdb_reach (fst (age_out now db))"

lemma reach_inv: "lsdb_reach db \<Longrightarrow> lsdb_inv db"
  by (induction rule: lsdb_reach.induct) (simp_all add: lsdb_inv_new install_inv remove_inv refresh_inv age_inv)

text \<open>
  C35.  In every database that the operations reach, each LSA is stored under its own key with a usable
  sequence number below the maximal age, the watermark of a key is the sequence number of the stored
  instance, and installation reports a change exactly when the database changes.
\<close>

theorem lsdb_reach_inv:
  assumes "lsdb_reach db"
  shows "lsdb_inv db \<and> (changed (snd (lsdb_install l now db)) \<longleftrightarrow> fst (lsdb_install l now db) \<noteq> db)"
proof -
  have inv: "lsdb_inv db" by (rule reach_inv[OF assms])
  have neq: "x \<noteq> db" if "lsdb_version x = lsdb_version db + 1" for x :: lsdb using that by auto
  have "changed (snd (lsdb_install l now db)) \<longleftrightarrow> fst (lsdb_install l now db) \<noteq> db"
    unfolding install_cases[OF inv] changed_def by (simp add: neq)
  with inv show ?thesis by blast
qed

definition sample_lsa :: "u32 \<Rightarrow> u16 \<Rightarrow> lsa" where
  "sample_lsa seq age =
     \<lparr>lsa_hdr = \<lparr>ls_age = age, lsa_options = 0, ls_type = 1, link_state_id = 7, advertising_router = 7,
        ls_sequence_number = seq, ls_checksum = 0, lsa_length = 20\<rparr>, lsa_body = []\<rparr>"

theorem lsdb_reach_inv_witness:
  "lsdb_inv (fst (lsdb_install (sample_lsa 0x80000001 0) 5 lsdb_new))"
  using lsdb_reach_inv[OF reach_install[OF reach_new]] by blast

definition install_all :: "(lsa \<times> u64) list \<Rightarrow> lsdb \<Rightarrow> lsdb" where
  "install_all ls db = fold (\<lambda>(l, now) db. fst (lsdb_install l now db)) ls db"

text \<open>
  The arrivals that contend for a key: those with a usable sequence number that came after the last instance at
  the maximal age.  The one the database should hold is the first of greatest sequence number.
\<close>

abbreviation lsa_seq :: "lsa \<Rightarrow> u32" where
  "lsa_seq l \<equiv> ls_sequence_number (lsa_hdr l)"

definition flushes :: "lsa_key \<Rightarrow> lsa \<Rightarrow> bool" where
  "flushes k l \<longleftrightarrow> lsa_key_of l = k \<and> ls_age (lsa_hdr l) \<ge> MAX_AGE_SECS"

definition contenders :: "lsa_key \<Rightarrow> (lsa \<times> u64) list \<Rightarrow> (lsa \<times> u64) list" where
  "contenders k ls =
     filter (\<lambda>(l, _). lsa_key_of l = k \<and> sequence_in_range (lsa_seq l))
       (rev (takeWhile (\<lambda>(l, _). \<not> flushes k l) (rev ls)))"

definition holds_newest :: "(lsa \<times> u64) list \<Rightarrow> lsa_entry option \<Rightarrow> bool" where
  "holds_newest cs h \<longleftrightarrow>
     (case h of
        None \<Rightarrow> cs = []
      | Some e \<Rightarrow> \<exists>before after. cs = before @ (le_lsa e, installed_ms e) # after \<and>
          (\<forall>(l, _) \<in> set before. sint (lsa_seq l) < sint (seq_of e)) \<and>
          (\<forall>(l, _) \<in> set after. sint (lsa_seq l) \<le> sint (seq_of e)))"

lemma contenders_snoc:
  "contenders k (ls @ [(l, now)]) =
     (if flushes k l then []
      else if lsa_key_of l = k \<and> sequence_in_range (lsa_seq l) then contenders k ls @ [(l, now)]
      else contenders k ls)"
  by (simp add: contenders_def)

lemma install_get:
  assumes "lsdb_inv db"
  shows "lsdb_get k (fst (lsdb_install l now db)) =
    (if flushes k l then None
     else if k = lsa_key_of l \<and> sequence_in_range (lsa_seq l) \<and> newer l db then Some \<lparr>le_lsa = l, installed_ms = now\<rparr>
     else lsdb_get k db)"
  using assms
  by (auto simp: install_cases flushes_def lsdb_get_def lsdb_inv_def bt_get_put bt_get_del not_le)

lemma holds_newest_snoc:
  assumes "holds_newest cs h"
  shows "holds_newest (cs @ [(l, now)])
    (if (case h of None \<Rightarrow> True | Some e \<Rightarrow> sint (seq_of e) < sint (lsa_seq l))
     then Some \<lparr>le_lsa = l, installed_ms = now\<rparr> else h)"
proof (cases h)
  case None
  with assms show ?thesis by (simp add: holds_newest_def seq_of_def) (intro exI[of _ "[]"], simp)
next
  case (Some e)
  then obtain before after where c: "cs = before @ (le_lsa e, installed_ms e) # after"
    "\<forall>(l, _) \<in> set before. sint (lsa_seq l) < sint (seq_of e)" "\<forall>(l, _) \<in> set after. sint (lsa_seq l) \<le> sint (seq_of e)"
    using assms by (auto simp: holds_newest_def)
  show ?thesis
  proof (cases "sint (seq_of e) < sint (lsa_seq l)")
    case True
    then have "\<forall>(x, _) \<in> set cs. sint (lsa_seq x) < sint (lsa_seq l)" using c by (fastforce simp: seq_of_def)
    with True Some show ?thesis by (simp add: holds_newest_def seq_of_def) (intro exI[of _ cs] exI[of _ "[]"], simp)
  next
    case False
    then have "cs @ [(l, now)] = before @ (le_lsa e, installed_ms e) # (after @ [(l, now)])"
      "\<forall>(x, _) \<in> set (after @ [(l, now)]). sint (lsa_seq x) \<le> sint (seq_of e)" using c by auto
    with False Some c(2) show ?thesis unfolding holds_newest_def by (simp only: option.case if_False) blast
  qed
qed

lemma install_all_newest:
  "lsdb_inv (install_all ls lsdb_new) \<and> holds_newest (contenders k ls) (lsdb_get k (install_all ls lsdb_new))"
proof (induction ls rule: rev_induct)
  case Nil
  show ?case using lsdb_inv_new by (simp add: install_all_def contenders_def holds_newest_def lsdb_get_def) (simp add: lsdb_new_def)
next
  case (snoc p ls)
  obtain l now where p: "p = (l, now)" by fastforce
  let ?db = "install_all ls lsdb_new"
  have inv: "lsdb_inv ?db" and IH: "holds_newest (contenders k ls) (lsdb_get k ?db)" using snoc by simp_all
  have "install_all (ls @ [p]) lsdb_new = fst (lsdb_install l now ?db)" by (simp add: install_all_def p)
  moreover have "holds_newest (contenders k (ls @ [p])) (lsdb_get k (fst (lsdb_install l now ?db)))"
    using IH holds_newest_snoc[OF IH, of l now]
    by (auto simp: p contenders_snoc install_get[OF inv] newer_def holds_newest_def[of "[]"])
  ultimately show ?case using install_inv[OF inv] by simp
qed

lemma holds_newest_greatest:
  assumes "holds_newest cs (Some e)"
  shows "le_lsa e \<in> fst ` set cs" and "l \<in> fst ` set cs \<Longrightarrow> sint (lsa_seq l) \<le> sint (lsa_seq (le_lsa e))"
  using assms by (fastforce simp: holds_newest_def seq_of_def)+

lemma holds_newest_unique:
  assumes "holds_newest cs h" and "holds_newest cs' h'" and same: "fst ` set cs = fst ` set cs'"
    and inj: "inj_on lsa_seq (fst ` set cs)"
  shows "map_option le_lsa h = map_option le_lsa h'"
proof (cases h; cases h')
  fix e e'
  assume e: "h = Some e" "h' = Some e'"
  have "sint (lsa_seq (le_lsa e)) = sint (lsa_seq (le_lsa e'))"
    using holds_newest_greatest[of cs e] holds_newest_greatest[of cs' e'] assms(1,2) same e by (simp add: order_antisym)
  then have "lsa_seq (le_lsa e) = lsa_seq (le_lsa e')" by (rule signed_word_eqI)
  with e inj_onD[OF inj] holds_newest_greatest(1)[of cs e] holds_newest_greatest(1)[of cs' e'] assms(1,2) same
  show ?thesis by simp
qed (use assms(1,2) same in \<open>auto simp: holds_newest_def\<close>)

text \<open>
  C6.  Which instance a sequence of arrivals leaves.  An instance at the maximal age removes the stored one whatever its
  sequence number; of the arrivals with a usable sequence number after the last such instance, the database
  holds the first of greatest sequence number, with its time of arrival.  So the order and the
  repetition of these do not matter as long as no two different ones share a sequence number, but
  their order relative to an instance at the maximal age does.
\<close>

theorem lsdb_holds_newest:
  "holds_newest (contenders k ls) (lsdb_get k (install_all ls lsdb_new)) \<and>
   (fst ` set (contenders k ls) = fst ` set (contenders k ls') \<and> inj_on lsa_seq (fst ` set (contenders k ls)) \<longrightarrow>
      map_option le_lsa (lsdb_get k (install_all ls lsdb_new)) = map_option le_lsa (lsdb_get k (install_all ls' lsdb_new)))"
  using install_all_newest[of ls k] install_all_newest[of ls' k] holds_newest_unique by blast

lemma sample_contenders:
  "contenders (1, 7, 7) [(sample_lsa 0xffffffff 0, 1), (sample_lsa 0x80000001 3600, 2), (sample_lsa 0x80000001 0, 5), (sample_lsa 0x80000002 0, 6)] =
     [(sample_lsa 0x80000001 0, 5), (sample_lsa 0x80000002 0, 6)]"
  "contenders (1, 7, 7) [(sample_lsa 0x80000002 0, 1), (sample_lsa 0x80000001 0, 2)] =
     [(sample_lsa 0x80000002 0, 1), (sample_lsa 0x80000001 0, 2)]"
  by (simp_all add: contenders_def flushes_def sample_lsa_def MAX_AGE_SECS_def sequence_in_range_def INITIAL_SEQUENCE_NUMBER_def
      lsa_key_of_def key_of_header_def)

theorem lsdb_holds_newest_witness:
  "map_option le_lsa (lsdb_get (1, 7, 7) (install_all
     [(sample_lsa 0xffffffff 0, 1), (sample_lsa 0x80000001 3600, 2), (sample_lsa 0x80000001 0, 5), (sample_lsa 0x80000002 0, 6)] lsdb_new)) =
   map_option le_lsa (lsdb_get (1, 7, 7) (install_all [(sample_lsa 0x80000002 0, 1), (sample_lsa 0x80000001 0, 2)] lsdb_new))"
proof (rule lsdb_holds_newest[THEN conjunct2, THEN mp])
  have "lsa_seq (sample_lsa s a) = s" for s a by (simp add: sample_lsa_def)
  then show "fst ` set (contenders (1, 7, 7) [(sample_lsa 0xffffffff 0, 1), (sample_lsa 0x80000001 3600, 2),
      (sample_lsa 0x80000001 0, 5), (sample_lsa 0x80000002 0, 6)]) =
      fst ` set (contenders (1, 7, 7) [(sample_lsa 0x80000002 0, 1), (sample_lsa 0x80000001 0, 2)]) \<and>
      inj_on lsa_seq (fst ` set (contenders (1, 7, 7) [(sample_lsa 0xffffffff 0, 1), (sample_lsa 0x80000001 3600, 2),
      (sample_lsa 0x80000001 0, 5), (sample_lsa 0x80000002 0, 6)]))"
    unfolding sample_contenders by (auto simp: inj_on_def)
qed

lemma age_keys_mem:
  "lsdb_inv db \<Longrightarrow> k \<in> set (age_keys now db) \<longleftrightarrow>
     (\<exists>e. lsdb_get k db = Some e \<and> entry_age_ms now e \<ge> ucast MAX_AGE_SECS * 1000)"
  unfolding age_keys_def lsdb_get_def by (rule bt_keys_filter) (simp add: lsdb_inv_def)

lemma refresh_keys_mem:
  "lsdb_inv db \<Longrightarrow> k \<in> set (refresh_keys rid now db) \<longleftrightarrow>
     (\<exists>e. lsdb_get k db = Some e \<and> advertising_router (lsa_hdr (le_lsa e)) = rid \<and>
       entry_age_ms now e \<ge> ucast LS_REFRESH_TIME_SECS * 1000)"
  unfolding refresh_keys_def lsdb_get_def by (rule bt_keys_filter) (simp add: lsdb_inv_def)

lemma sample_install:
  assumes "sequence_in_range seq"
  shows "lsdb_get (1, 7, 7) (fst (lsdb_install (sample_lsa seq 0) 0 lsdb_new)) =
    Some \<lparr>le_lsa = sample_lsa seq 0, installed_ms = 0\<rparr>"
proof -
  have "\<not> flushes (1, 7, 7) (sample_lsa seq 0)" "lsa_key_of (sample_lsa seq 0) = (1, 7, 7)" "newer (sample_lsa seq 0) lsdb_new"
    "lsa_seq (sample_lsa seq 0) = seq"
    by (simp_all add: flushes_def sample_lsa_def MAX_AGE_SECS_def lsa_key_of_def key_of_header_def
        newer_def lsdb_get_def lsdb_new_def)
  then show ?thesis using assms by (simp add: install_get[OF lsdb_inv_new])
qed

lemma sample_seqs: "sequence_in_range 0x80000001" "sequence_in_range 0xffffffff"
  by (simp_all add: sequence_in_range_def INITIAL_SEQUENCE_NUMBER_def)

text \<open>
  Aging removes exactly the entries whose age reached the maximum, and refresh touches exactly the
  router's own entries that are due, giving each the next sequence number, age 0 and the time of the
  refresh; an entry whose sequence number has no successor in the range stays as it is.
\<close>

theorem aging_and_refresh:
  assumes "lsdb_inv db"
  shows "lsdb_get k (fst (age_out now db)) =
      (case lsdb_get k db of
         Some e \<Rightarrow> if entry_age_ms now e \<ge> ucast MAX_AGE_SECS * 1000 then None else Some e | None \<Rightarrow> None) \<and>
    lsdb_get k (fst (refresh_due rid now db)) =
      (case lsdb_get k db of
         Some e \<Rightarrow>
           if advertising_router (lsa_hdr (le_lsa e)) = rid \<and> entry_age_ms now e \<ge> ucast LS_REFRESH_TIME_SECS * 1000
           then (case refreshed_entry now e of None \<Rightarrow> Some e | Some e' \<Rightarrow> Some e') else Some e
       | None \<Rightarrow> None)"
proof -
  have "distinct (refresh_keys rid now db)"
    using assms by (simp add: refresh_keys_def bt_distinct_filter lsdb_inv_def)
  from refresh_fold[OF assms this] age_fold[OF assms, of "age_keys now db"] show ?thesis
    by (cases "lsdb_get k db") (simp_all add: age_out_def refresh_due_def age_keys_mem[OF assms] refresh_keys_mem[OF assms])
qed

theorem aging_and_refresh_witness:
  "lsdb_get (1, 7, 7) (fst (age_out 3600000 (fst (lsdb_install (sample_lsa 0x80000001 0) 0 lsdb_new)))) = None"
  using aging_and_refresh[OF install_inv[OF lsdb_inv_new], THEN conjunct1, of "(1, 7, 7)" 3600000 "sample_lsa 0x80000001 0" 0]
  by (simp add: sample_install sample_seqs entry_age_ms_def saturating_sub_def MAX_AGE_SECS_def)
     (simp add: sample_lsa_def)

text \<open>
  The sequence space stops half way: \<open>0xffffffff\<close> counts as usable, but an LSA that carries it is
  never refreshed, although the next number of the signed sequence space is 0.
\<close>

theorem refresh_stops_at_minus_one:
  assumes "lsdb_inv db" and "lsdb_get k db = Some e" and "seq_of e = 0xffffffff"
  shows "lsdb_get k (fst (refresh_due rid now db)) = Some e \<and> sint (seq_of e) = - 1 \<and> sequence_in_range (seq_of e)"
proof -
  have "refreshed_entry now e = None" using assms(3) by (simp add: refreshed_entry_def checked_succ_def)
  with assms(2) refresh_fold[OF assms(1) bt_distinct_filter, of "lsdb_entries db"] assms(1)
  have "lsdb_get k (fst (refresh_due rid now db)) = Some e"
    by (simp add: refresh_due_def refresh_keys_def lsdb_inv_def)
  moreover have "sint (0xffffffff :: u32) = - 1" by simp
  ultimately show ?thesis
    using assms(3) by (simp add: sequence_in_range_def INITIAL_SEQUENCE_NUMBER_def)
qed

theorem refresh_stops_at_minus_one_witness:
  "lsdb_get (1, 7, 7) (fst (refresh_due 7 1800000 (fst (lsdb_install (sample_lsa 0xffffffff 0) 0 lsdb_new)))) =
     Some \<lparr>le_lsa = sample_lsa 0xffffffff 0, installed_ms = 0\<rparr>"
  using refresh_stops_at_minus_one[OF install_inv[OF lsdb_inv_new] sample_install[OF sample_seqs(2)], of 7 1800000]
  by (simp add: seq_of_def sample_lsa_def)

text \<open>
  An instance at the maximal age purges the stored LSA whatever its sequence number, also when the
  stored instance is newer.
\<close>

theorem old_maxage_purges:
  assumes "lsdb_inv db" and "lsdb_get (lsa_key_of l) db = Some e" and "ls_age (lsa_hdr l) \<ge> MAX_AGE_SECS"
    and "sint (ls_sequence_number (lsa_hdr l)) < sint (seq_of e)"
  shows "snd (lsdb_install l now db) = Purged \<and> lsdb_get (lsa_key_of l) (fst (lsdb_install l now db)) = None"
  using assms(2,3) by (simp add: install_cases[OF assms(1)] lsdb_get_def bt_get_del)

theorem old_maxage_purges_witness:
  "snd (lsdb_install (sample_lsa 0x80000001 3600) 9 (fst (lsdb_install (sample_lsa 0xffffffff 0) 0 lsdb_new))) = Purged"
proof -
  have "lsa_key_of (sample_lsa 0x80000001 3600) = (1, 7, 7)"
    by (simp add: sample_lsa_def lsa_key_of_def key_of_header_def)
  with old_maxage_purges[OF install_inv[OF lsdb_inv_new], of "sample_lsa 0x80000001 3600" "sample_lsa 0xffffffff 0" 0]
    sample_install[OF sample_seqs(2)] show ?thesis
    by (simp add: MAX_AGE_SECS_def seq_of_def sample_lsa_def)
qed

end
