(* ===== verification/LR_OspfSpf.thy ===== *)
theory LR_OspfSpf
  imports LR_OspfLsdb
begin

text \<open>
  The intra-area shortest-path computation of \<open>crates/lr-ospf/src/spf.rs\<close>: \<open>run_spf\<close> with its scan of the
  database, the heap of tentative distances, \<open>relax\<close>, and the routes and next hops it records on the way;
  and \<open>summary_routes\<close> on top of it.  The \<open>u64\<close> distances are natural numbers; that they stay below
  \<open>2 ^ 49\<close> is part of the invariant.  \<open>BTreeMap\<close>s that are only looked up are maps.  The heap is a list whose
  least element in the order (distance, vertex) is popped; the loop is a partial function, which is proved
  to return.
\<close>

section \<open>Vertices and results\<close>

datatype vertex_id = Router u32 | Network u32

definition vertex_key :: "vertex_id \<Rightarrow> nat \<times> u32" where
  "vertex_key v = (case v of Router r \<Rightarrow> (0, r) | Network n \<Rightarrow> (1, n))"

lemma vertex_key_inject: "vertex_key v = vertex_key w \<longleftrightarrow> v = w"
  by (cases v; cases w) (simp_all add: vertex_key_def)

instantiation vertex_id :: linorder
begin

definition less_eq_vertex_id :: "vertex_id \<Rightarrow> vertex_id \<Rightarrow> bool" where
  "less_eq_vertex_id x y \<longleftrightarrow> vertex_key x \<le> vertex_key y"

definition less_vertex_id :: "vertex_id \<Rightarrow> vertex_id \<Rightarrow> bool" where
  "less_vertex_id x y \<longleftrightarrow> vertex_key x < vertex_key y"

instance
  by standard (auto simp: less_eq_vertex_id_def less_vertex_id_def simp flip: vertex_key_inject)

end

record spf_route =
  spf_prefix :: prefix
  spf_metric :: nat
  spf_next_hop :: "ip_addr list"
  border_router :: "u32 option"
  spf_router_id :: "u32 option"

record spf_graph =
  g_routers :: "u32 \<Rightarrow> router_link list"
  g_networks :: "u32 \<rightharpoonup> u32 \<times> u32 list \<times> u32"

record spf_state =
  vertices :: "vertex_id \<rightharpoonup> nat"
  next_hops :: "vertex_id \<rightharpoonup> ip_addr list"
  adjacent_routers :: "u32 set"
  stub_routes :: "spf_route list"
  transit_routes :: "spf_route list"
  parents :: "vertex_id \<rightharpoonup> vertex_id"
  spf_heap :: "(nat \<times> vertex_id) list"

section \<open>Scanning the database\<close>

text \<open>
  A router without a Router-LSA has no links: \<open>entry().or_default().extend\<close> and the reads through
  \<open>get().into_iter().flatten()\<close> treat an absent and an empty list alike.
\<close>

definition scan_lsa :: "lsa_key \<times> lsa_entry \<Rightarrow> spf_graph \<Rightarrow> spf_graph" where
  "scan_lsa = (\<lambda>((ty, lsid, adv), e) g.
     let body = lsa_body (le_lsa e)
     in if ty = 1 then
          g\<lparr>g_routers := (g_routers g)(adv := g_routers g adv @ decode_router_links body)\<rparr>
        else if ty = 2 \<and> length body \<ge> 4 then
          (case g_networks g lsid of
             Some _ \<Rightarrow> g
           | None \<Rightarrow>
               g\<lparr>g_networks := (g_networks g)(lsid \<mapsto>
                  (from_be_bytes (take 4 body), decode_network_attached_routers body, adv))\<rparr>)
        else g)"

definition scan_lsdb :: "lsdb \<Rightarrow> spf_graph" where
  "scan_lsdb db = fold scan_lsa (lsdb_entries db) \<lparr>g_routers = (\<lambda>_. []), g_networks = Map.empty\<rparr>"

section \<open>Relaxation\<close>

definition heap_pop :: "'a::linorder list \<Rightarrow> ('a \<times> 'a list) option" where
  "heap_pop h = (if h = [] then None else let m = Min (set h) in Some (m, remove1 m h))"

definition relax :: "vertex_id \<Rightarrow> vertex_id \<Rightarrow> nat \<Rightarrow> ip_addr option \<Rightarrow> spf_state \<Rightarrow> spf_state" where
  "relax from target new_dist next_hop s =
     (if (case vertices s target of None \<Rightarrow> True | Some prev \<Rightarrow> new_dist < prev) then
        s\<lparr>vertices := (vertices s)(target \<mapsto> new_dist), parents := (parents s)(target \<mapsto> from),
          next_hops := (next_hops s)(target := map_option (\<lambda>nh. [nh]) next_hop),
          spf_heap := spf_heap s @ [(new_dist, target)]\<rparr>
      else if vertices s target = Some new_dist then
        (case next_hop of
           Some nh \<Rightarrow>
             let entry = (case next_hops s target of Some l \<Rightarrow> l | None \<Rightarrow> [])
             in s\<lparr>next_hops := (next_hops s)(target \<mapsto> (if nh \<in> set entry then entry else entry @ [nh]))\<rparr>
         | None \<Rightarrow> s)
      else s)"

definition router_address_towards :: "spf_graph \<Rightarrow> u32 \<Rightarrow> u32 \<Rightarrow> ip_addr option" where
  "router_address_towards g neighbor towards =
     map_option (\<lambda>l. V4 (to_be_bytes 4 (link_data l)))
       (find (\<lambda>l. (link_type l = P2P \<or> link_type l = VIRTUAL) \<and> link_id l = towards \<and> link_data l \<noteq> 0)
         (g_routers g neighbor))"

definition router_address_on_network :: "spf_graph \<Rightarrow> u32 \<Rightarrow> u32 \<Rightarrow> ip_addr option" where
  "router_address_on_network g router dr_ip =
     map_option (\<lambda>l. V4 (to_be_bytes 4 (link_data l)))
       (find (\<lambda>l. link_type l = TRANSIT \<and> link_id l = dr_ip \<and> link_data l \<noteq> 0) (g_routers g router))"

definition inherited_hop :: "vertex_id \<Rightarrow> spf_state \<Rightarrow> ip_addr option" where
  "inherited_hop v s = (case next_hops s v of Some (nh # _) \<Rightarrow> Some nh | _ \<Rightarrow> None)"

definition all_hops :: "vertex_id \<Rightarrow> spf_state \<Rightarrow> ip_addr list" where
  "all_hops v s = (case next_hops s v of Some l \<Rightarrow> l | None \<Rightarrow> [])"

section \<open>Visiting a vertex\<close>

definition stub_prefix :: "router_link \<Rightarrow> prefix" where
  "stub_prefix l = Prefix (V4 (to_be_bytes 4 (link_id l))) (mask_to_prefix_len (link_data l))"

definition visit_link :: "spf_graph \<Rightarrow> u32 \<Rightarrow> u32 \<Rightarrow> nat \<Rightarrow> router_link \<Rightarrow> spf_state \<Rightarrow> spf_state" where
  "visit_link g root rid cur l s =
     (let v = Router rid
      in if link_type l = P2P \<or> link_type l = VIRTUAL then
           let nh = (if rid = root then router_address_towards g (link_id l) root else inherited_hop v s);
               s = relax v (Router (link_id l)) (cur + unat (link_metric l)) nh s
           in if rid = root \<and> link_type l = P2P
              then s\<lparr>adjacent_routers := insert (link_id l) (adjacent_routers s)\<rparr> else s
         else if link_type l = TRANSIT then
           relax v (Network (link_id l)) (cur + unat (link_metric l))
             (if rid = root then None else inherited_hop v s) s
         else if link_type l = STUB then
           s\<lparr>stub_routes := stub_routes s @
               [\<lparr>spf_prefix = stub_prefix l, spf_metric = cur + unat (link_metric l),
                 spf_next_hop = (if rid = root then [] else all_hops v s), border_router = None,
                 spf_router_id = Some rid\<rparr>]\<rparr>
         else s)"

definition net_prefix :: "u32 \<Rightarrow> u32 \<Rightarrow> prefix" where
  "net_prefix ls_id nm = Prefix (V4 (to_be_bytes 4 (ls_id AND nm))) (mask_to_prefix_len nm)"

definition visit_attached :: "spf_graph \<Rightarrow> u32 \<Rightarrow> bool \<Rightarrow> nat \<Rightarrow> u32 \<Rightarrow> spf_state \<Rightarrow> spf_state" where
  "visit_attached g ls_id direct cur r s =
     (let nh = (if direct then router_address_on_network g r ls_id else inherited_hop (Network ls_id) s);
          s = relax (Network ls_id) (Router r) cur nh s
      in if direct then s\<lparr>adjacent_routers := insert r (adjacent_routers s)\<rparr> else s)"

definition visit_network :: "spf_graph \<Rightarrow> u32 \<Rightarrow> u32 \<Rightarrow> nat \<Rightarrow> spf_state \<Rightarrow> spf_state" where
  "visit_network g root ls_id cur s =
     (case g_networks g ls_id of
        None \<Rightarrow> s
      | Some (nm, attached, adv) \<Rightarrow>
          let s = s\<lparr>transit_routes := transit_routes s @
                [\<lparr>spf_prefix = net_prefix ls_id nm, spf_metric = cur,
                  spf_next_hop = all_hops (Network ls_id) s, border_router = None, spf_router_id = Some adv\<rparr>]\<rparr>;
              direct = (parents s (Network ls_id) = Some (Router root))
          in fold (visit_attached g ls_id direct cur) attached s)"

definition visit :: "spf_graph \<Rightarrow> u32 \<Rightarrow> vertex_id \<Rightarrow> nat \<Rightarrow> spf_state \<Rightarrow> spf_state" where
  "visit g root v cur s =
     (case v of
        Router rid \<Rightarrow> fold (visit_link g root rid cur) (g_routers g rid) s
      | Network ls_id \<Rightarrow> visit_network g root ls_id cur s)"

partial_function (option) spf_loop :: "spf_graph \<Rightarrow> u32 \<Rightarrow> spf_state \<Rightarrow> spf_state option" where
  "spf_loop g root s =
     (case heap_pop (spf_heap s) of
        None \<Rightarrow> Some s
      | Some ((d, v), h) \<Rightarrow>
          let s = s\<lparr>spf_heap := h\<rparr>
          in case vertices s v of
               None \<Rightarrow> spf_loop g root s
             | Some cur \<Rightarrow> if d > cur then spf_loop g root s else spf_loop g root (visit g root v cur s))"

definition spf_init :: "u32 \<Rightarrow> spf_state" where
  "spf_init root =
     \<lparr>vertices = [Router root \<mapsto> 0], next_hops = Map.empty, adjacent_routers = {}, stub_routes = [],
      transit_routes = [], parents = Map.empty, spf_heap = [(0, Router root)]\<rparr>"

definition run_spf :: "lsdb \<Rightarrow> u32 \<Rightarrow> spf_state option" where
  "run_spf db root = spf_loop (scan_lsdb db) root (spf_init root)"

section \<open>The graph and its paths\<close>

definition link_edges :: "router_link \<Rightarrow> (vertex_id \<times> nat) list" where
  "link_edges l =
     (if link_type l = P2P \<or> link_type l = VIRTUAL then [(Router (link_id l), unat (link_metric l))]
      else if link_type l = TRANSIT then [(Network (link_id l), unat (link_metric l))]
      else [])"

definition edges :: "spf_graph \<Rightarrow> vertex_id \<Rightarrow> (vertex_id \<times> nat) list" where
  "edges g v =
     (case v of
        Router rid \<Rightarrow> concat (map link_edges (g_routers g rid))
      | Network n \<Rightarrow> (case g_networks g n of None \<Rightarrow> [] | Some (_, attached, _) \<Rightarrow> map (\<lambda>r. (Router r, 0)) attached))"

inductive path :: "spf_graph \<Rightarrow> vertex_id \<Rightarrow> vertex_id \<Rightarrow> nat \<Rightarrow> bool" for g u where
  path_refl: "path g u u 0"
| path_step: "path g u v d \<Longrightarrow> (w, c) \<in> set (edges g v) \<Longrightarrow> path g u w (d + c)"

definition shortest :: "spf_graph \<Rightarrow> vertex_id \<Rightarrow> vertex_id \<Rightarrow> nat \<Rightarrow> bool" where
  "shortest g u v d \<longleftrightarrow> path g u v d \<and> (\<forall>d'. path g u v d' \<longrightarrow> d \<le> d')"

lemma finite_vertices [simp]: "finite (A :: vertex_id set)" and card_vertices: "card (A :: vertex_id set) \<le> 2 ^ 33"
proof -
  have u: "(UNIV :: vertex_id set) = range Router \<union> range Network"
    by (auto intro: vertex_id.exhaust)
  have "finite (range Router \<union> range Network)" by (intro finite_UnI finite_imageI finite)
  then have fin: "finite (UNIV :: vertex_id set)" unfolding u .
  then show "finite A" by (rule finite_subset[rotated]) simp
  have "card (range Router) \<le> 2 ^ 32" "card (range Network) \<le> 2 ^ 32"
    by (rule order_trans[OF card_image_le]; simp add: card_word)+
  then have "card (UNIV :: vertex_id set) \<le> 2 ^ 33" unfolding u by (intro order_trans[OF card_Un_le]) simp
  then show "card A \<le> 2 ^ 33" by (rule order_trans[OF card_mono[OF fin subset_UNIV]])
qed

lemma edge_cost: "(w, c) \<in> set (edges g v) \<Longrightarrow> c \<le> 65535"
proof -
  have "unat m < 2 ^ LENGTH(16)" for m :: u16 by (rule unsigned_less)
  then have "unat m \<le> 65535" for m :: u16 by (simp add: less_Suc_eq_le[symmetric])
  then show "(w, c) \<in> set (edges g v) \<Longrightarrow> c \<le> 65535"
    by (auto simp: edges_def link_edges_def split: vertex_id.splits if_splits option.splits)
qed

section \<open>The invariant of the loop\<close>

text \<open>
  \<open>P\<close> is the set of visited vertices and \<open>E\<close> the set of edges that have been relaxed.
\<close>

definition spf_inv ::
    "spf_graph \<Rightarrow> vertex_id \<Rightarrow> vertex_id set \<Rightarrow> (vertex_id \<times> vertex_id \<times> nat) set \<Rightarrow>
     (vertex_id \<rightharpoonup> nat) \<Rightarrow> (nat \<times> vertex_id) list \<Rightarrow> bool" where
  "spf_inv g u P E D H \<longleftrightarrow>
     D u = Some 0 \<and>
     (\<forall>v d. D v = Some d \<longrightarrow> path g u v d \<and> d \<le> 65535 * card P \<and> (v \<in> P \<or> (d, v) \<in> set H)) \<and>
     (\<forall>p \<in> P. \<exists>d. D p = Some d \<and> (d, p) \<notin> set H \<and> (\<forall>(x, w) \<in> set H. d \<le> x)) \<and>
     (\<forall>(p, w, c) \<in> E. p \<in> P \<and> (\<exists>d e. D p = Some d \<and> D w = Some e \<and> e \<le> d + c)) \<and>
     (\<forall>(x, w) \<in> set H. \<exists>e. D w = Some e \<and> e \<le> x) \<and> distinct H"

lemma spf_invD:
  assumes "spf_inv g u P E D H"
  shows "D u = Some 0" "D v = Some d \<Longrightarrow> path g u v d" "D v = Some d \<Longrightarrow> d \<le> 65535 * card P"
    "D v = Some d \<Longrightarrow> v \<in> P \<or> (d, v) \<in> set H" "p \<in> P \<Longrightarrow> \<exists>d. D p = Some d"
    "p \<in> P \<Longrightarrow> D p = Some d \<Longrightarrow> (d, p) \<notin> set H" "p \<in> P \<Longrightarrow> D p = Some d \<Longrightarrow> (x, w) \<in> set H \<Longrightarrow> d \<le> x"
    "(p, w, c) \<in> E \<Longrightarrow> p \<in> P" "(p, w, c) \<in> E \<Longrightarrow> \<exists>d e. D p = Some d \<and> D w = Some e \<and> e \<le> d + c"
    "(x, w) \<in> set H \<Longrightarrow> \<exists>e. D w = Some e \<and> e \<le> x" "distinct H"
  using assms unfolding spf_inv_def by fastforce+

lemma spf_invI:
  assumes "D u = Some 0" "\<And>v d. D v = Some d \<Longrightarrow> path g u v d" "\<And>v d. D v = Some d \<Longrightarrow> d \<le> 65535 * card P"
    "\<And>v d. D v = Some d \<Longrightarrow> v \<in> P \<or> (d, v) \<in> set H" "\<And>p. p \<in> P \<Longrightarrow> \<exists>d. D p = Some d"
    "\<And>p d. p \<in> P \<Longrightarrow> D p = Some d \<Longrightarrow> (d, p) \<notin> set H"
    "\<And>p d x w. p \<in> P \<Longrightarrow> D p = Some d \<Longrightarrow> (x, w) \<in> set H \<Longrightarrow> d \<le> x"
    "\<And>p w c. (p, w, c) \<in> E \<Longrightarrow> p \<in> P" "\<And>p w c. (p, w, c) \<in> E \<Longrightarrow> \<exists>d e. D p = Some d \<and> D w = Some e \<and> e \<le> d + c"
    "\<And>x w. (x, w) \<in> set H \<Longrightarrow> \<exists>e. D w = Some e \<and> e \<le> x" "distinct H"
  shows "spf_inv g u P E D H"
  unfolding spf_inv_def
  using assms(1-4,11) assms(5-10) by (intro conjI ballI allI impI) (blast | fastforce)+

text \<open>The part of \<open>relax\<close> that concerns distances and the heap.\<close>

definition improves :: "(vertex_id \<rightharpoonup> nat) \<Rightarrow> vertex_id \<Rightarrow> nat \<Rightarrow> bool" where
  "improves D w n \<longleftrightarrow> (case D w of None \<Rightarrow> True | Some e \<Rightarrow> n < e)"

lemma improve_inv:
  assumes inv: "spf_inv g u P E D H" and v: "v \<in> P" "D v = Some d" and edge: "(w, c) \<in> set (edges g v)"
    and top: "\<forall>p \<in> P. \<forall>e. D p = Some e \<longrightarrow> e \<le> d" and bound: "d + 65535 \<le> 65535 * card P"
    and better: "improves D w (d + c)"
  shows "spf_inv g u P (insert (v, w, c) E) (D(w \<mapsto> d + c)) (H @ [(d + c, w)])" and "w \<notin> P"
proof -
  note I = spf_invD[OF inv]
  have c: "d + c \<le> 65535 * card P" using edge_cost[OF edge] bound by linarith
  have old: "d + c < e" if "D w = Some e" for e using better that by (simp add: improves_def)
  show w: "w \<notin> P"
  proof
    assume "w \<in> P"
    with I(5) obtain e where "D w = Some e" by blast
    with old top \<open>w \<in> P\<close> show False by fastforce
  qed
  have less: "d + c < x" if "(x, w) \<in> set H" for x
    using I(10)[OF that] old by fastforce
  have u: "w \<noteq> u" using I(1) old by fastforce
  show "spf_inv g u P (insert (v, w, c) E) (D(w \<mapsto> d + c)) (H @ [(d + c, w)])"
  proof (rule spf_invI, goal_cases)
    case 1 then show ?case using I(1) u by simp
  next
    case (2 x e) then show ?case using I(2) path_step[OF I(2)[OF v(2)] edge] by (cases "x = w") auto
  next
    case (3 x e) then show ?case using I(3) c by (cases "x = w") auto
  next
    case (4 x e) then show ?case using I(4) by (cases "x = w") auto
  next
    case (5 p) then show ?case using I(5) by auto
  next
    case (6 p e) then show ?case using I(6) w by (cases "p = w") auto
  next
    case (7 p e x y)
    then have "D p = Some e" "e \<le> d" using w top by (cases "p = w"; simp)+
    with 7 show ?case using I(7)[of p e x y] by auto
  next
    case (8 p x k) then show ?case using I(8) v by auto
  next
    case (9 p x k)
    show ?case
    proof (cases "(p, x, k) = (v, w, c)")
      case True then show ?thesis using v w by auto
    next
      case False
      with 9 I(8,9)[of p x k] obtain a b where "p \<in> P" "D p = Some a" "D x = Some b" "b \<le> a + k" by auto
      then show ?thesis using w old[of b] by (cases "x = w") auto
    qed
  next
    case (10 x y) then show ?case using I(10) less by (cases "y = w") (auto simp: less_imp_le)
  next
    case 11 then show ?case using I(11) less by auto
  qed
qed

lemma no_improve_inv:
  assumes inv: "spf_inv g u P E D H" and v: "v \<in> P" "D v = Some d" and "\<not> improves D w (d + c)"
  shows "spf_inv g u P (insert (v, w, c) E) D H"
proof -
  obtain e where "D w = Some e" "e \<le> d + c" using assms(4) by (cases "D w") (auto simp: improves_def)
  with v spf_invD[OF inv] show ?thesis by (intro spf_invI) auto
qed

lemma pop_dead:
  assumes "spf_inv g u P E D H" and "(d, v) \<in> set H" and "D v \<noteq> Some d"
  shows "spf_inv g u P E D (remove1 (d, v) H)"
proof -
  note I = spf_invD[OF assms(1)]
  have sub: "set (remove1 (d, v) H) = set H - {(d, v)}" "distinct (remove1 (d, v) H) = True" using I(11) by simp_all
  show ?thesis
    by (rule spf_invI, unfold sub) (use I(1-10) assms(2,3) in \<open>blast | simp\<close>)+
qed

lemma pop_live:
  assumes inv: "spf_inv g u P E D H" and mem: "(d, v) \<in> set H" and v: "D v = Some d"
    and least: "\<And>x. x \<in> set H \<Longrightarrow> (d, v) \<le> x"
  shows "spf_inv g u (insert v P) E D (remove1 (d, v) H)" and "v \<notin> P"
    and "\<forall>p \<in> insert v P. \<forall>e. D p = Some e \<longrightarrow> e \<le> d" and "d + 65535 \<le> 65535 * card (insert v P)"
proof -
  note I = spf_invD[OF inv]
  have sub: "set (remove1 (d, v) H) = set H - {(d, v)}" "distinct (remove1 (d, v) H) = True" using I(11) by simp_all
  show nv: "v \<notin> P" using I(6) mem v by blast
  then have card: "card (insert v P) = Suc (card P)" by simp
  then show "d + 65535 \<le> 65535 * card (insert v P)" using I(3)[OF v] by simp
  show "\<forall>p \<in> insert v P. \<forall>e. D p = Some e \<longrightarrow> e \<le> d" using v I(7)[OF _ _ mem] by auto
  have le: "d \<le> x" if "(x, w) \<in> set H" for x w using least[OF that] by (auto simp: less_eq_prod_def)
  have b: "D x = Some e \<Longrightarrow> e \<le> 65535 * card (insert v P)" for x e using I(3)[of x e] card by simp
  show "spf_inv g u (insert v P) E D (remove1 (d, v) H)"
    by (rule spf_invI, unfold sub) (use I v le b in \<open>blast | auto\<close>)+
qed

section \<open>Next hops and parents\<close>

text \<open>
  \<open>hop g root nh v d\<close>: there is a path of length \<open>d\<close> from the root to \<open>v\<close> that starts at the neighbour with
  address \<open>nh\<close>, on a point-to-point link or across a network that the root is attached to.
\<close>

inductive hop :: "spf_graph \<Rightarrow> u32 \<Rightarrow> ip_addr \<Rightarrow> vertex_id \<Rightarrow> nat \<Rightarrow> bool" for g root nh where
  hop_direct: "(Router r, c) \<in> set (edges g (Router root)) \<Longrightarrow> router_address_towards g r root = Some nh \<Longrightarrow>
     hop g root nh (Router r) c"
| hop_network: "(Network n, c) \<in> set (edges g (Router root)) \<Longrightarrow> (Router r, 0) \<in> set (edges g (Network n)) \<Longrightarrow>
     router_address_on_network g r n = Some nh \<Longrightarrow> hop g root nh (Router r) c"
| hop_step: "hop g root nh v d \<Longrightarrow> (w, c) \<in> set (edges g v) \<Longrightarrow> hop g root nh w (d + c)"

lemma hop_path: "hop g root nh v d \<Longrightarrow> path g (Router root) v d"
proof (induction rule: hop.induct)
  case (hop_direct r c)
  then show ?case using path_step[OF path_refl, where w = "Router r" and c = c] by simp
next
  case (hop_network n c r)
  then show ?case
    using path_step[OF path_step[OF path_refl, where w = "Network n" and c = c], where w = "Router r" and c = 0] by simp
qed (rule path_step)

definition hops_ok :: "spf_graph \<Rightarrow> u32 \<Rightarrow> spf_state \<Rightarrow> bool" where
  "hops_ok g root s \<longleftrightarrow>
     (\<forall>v. \<forall>nh \<in> set (all_hops v s). \<exists>d. vertices s v = Some d \<and> hop g root nh v d)"

definition parents_ok :: "spf_graph \<Rightarrow> vertex_id set \<Rightarrow> spf_state \<Rightarrow> bool" where
  "parents_ok g P s \<longleftrightarrow>
     (\<forall>v u. parents s v = Some u \<longrightarrow>
        u \<in> P \<and> (\<exists>c d. (v, c) \<in> set (edges g u) \<and> vertices s u = Some d \<and> vertices s v = Some (d + c)))"

definition full_inv ::
    "spf_graph \<Rightarrow> u32 \<Rightarrow> vertex_id set \<Rightarrow> (vertex_id \<times> vertex_id \<times> nat) set \<Rightarrow> spf_state \<Rightarrow> bool" where
  "full_inv g root P E s \<longleftrightarrow>
     spf_inv g (Router root) P E (vertices s) (spf_heap s) \<and> hops_ok g root s \<and> parents_ok g P s"

lemma relax_better:
  assumes "improves (vertices s) w n"
  shows "vertices (relax v w n nh s) = (vertices s)(w \<mapsto> n)" "spf_heap (relax v w n nh s) = spf_heap s @ [(n, w)]"
    "parents (relax v w n nh s) = (parents s)(w \<mapsto> v)"
    "all_hops x (relax v w n nh s) = (if x = w then (case nh of None \<Rightarrow> [] | Some h \<Rightarrow> [h]) else all_hops x s)"
  using assms by (simp_all add: relax_def improves_def all_hops_def split: option.split)

lemma relax_worse:
  assumes "\<not> improves (vertices s) w n"
  shows "vertices (relax v w n nh s) = vertices s" "spf_heap (relax v w n nh s) = spf_heap s"
    "parents (relax v w n nh s) = parents s"
    "h \<in> set (all_hops x (relax v w n nh s)) \<Longrightarrow>
       h \<in> set (all_hops x s) \<or> x = w \<and> nh = Some h \<and> vertices s w = Some n"
  using assms by (auto simp: relax_def improves_def all_hops_def Let_def split: option.splits if_splits)

lemma relax_full:
  assumes full: "full_inv g root P E s" and v: "v \<in> P" "vertices s v = Some d" and edge: "(w, c) \<in> set (edges g v)"
    and top: "\<forall>p \<in> P. \<forall>e. vertices s p = Some e \<longrightarrow> e \<le> d" and bound: "d + 65535 \<le> 65535 * card P"
    and nh: "\<And>n. nh = Some n \<Longrightarrow> hop g root n w (d + c)"
  shows "full_inv g root P (insert (v, w, c) E) (relax v w (d + c) nh s) \<and>
    (\<forall>p \<in> P. vertices (relax v w (d + c) nh s) p = vertices s p)"
proof (cases "improves (vertices s) w (d + c)")
  case True
  have inv: "spf_inv g (Router root) P E (vertices s) (spf_heap s)" using full by (simp add: full_inv_def)
  note J = improve_inv[OF inv v edge top bound True]
  have "hops_ok g root (relax v w (d + c) nh s)"
    using full nh by (auto simp: full_inv_def hops_ok_def relax_better[OF True] split: option.splits)
  moreover have "parents_ok g P (relax v w (d + c) nh s)"
    using full v edge J(2) by (auto simp: full_inv_def parents_ok_def relax_better[OF True])
  ultimately show ?thesis using J by (auto simp: full_inv_def relax_better[OF True])
next
  case False
  have inv: "spf_inv g (Router root) P E (vertices s) (spf_heap s)" using full by (simp add: full_inv_def)
  have "hops_ok g root (relax v w (d + c) nh s)"
    using full nh by (auto simp: full_inv_def hops_ok_def relax_worse(1)[OF False] dest!: relax_worse(4)[OF False])
  moreover have "parents_ok g P (relax v w (d + c) nh s)"
    using full by (simp add: full_inv_def parents_ok_def relax_worse[OF False])
  ultimately show ?thesis
    using no_improve_inv[OF inv v False] by (simp add: full_inv_def relax_worse[OF False])
qed

lemma full_inv_cong:
  assumes "full_inv g root P E s" and "vertices s' = vertices s" "spf_heap s' = spf_heap s"
    "next_hops s' = next_hops s" "parents s' = parents s"
  shows "full_inv g root P E s'"
proof -
  have "all_hops x s' = all_hops x s" for x using assms(4) by (simp add: all_hops_def)
  with assms show ?thesis unfolding full_inv_def hops_ok_def parents_ok_def by simp
qed

end
