(* ===== verification/LR_OspfRoutes.thy ===== *)
theory LR_OspfRoutes
  imports LR_OspfSpf
begin

text \<open>
  The shortest-path loop of \<open>LR_OspfSpf\<close> as a whole: visiting a vertex relaxes its edges and records its
  routes, the loop returns on every database, its distances are the shortest path lengths, its stub and
  transit routes are exactly those of the reachable vertices, and its next hops begin shortest paths.  On
  top of it, the inter-area routes of \<open>summary_routes\<close>.
\<close>

section \<open>Visiting a vertex\<close>

lemma fold_full:
  assumes step: "\<And>x E s. x \<in> set xs \<Longrightarrow> full_inv g root P E s \<Longrightarrow> \<forall>p \<in> P. vertices s p = D p \<Longrightarrow>
      full_inv g root P (E \<union> ef x) (f x s) \<and> (\<forall>p \<in> P. vertices (f x s) p = D p)"
    and "full_inv g root P E s" and "\<forall>p \<in> P. vertices s p = D p"
  shows "full_inv g root P (E \<union> (\<Union>x \<in> set xs. ef x)) (fold f xs s) \<and>
    (\<forall>p \<in> P. vertices (fold f xs s) p = D p)"
  using assms
proof (induction xs arbitrary: E s)
  case (Cons x xs)
  have "full_inv g root P (E \<union> ef x) (f x s) \<and> (\<forall>p \<in> P. vertices (f x s) p = D p)"
    by (rule Cons.prems(1)) (use Cons.prems in auto)
  with Cons.IH[of "E \<union> ef x" "f x s"] Cons.prems(1) show ?case by (simp add: Un_assoc)
qed simp

lemma inherited_hop_ok:
  assumes "full_inv g root P E s" and "vertices s v = Some d" and "inherited_hop v s = Some nh"
  shows "hop g root nh v d"
proof -
  have "nh \<in> set (all_hops v s)"
    using assms(3) by (auto simp: inherited_hop_def all_hops_def split: option.splits list.splits)
  with assms(1,2) show ?thesis by (fastforce simp: full_inv_def hops_ok_def)
qed

definition edge_set :: "vertex_id \<Rightarrow> (vertex_id \<times> nat) list \<Rightarrow> (vertex_id \<times> vertex_id \<times> nat) set" where
  "edge_set v es = (\<lambda>(w, c). (v, w, c)) ` set es"

lemma visit_link_full:
  assumes full: "full_inv g root P E s" and v: "Router rid \<in> P" "vertices s (Router rid) = Some d"
    and l: "l \<in> set (g_routers g rid)"
    and top: "\<forall>p \<in> P. \<forall>e. vertices s p = Some e \<longrightarrow> e \<le> d" and bound: "d + 65535 \<le> 65535 * card P"
  shows "full_inv g root P (E \<union> edge_set (Router rid) (link_edges l)) (visit_link g root rid d l s) \<and>
    (\<forall>p \<in> P. vertices (visit_link g root rid d l s) p = vertices s p)"
proof (cases "link_edges l")
  case Nil
  then have "vertices (visit_link g root rid d l s) = vertices s" "spf_heap (visit_link g root rid d l s) = spf_heap s"
    "next_hops (visit_link g root rid d l s) = next_hops s" "parents (visit_link g root rid d l s) = parents s"
    by (auto simp: visit_link_def link_edges_def Let_def split: if_splits)
  with full_inv_cong[OF full] Nil show ?thesis by (simp add: edge_set_def)
next
  case (Cons e es)
  then obtain w where w: "link_edges l = [(w, unat (link_metric l))]"
    by (auto simp: link_edges_def split: if_splits)
  then have edge: "(w, unat (link_metric l)) \<in> set (edges g (Router rid))"
    using l by (force simp: edges_def)
  let ?nh = "if rid = root then (if link_type l = TRANSIT then None else router_address_towards g (link_id l) root)
     else inherited_hop (Router rid) s"
  let ?s = "relax (Router rid) w (d + unat (link_metric l)) ?nh s"
  have root: "d = 0" if "rid = root" using full v that by (simp add: full_inv_def spf_inv_def)
  have nh: "hop g root n w (d + unat (link_metric l))" if n: "?nh = Some n" for n
  proof (cases "rid = root")
    case True
    with n w have "w = Router (link_id l)" "router_address_towards g (link_id l) root = Some n"
      by (auto simp: link_edges_def split: if_splits)
    with True edge root show ?thesis using hop_direct[of "link_id l"] by simp
  next
    case False
    with n inherited_hop_ok[OF full v(2)] show ?thesis by (auto intro: hop_step[OF _ edge])
  qed
  have fields: "vertices (visit_link g root rid d l s) = vertices ?s" "spf_heap (visit_link g root rid d l s) = spf_heap ?s"
    "next_hops (visit_link g root rid d l s) = next_hops ?s" "parents (visit_link g root rid d l s) = parents ?s"
    using w by (auto simp: visit_link_def link_edges_def link_types Let_def split: if_splits)
  from relax_full[OF full v edge top bound nh] fields full_inv_cong[of g root P _ ?s] w show ?thesis
    by (simp add: edge_set_def)
qed

lemma visit_attached_full:
  assumes full: "full_inv g root P E s" and v: "Network n \<in> P" "vertices s (Network n) = Some d"
    and r: "(Router r, 0) \<in> set (edges g (Network n))"
    and direct: "direct \<Longrightarrow> (Network n, d) \<in> set (edges g (Router root))"
    and top: "\<forall>p \<in> P. \<forall>e. vertices s p = Some e \<longrightarrow> e \<le> d" and bound: "d + 65535 \<le> 65535 * card P"
  shows "full_inv g root P (E \<union> edge_set (Network n) [(Router r, 0)]) (visit_attached g n direct d r s) \<and>
    (\<forall>p \<in> P. vertices (visit_attached g n direct d r s) p = vertices s p)"
proof -
  let ?nh = "if direct then router_address_on_network g r n else inherited_hop (Network n) s"
  let ?s = "relax (Network n) (Router r) (d + 0) ?nh s"
  have nh: "hop g root x (Router r) (d + 0)" if "?nh = Some x" for x
    using that direct r hop_network[of n d g root r x] hop_step[OF inherited_hop_ok[OF full v(2)] r, of x]
    by (auto split: if_splits)
  have fields: "vertices (visit_attached g n direct d r s) = vertices ?s" "spf_heap (visit_attached g n direct d r s) = spf_heap ?s"
    "next_hops (visit_attached g n direct d r s) = next_hops ?s" "parents (visit_attached g n direct d r s) = parents ?s"
    by (simp_all add: visit_attached_def Let_def)
  from relax_full[OF full v r top bound nh] fields full_inv_cong[of g root P _ ?s] show ?thesis
    by (simp add: edge_set_def)
qed

lemma visit_full:
  assumes full: "full_inv g root P E s" and v: "v \<in> P" "vertices s v = Some d"
    and top: "\<forall>p \<in> P. \<forall>e. vertices s p = Some e \<longrightarrow> e \<le> d" and bound: "d + 65535 \<le> 65535 * card P"
  shows "full_inv g root P (E \<union> edge_set v (edges g v)) (visit g root v d s) \<and>
    (\<forall>p \<in> P. vertices (visit g root v d s) p = vertices s p)"
proof (cases v)
  case (Router rid)
  have "full_inv g root P (E \<union> (\<Union>l \<in> set (g_routers g rid). edge_set v (link_edges l)))
      (fold (visit_link g root rid d) (g_routers g rid) s) \<and>
    (\<forall>p \<in> P. vertices (fold (visit_link g root rid d) (g_routers g rid) s) p = vertices s p)"
  proof (rule fold_full[OF _ full])
    fix l E' s'
    assume "l \<in> set (g_routers g rid)" "full_inv g root P E' s'" and same: "\<forall>p \<in> P. vertices s' p = vertices s p"
    then show "full_inv g root P (E' \<union> edge_set v (link_edges l)) (visit_link g root rid d l s') \<and>
        (\<forall>p \<in> P. vertices (visit_link g root rid d l s') p = vertices s p)"
      using visit_link_full[of g root P E' s' rid d l] v top bound Router by auto
  qed simp
  moreover have "(\<Union>l \<in> set (g_routers g rid). edge_set v (link_edges l)) = edge_set v (edges g v)"
    by (auto simp: edge_set_def edges_def Router)
  ultimately show ?thesis by (simp add: visit_def Router)
next
  case (Network n)
  show ?thesis
  proof (cases "g_networks g n")
    case None
    then show ?thesis using full by (simp add: visit_def visit_network_def edges_def edge_set_def Network)
  next
    case (Some t)
    then obtain nm attached adv where net: "g_networks g n = Some (nm, attached, adv)" by (cases t) auto
    define direct where "direct = (parents s (Network n) = Some (Router root))"
    define s0 where "s0 = s\<lparr>transit_routes := transit_routes s @
      [\<lparr>spf_prefix = net_prefix n nm, spf_metric = d, spf_next_hop = all_hops (Network n) s,
        border_router = None, spf_router_id = Some adv\<rparr>]\<rparr>"
    have full0: "full_inv g root P E s0" by (rule full_inv_cong[OF full]) (simp_all add: s0_def)
    have dir: "(Network n, d) \<in> set (edges g (Router root))" if par: direct
    proof -
      obtain c e where "(Network n, c) \<in> set (edges g (Router root))" "vertices s (Router root) = Some e"
        "vertices s (Network n) = Some (e + c)"
        using par full unfolding direct_def full_inv_def parents_ok_def by blast
      moreover have "vertices s (Router root) = Some 0" using full by (simp add: full_inv_def spf_inv_def)
      ultimately show ?thesis using v Network by simp
    qed
    have "full_inv g root P (E \<union> (\<Union>r \<in> set attached. edge_set v [(Router r, 0)])) (fold (visit_attached g n direct d) attached s0) \<and>
      (\<forall>p \<in> P. vertices (fold (visit_attached g n direct d) attached s0) p = vertices s p)"
    proof (rule fold_full[OF _ full0])
      fix r E' s'
      assume r: "r \<in> set attached" and "full_inv g root P E' s'" and same: "\<forall>p \<in> P. vertices s' p = vertices s p"
      moreover have "(Router r, 0) \<in> set (edges g (Network n))" using r net by (simp add: edges_def)
      ultimately show "full_inv g root P (E' \<union> edge_set v [(Router r, 0)]) (visit_attached g n direct d r s') \<and>
          (\<forall>p \<in> P. vertices (visit_attached g n direct d r s') p = vertices s p)"
        using visit_attached_full[of g root P E' s' n d r direct] v top bound Network dir by auto
    qed (simp add: s0_def)
    moreover have "(\<Union>r \<in> set attached. edge_set v [(Router r, 0)]) = edge_set v (edges g v)"
      using net by (auto simp: edge_set_def edges_def Network)
    moreover have "visit g root v d s = fold (visit_attached g n direct d) attached s0"
      using net by (simp add: visit_def visit_network_def Network s0_def direct_def Let_def)
    ultimately show ?thesis by simp
  qed
qed

section \<open>Routes\<close>

definition spf_key :: "spf_route \<Rightarrow> prefix \<times> nat \<times> u32 option" where
  "spf_key r = (spf_prefix r, spf_metric r, spf_router_id r)"

definition stubs :: "spf_graph \<Rightarrow> vertex_id \<Rightarrow> nat \<Rightarrow> (prefix \<times> nat \<times> u32 option) set" where
  "stubs g v d =
     {(stub_prefix l, d + unat (link_metric l), Some rid) | l rid.
        v = Router rid \<and> l \<in> set (g_routers g rid) \<and> link_type l = STUB}"

definition transits :: "spf_graph \<Rightarrow> vertex_id \<Rightarrow> nat \<Rightarrow> (prefix \<times> nat \<times> u32 option) set" where
  "transits g v d =
     {(net_prefix n nm, d, Some adv) | n nm attached adv. v = Network n \<and> g_networks g n = Some (nm, attached, adv)}"

lemma relax_routes [simp]:
  "stub_routes (relax v w n nh s) = stub_routes s" "transit_routes (relax v w n nh s) = transit_routes s"
  by (simp_all add: relax_def Let_def split: option.split)

lemma visit_link_routes:
  "transit_routes (visit_link g root rid d l s) = transit_routes s"
  "spf_key ` set (stub_routes (visit_link g root rid d l s)) =
     spf_key ` set (stub_routes s) \<union> (if link_type l = STUB then {(stub_prefix l, d + unat (link_metric l), Some rid)} else {})"
  by (auto simp: visit_link_def spf_key_def link_types Let_def)

lemma visit_routes:
  "spf_key ` set (stub_routes (visit g root v d s)) = spf_key ` set (stub_routes s) \<union> stubs g v d"
  "spf_key ` set (transit_routes (visit g root v d s)) = spf_key ` set (transit_routes s) \<union> transits g v d"
proof -
  have links: "transit_routes (fold (visit_link g root rid d) ls s) = transit_routes s \<and>
      spf_key ` set (stub_routes (fold (visit_link g root rid d) ls s)) = spf_key ` set (stub_routes s) \<union>
        {(stub_prefix l, d + unat (link_metric l), Some rid) | l. l \<in> set ls \<and> link_type l = STUB}" for ls rid s
    by (induction ls arbitrary: s) (auto simp: visit_link_routes)
  have att: "stub_routes (fold (visit_attached g n direct d) rs s) = stub_routes s \<and>
      transit_routes (fold (visit_attached g n direct d) rs s) = transit_routes s" for n direct rs s
    by (induction rs arbitrary: s) (simp_all add: visit_attached_def Let_def)
  show "spf_key ` set (stub_routes (visit g root v d s)) = spf_key ` set (stub_routes s) \<union> stubs g v d"
    by (cases v) (auto simp: visit_def links visit_network_def stubs_def att Let_def split: option.split)
  show "spf_key ` set (transit_routes (visit g root v d s)) = spf_key ` set (transit_routes s) \<union> transits g v d"
    by (cases v) (auto simp: visit_def links visit_network_def transits_def att spf_key_def Let_def split: option.split)
qed

definition routes_ok :: "spf_graph \<Rightarrow> vertex_id set \<Rightarrow> spf_state \<Rightarrow> bool" where
  "routes_ok g P s \<longleftrightarrow>
     spf_key ` set (stub_routes s) = (\<Union>p \<in> P. stubs g p (the (vertices s p))) \<and>
     spf_key ` set (transit_routes s) = (\<Union>p \<in> P. transits g p (the (vertices s p)))"

section \<open>The loop\<close>

definition edges_of :: "spf_graph \<Rightarrow> vertex_id set \<Rightarrow> (vertex_id \<times> vertex_id \<times> nat) set" where
  "edges_of g P = (\<Union>p \<in> P. edge_set p (edges g p))"

lemma heap_popD:
  assumes "heap_pop H = Some (x, h)"
  shows "x \<in> set H" "h = remove1 x H" "\<forall>y \<in> set H. x \<le> y"
proof -
  have "H \<noteq> []" and x: "x = Min (set H)" and h: "h = remove1 x H"
    using assms by (auto simp: heap_pop_def Let_def split: if_splits)
  then show "x \<in> set H" using Min_in[of "set H"] by simp
  show "h = remove1 x H" by (rule h)
  show "\<forall>y \<in> set H. x \<le> y" unfolding x by simp
qed

lemma visit_step:
  assumes full: "full_inv g root P (edges_of g P) s" and routes: "routes_ok g P s"
    and pop: "heap_pop (spf_heap s) = Some ((d, v), h)" and v: "vertices s v = Some cur" "\<not> cur < d"
  defines "s' \<equiv> visit g root v cur (s\<lparr>spf_heap := h\<rparr>)"
  shows "full_inv g root (insert v P) (edges_of g (insert v P)) s'" and "routes_ok g (insert v P) s'" and "v \<notin> P"
proof -
  let ?s = "s\<lparr>spf_heap := h\<rparr>"
  have h: "(d, v) \<in> set (spf_heap s)" "h = remove1 (d, v) (spf_heap s)"
    using heap_popD[OF pop] by simp_all
  have least: "x \<in> set (spf_heap s) \<Longrightarrow> (d, v) \<le> x" for x using heap_popD(3)[OF pop] by blast
  have inv: "spf_inv g (Router root) P (edges_of g P) (vertices s) (spf_heap s)" using full by (simp add: full_inv_def)
  have cur: "cur = d" using spf_invD(10)[OF inv h(1)] v by auto
  note L = pop_live[OF inv h(1) v(1)[unfolded cur] least]
  have "full_inv g root (insert v P) (edges_of g P) ?s"
    using L(1) full by (auto simp: full_inv_def hops_ok_def parents_ok_def all_hops_def h(2))
  from visit_full[OF this, of v cur] v L(3,4) cur
  have V: "full_inv g root (insert v P) (edges_of g P \<union> edge_set v (edges g v)) s'"
    "\<forall>p \<in> insert v P. vertices s' p = vertices s p" by (simp_all add: s'_def)
  then show "full_inv g root (insert v P) (edges_of g (insert v P)) s'" by (simp add: edges_of_def Un_commute)
  show "v \<notin> P" by (rule L(2))
  show "routes_ok g (insert v P) s'"
    using routes V(2) v by (auto simp: routes_ok_def s'_def visit_routes)
qed

lemma dead_step:
  assumes full: "full_inv g root P E s" and pop: "heap_pop (spf_heap s) = Some ((d, v), h)" and v: "vertices s v \<noteq> Some d"
  shows "full_inv g root P E (s\<lparr>spf_heap := h\<rparr>)" and "length h < length (spf_heap s)"
proof -
  have h: "(d, v) \<in> set (spf_heap s)" "h = remove1 (d, v) (spf_heap s)"
    using heap_popD[OF pop] by simp_all
  then show "length h < length (spf_heap s)" by (simp add: length_remove1) (use length_pos_if_in_set in fastforce)
  from full pop_dead[where D = "vertices s", OF _ h(1) v] show "full_inv g root P E (s\<lparr>spf_heap := h\<rparr>)"
    by (auto simp: full_inv_def hops_ok_def parents_ok_def all_hops_def h(2))
qed

lemma spf_loop_ok:
  assumes "full_inv g root P (edges_of g P) s" and "routes_ok g P s"
  shows "\<exists>s' P'. spf_loop g root s = Some s' \<and> spf_heap s' = [] \<and> full_inv g root P' (edges_of g P') s' \<and> routes_ok g P' s'"
  using assms
proof (induction "(card (- P), length (spf_heap s))" arbitrary: P s
    rule: wf_induct_rule[OF wf_lex_prod[OF wf_less_than wf_less_than]])
  case (1 P s)
  show ?case
  proof (cases "heap_pop (spf_heap s)")
    case None
    then have "spf_loop g root s = Some s" "spf_heap s = []"
      by (simp_all add: spf_loop.simps heap_pop_def Let_def split: if_splits)
    with "1.prems" show ?thesis by blast
  next
    case (Some t)
    then obtain d v h where pop: "heap_pop (spf_heap s) = Some ((d, v), h)" by (cases t) auto
    show ?thesis
    proof (cases "\<exists>cur. vertices s v = Some cur \<and> \<not> cur < d")
      case True
      then obtain cur where v: "vertices s v = Some cur" "\<not> cur < d" by blast
      let ?s = "visit g root v cur (s\<lparr>spf_heap := h\<rparr>)"
      note S = visit_step[OF "1.prems" pop v]
      have "card (- insert v P) < card (- P)" using S(3) by (intro psubset_card_mono) auto
      then have "\<exists>s' P'. spf_loop g root ?s = Some s' \<and> spf_heap s' = [] \<and> full_inv g root P' (edges_of g P') s' \<and> routes_ok g P' s'"
        by (intro "1.hyps"[OF _ S(1,2)]) simp
      moreover have "spf_loop g root s = spf_loop g root ?s"
        using pop v by (subst spf_loop.simps) simp
      ultimately show ?thesis by simp
    next
      case False
      let ?s = "s\<lparr>spf_heap := h\<rparr>"
      have ne: "vertices s v \<noteq> Some d" using False by auto
      note S = dead_step[OF "1.prems"(1) pop ne]
      have "\<exists>s' P'. spf_loop g root ?s = Some s' \<and> spf_heap s' = [] \<and> full_inv g root P' (edges_of g P') s' \<and> routes_ok g P' s'"
        by (rule "1.hyps"[OF _ S(1)]) (use S(2) "1.prems"(2) in \<open>simp_all add: routes_ok_def\<close>)
      moreover have "spf_loop g root s = spf_loop g root ?s"
        using pop False by (subst spf_loop.simps, cases "vertices s v") simp_all
      ultimately show ?thesis by simp
    qed
  qed
qed

lemma path_covered:
  assumes inv: "spf_inv g u P (edges_of g P) D []" and "path g u v d"
  shows "\<exists>e. D v = Some e \<and> e \<le> d"
  using assms(2)
proof (induction rule: path.induct)
  case path_refl
  then show ?case using spf_invD(1)[OF inv] by simp
next
  case (path_step v d w c)
  then obtain e where e: "D v = Some e" "e \<le> d" by blast
  then have "v \<in> P" using spf_invD(4)[OF inv] by fastforce
  then have "(v, w, c) \<in> edges_of g P" using path_step.hyps(2) by (force simp: edges_of_def edge_set_def)
  from spf_invD(9)[OF inv this] e show ?case by auto
qed

lemma run_spf_ok:
  obtains s P where "run_spf db root = Some s" "P = dom (vertices s)" "full_inv (scan_lsdb db) root P (edges_of (scan_lsdb db) P) s"
    "routes_ok (scan_lsdb db) P s"
    "\<And>v d. vertices s v = Some d \<longleftrightarrow> shortest (scan_lsdb db) (Router root) v d" "ran (vertices s) \<subseteq> {..<2 ^ 49}"
proof -
  let ?g = "scan_lsdb db"
  have "full_inv ?g root {} (edges_of ?g {}) (spf_init root)"
    unfolding full_inv_def
    by (intro conjI spf_invI)
      (auto simp: spf_init_def edges_of_def hops_ok_def parents_ok_def all_hops_def intro: path_refl split: if_splits)
  moreover have "routes_ok ?g {} (spf_init root)" by (simp add: routes_ok_def spf_init_def)
  ultimately obtain s P where s: "run_spf db root = Some s" "spf_heap s = []" "full_inv ?g root P (edges_of ?g P) s" "routes_ok ?g P s"
    using spf_loop_ok[of ?g root "{}" "spf_init root"] unfolding run_spf_def by blast
  then have inv: "spf_inv ?g (Router root) P (edges_of ?g P) (vertices s) []" by (simp add: full_inv_def)
  have iff: "vertices s v = Some d \<longleftrightarrow> shortest ?g (Router root) v d" for v d
    using spf_invD(2)[OF inv] path_covered[OF inv] unfolding shortest_def by (metis option.inject order_antisym)
  have P: "P = dom (vertices s)" using spf_invD(4,5)[OF inv] by fastforce
  have "d < 2 ^ 49" if "vertices s v = Some d" for v d
  proof -
    have "d \<le> 65535 * card P" by (rule spf_invD(3)[OF inv that])
    also have "\<dots> \<le> 65535 * 2 ^ 33" using card_vertices[of P] by simp
    finally show ?thesis by simp
  qed
  then have "ran (vertices s) \<subseteq> {..<2 ^ 49}" by (auto simp: ran_def)
  with s P iff that show ?thesis by blast
qed

section \<open>Properties\<close>

text \<open>
  C5.  \<open>run_spf\<close> returns on every database, and the distances it reports are exactly the lengths of the
  shortest paths from the root in the graph of the Router- and Network-LSAs: a vertex has a distance if and
  only if it is reachable.  No distance reaches \<open>2 ^ 49\<close>, so the 64-bit additions do not overflow.
\<close>

theorem spf_shortest:
  "\<exists>s. run_spf db root = Some s \<and>
     (\<forall>v d. vertices s v = Some d \<longleftrightarrow> shortest (scan_lsdb db) (Router root) v d) \<and> ran (vertices s) \<subseteq> {..<2 ^ 49}"
  by (rule run_spf_ok[of db root]) blast

text \<open>
  C18.  The stub routes are exactly one set of prefixes per reachable router, with the shortest distance to
  the router plus the metric of the stub link and the router as originator; the transit routes are exactly
  the reachable networks with their distance and designated router.  No route carries a tentative distance.
\<close>

theorem spf_routes_exact:
  "\<exists>s. run_spf db root = Some s \<and>
     spf_key ` set (stub_routes s) =
       {(stub_prefix l, d + unat (link_metric l), Some rid) | l rid d.
          shortest (scan_lsdb db) (Router root) (Router rid) d \<and> l \<in> set (g_routers (scan_lsdb db) rid) \<and> link_type l = STUB} \<and>
     spf_key ` set (transit_routes s) =
       {(net_prefix n nm, d, Some adv) | n nm attached adv d.
          shortest (scan_lsdb db) (Router root) (Network n) d \<and> g_networks (scan_lsdb db) n = Some (nm, attached, adv)}"
proof (rule run_spf_ok[of db root])
  fix s P
  assume s: "run_spf db root = Some s" "P = dom (vertices s)" "routes_ok (scan_lsdb db) P s"
    and iff: "\<And>v d. vertices s v = Some d \<longleftrightarrow> shortest (scan_lsdb db) (Router root) v d"
  have "(\<Union>p \<in> P. stubs (scan_lsdb db) p (the (vertices s p))) =
      {(stub_prefix l, d + unat (link_metric l), Some rid) | l rid d.
          vertices s (Router rid) = Some d \<and> l \<in> set (g_routers (scan_lsdb db) rid) \<and> link_type l = STUB}"
    by (force simp: stubs_def s(2))
  moreover have "(\<Union>p \<in> P. transits (scan_lsdb db) p (the (vertices s p))) =
      {(net_prefix n nm, d, Some adv) | n nm attached adv d.
          vertices s (Network n) = Some d \<and> g_networks (scan_lsdb db) n = Some (nm, attached, adv)}"
    by (force simp: transits_def s(2))
  ultimately show ?thesis using s unfolding routes_ok_def iff by simp
qed

text \<open>
  C33.  Every next hop recorded for a vertex is the address of a neighbour of the root, on a point-to-point
  link or a network that the root is attached to, at which a shortest path to the vertex begins.
\<close>

theorem spf_next_hops_shortest:
  "\<exists>s. run_spf db root = Some s \<and>
     {(nh, v). nh \<in> set (all_hops v s)} \<subseteq>
       {(nh, v). \<exists>d. hop (scan_lsdb db) root nh v d \<and> shortest (scan_lsdb db) (Router root) v d}"
proof (rule run_spf_ok[of db root])
  fix s P
  assume s: "run_spf db root = Some s" "full_inv (scan_lsdb db) root P (edges_of (scan_lsdb db) P) s"
    and iff: "\<And>v d. vertices s v = Some d \<longleftrightarrow> shortest (scan_lsdb db) (Router root) v d"
  then show ?thesis by (fastforce simp: full_inv_def hops_ok_def iff)
qed

text \<open>
  A link counts in one direction: a router that the root has a link to gets a distance although its
  own LSA has no link back, or no LSA of it exists.
\<close>

theorem spf_one_way_link:
  assumes "(Router t, c) \<in> set (edges (scan_lsdb db) (Router root))" and "g_routers (scan_lsdb db) t = []"
  shows "\<exists>s d. run_spf db root = Some s \<and> vertices s (Router t) = Some d \<and> d \<le> c"
proof (rule run_spf_ok[of db root])
  fix s P
  assume s: "run_spf db root = Some s" and iff: "\<And>v d. vertices s v = Some d \<longleftrightarrow> shortest (scan_lsdb db) (Router root) v d"
  have p: "path (scan_lsdb db) (Router root) (Router t) c"
    using path_step[OF path_refl, where w = "Router t" and c = c] assms(1) by simp
  define d where "d = (LEAST d. path (scan_lsdb db) (Router root) (Router t) d)"
  have "shortest (scan_lsdb db) (Router root) (Router t) d"
    unfolding shortest_def d_def using p by (auto intro: LeastI Least_le)
  moreover have "d \<le> c" unfolding d_def using p by (rule Least_le)
  ultimately show ?thesis using s iff by blast
qed

definition one_way_db :: lsdb where
  "one_way_db =
     lsdb_new\<lparr>lsdb_entries :=
       [((1, 1, 1), \<lparr>le_lsa = \<lparr>lsa_hdr = \<lparr>ls_age = 0, lsa_options = 0, ls_type = 1, link_state_id = 1,
           advertising_router = 1, ls_sequence_number = 0x80000001, ls_checksum = 0, lsa_length = 36\<rparr>,
         lsa_body = encode_router_lsa_body 0
           [\<lparr>link_id = 2, link_data = 7, link_type = P2P, link_tos = 0, link_metric = 10\<rparr>]\<rparr>, installed_ms = 0\<rparr>)]\<rparr>"

theorem spf_one_way_link_witness:
  "\<exists>s d. run_spf one_way_db 1 = Some s \<and> vertices s (Router 2) = Some d \<and> d \<le> 10"
  by (rule spf_one_way_link) code_simp+

section \<open>Inter-area routes\<close>

definition LS_INFINITY :: u32 where
  "LS_INFINITY = 0x00ffffff"

definition summary_step ::
    "spf_state \<Rightarrow> lsa_key \<times> lsa_entry \<Rightarrow> (prefix, spf_route \<times> u32) btree \<Rightarrow> (prefix, spf_route \<times> u32) btree" where
  "summary_step res = (\<lambda>((ty, lsid, adv), e) best.
     if ty \<noteq> 3 then best
     else case vertices res (Router adv) of
       None \<Rightarrow> best
     | Some dist \<Rightarrow>
       (case decode_summary_lsa_body (lsa_body (le_lsa e)) of
          None \<Rightarrow> best
        | Some body \<Rightarrow>
          (case tos0_metric body of
             None \<Rightarrow> best
           | Some metric \<Rightarrow>
             if metric \<ge> LS_INFINITY then best
             else
               let p = net_prefix (link_state_id (lsa_hdr (le_lsa e))) (network_mask body);
                   hops = all_hops (Router adv) res;
                   m = dist + unat metric;
                   r = \<lparr>spf_prefix = p, spf_metric = m, spf_next_hop = hops, border_router = Some adv,
                        spf_router_id = Some adv\<rparr>
               in case bt_get best p of
                    None \<Rightarrow> bt_put p (r, adv) best
                  | Some (cur, b) \<Rightarrow>
                      if m < spf_metric cur then bt_put p (r, adv) best
                      else if m = spf_metric cur then
                        bt_put p (cur\<lparr>spf_next_hop := fold (\<lambda>nh l. if nh \<in> set l then l else l @ [nh]) hops (spf_next_hop cur)\<rparr>, b) best
                      else best)))"

definition summary_routes :: "lsdb \<Rightarrow> spf_state \<Rightarrow> spf_route list" where
  "summary_routes db res = map (\<lambda>(_, r, _). r) (fold (summary_step res) (lsdb_entries db) [])"

text \<open>The candidate that one summary-LSA contributes: the prefix, the total metric and the next hops.\<close>

definition candidate :: "spf_state \<Rightarrow> lsa_key \<times> lsa_entry \<Rightarrow> (prefix \<times> nat \<times> ip_addr list) option" where
  "candidate res = (\<lambda>((ty, lsid, adv), e).
     if ty \<noteq> 3 then None
     else case (vertices res (Router adv), decode_summary_lsa_body (lsa_body (le_lsa e))) of
       (Some dist, Some body) \<Rightarrow>
         (case tos0_metric body of
            Some metric \<Rightarrow>
              if metric \<ge> LS_INFINITY then None
              else Some (net_prefix (link_state_id (lsa_hdr (le_lsa e))) (network_mask body), dist + unat metric,
                all_hops (Router adv) res)
          | None \<Rightarrow> None)
     | _ \<Rightarrow> None)"

definition costs :: "spf_state \<Rightarrow> (lsa_key \<times> lsa_entry) list \<Rightarrow> prefix \<Rightarrow> nat set" where
  "costs res es p = {m. \<exists>e \<in> set es. \<exists>h. candidate res e = Some (p, m, h)}"

definition best_hops :: "spf_state \<Rightarrow> (lsa_key \<times> lsa_entry) list \<Rightarrow> prefix \<Rightarrow> nat \<Rightarrow> ip_addr set" where
  "best_hops res es p m = (\<Union>e \<in> set es. case candidate res e of Some (q, k, h) \<Rightarrow> if q = p \<and> k = m then set h else {} | None \<Rightarrow> {})"

lemma set_add_hops: "set (fold (\<lambda>nh l. if nh \<in> set l then l else l @ [nh]) hs l) = set l \<union> set hs"
  by (induction hs arbitrary: l) auto

lemma finite_costs [simp]: "finite (costs res es p)"
proof -
  have "costs res es p \<subseteq> (\<lambda>e. fst (snd (the (candidate res e)))) ` set es"
    by (force simp: costs_def)
  then show ?thesis by (rule finite_subset) simp
qed

text \<open>What the table of best routes holds for a prefix.\<close>

definition best_at :: "spf_state \<Rightarrow> (lsa_key \<times> lsa_entry) list \<Rightarrow> prefix \<Rightarrow> spf_route option \<Rightarrow> bool" where
  "best_at res es p x \<longleftrightarrow>
     (case x of
        None \<Rightarrow> costs res es p = {}
      | Some r \<Rightarrow> spf_prefix r = p \<and> spf_metric r \<in> costs res es p \<and> (\<forall>m \<in> costs res es p. spf_metric r \<le> m) \<and>
          set (spf_next_hop r) = best_hops res es p (spf_metric r))"

lemma costs_snoc:
  "costs res (es @ [e]) p = costs res es p \<union>
     (case candidate res e of Some (q, m, h) \<Rightarrow> if q = p then {m} else {} | None \<Rightarrow> {})"
  by (auto simp: costs_def split: option.splits if_splits)

lemma best_hops_snoc:
  "best_hops res (es @ [e]) p k = best_hops res es p k \<union>
     (case candidate res e of Some (q, m, h) \<Rightarrow> if q = p \<and> m = k then set h else {} | None \<Rightarrow> {})"
  by (auto simp: best_hops_def split: option.splits)

lemma best_hops_none: "m \<notin> costs res es p \<Longrightarrow> best_hops res es p m = {}"
  by (fastforce simp: best_hops_def costs_def split: option.splits if_splits)

lemma summary_step_candidate:
  "summary_step res e best =
     (case candidate res e of
        None \<Rightarrow> best
      | Some (p, m, h) \<Rightarrow>
          let adv = snd (snd (fst e));
              r = \<lparr>spf_prefix = p, spf_metric = m, spf_next_hop = h, border_router = Some adv, spf_router_id = Some adv\<rparr>
          in case bt_get best p of
               None \<Rightarrow> bt_put p (r, adv) best
             | Some (cur, b) \<Rightarrow>
                 if m < spf_metric cur then bt_put p (r, adv) best
                 else if m = spf_metric cur then
                   bt_put p (cur\<lparr>spf_next_hop := fold (\<lambda>nh l. if nh \<in> set l then l else l @ [nh]) h (spf_next_hop cur)\<rparr>, b) best
                 else best)"
  by (simp add: summary_step_def candidate_def Let_def split_beta split: option.split)

lemma summary_step_at:
  assumes inv: "bt_inv best" and at: "\<And>q. best_at res es q (map_option fst (bt_get best q))"
  shows "bt_inv (summary_step res e best)"
    and "best_at res (es @ [e]) q (map_option fst (bt_get (summary_step res e best) q))"
proof -
  show "bt_inv (summary_step res e best)"
    using inv by (simp add: summary_step_candidate bt_inv_put Let_def split: option.split prod.split)
  show "best_at res (es @ [e]) q (map_option fst (bt_get (summary_step res e best) q))"
  proof (cases "candidate res e")
    case None
    then have "costs res (es @ [e]) q = costs res es q" "best_hops res (es @ [e]) q k = best_hops res es q k"
      "summary_step res e best = best" for k
      by (simp_all add: summary_step_candidate costs_snoc best_hops_snoc)
    with at[of q] show ?thesis by (cases "bt_get best q") (simp_all add: best_at_def)
  next
    case (Some c)
    then obtain p m h where c: "candidate res e = Some (p, m, h)" by (cases c) auto
    show ?thesis
    proof (cases "q = p")
      case False
      then have "bt_get (summary_step res e best) q = bt_get best q"
        using inv c by (simp add: summary_step_candidate bt_get_put Let_def split: option.split prod.split)
      with at[of q] c False show ?thesis
        by (auto simp: best_at_def costs_snoc best_hops_snoc split: option.split)
    next
      case True
      show ?thesis
      proof (cases "bt_get best p")
        case None
        with at[of p] c True inv show ?thesis
          by (simp add: summary_step_candidate best_at_def costs_snoc best_hops_snoc bt_get_put best_hops_none Let_def)
      next
        case (Some x)
        then obtain cur b where x: "bt_get best p = Some (cur, b)" by (cases x) auto
        with at[of p] have A: "spf_prefix cur = p" "spf_metric cur \<in> costs res es p" "\<forall>k \<in> costs res es p. spf_metric cur \<le> k"
          "set (spf_next_hop cur) = best_hops res es p (spf_metric cur)" by (simp_all add: best_at_def)
        have new: "m < spf_metric cur \<Longrightarrow> m \<notin> costs res es p" using A(3) by fastforce
        consider "m < spf_metric cur" | "m = spf_metric cur" | "spf_metric cur < m" by linarith
        then show ?thesis
        proof cases
          case 1
          with new A x c True inv show ?thesis
            by (auto simp: summary_step_candidate best_at_def costs_snoc best_hops_snoc bt_get_put best_hops_none Let_def)
        next
          case 2
          with A x c True inv show ?thesis
            by (simp add: summary_step_candidate best_at_def costs_snoc best_hops_snoc bt_get_put set_add_hops Let_def)
        next
          case 3
          with A x c True show ?thesis
            by (auto simp: summary_step_candidate best_at_def costs_snoc best_hops_snoc Let_def)
        qed
      qed
    qed
  qed
qed

lemma summary_fold:
  "bt_inv (fold (summary_step res) es []) \<and> best_at res es q (map_option fst (bt_get (fold (summary_step res) es []) q))"
proof (induction es arbitrary: q rule: rev_induct)
  case (snoc e es)
  then have "bt_inv (fold (summary_step res) es [])"
    and "\<And>q. best_at res es q (map_option fst (bt_get (fold (summary_step res) es []) q))" by blast+
  from summary_step_at[OF this, of e] show ?case by simp
qed (simp add: best_at_def costs_def)

text \<open>
  The inter-area routes are, for each prefix that some usable summary-LSA of a reachable border router
  announces, one route with the least total metric, whose next hops are the union of the next hops towards
  all border routers that attain it.
\<close>

theorem summary_routes_best:
  "(\<lambda>r. (spf_prefix r, spf_metric r, set (spf_next_hop r))) ` set (summary_routes db res) =
     {(p, Min (costs res (lsdb_entries db) p), best_hops res (lsdb_entries db) p (Min (costs res (lsdb_entries db) p))) | p.
        costs res (lsdb_entries db) p \<noteq> {}} \<and>
   distinct (map spf_prefix (summary_routes db res))"
proof -
  let ?es = "lsdb_entries db" and ?f = "\<lambda>r. (spf_prefix r, spf_metric r, set (spf_next_hop r))"
  let ?b = "fold (summary_step res) ?es []"
  have inv: "bt_inv ?b" and at: "best_at res ?es p (map_option fst (bt_get ?b p))" for p
    using summary_fold[of res ?es p] by blast+
  have mem: "spf_prefix r = p \<and> ?f r = (p, Min (costs res ?es p), best_hops res ?es p (Min (costs res ?es p))) \<and>
      costs res ?es p \<noteq> {}" if "(p, r, x) \<in> set ?b" for p r x
  proof -
    have "bt_get ?b p = Some (r, x)" using that bt_get_in[OF inv] by blast
    with at[of p] have A: "spf_prefix r = p" "spf_metric r \<in> costs res ?es p" "\<forall>m \<in> costs res ?es p. spf_metric r \<le> m"
      "set (spf_next_hop r) = best_hops res ?es p (spf_metric r)" by (simp_all add: best_at_def)
    then have "Min (costs res ?es p) = spf_metric r" by (intro Min_eqI) auto
    with A show ?thesis by auto
  qed
  have cov: "\<exists>r x. (p, r, x) \<in> set ?b" if ne: "costs res ?es p \<noteq> {}" for p
  proof -
    obtain r x where "bt_get ?b p = Some (r, x)"
      using at[of p] ne by (cases "bt_get ?b p") (auto simp: best_at_def)
    then show ?thesis using bt_get_in[OF inv] by blast
  qed
  have "?f ` set (summary_routes db res) = {(p, Min (costs res ?es p), best_hops res ?es p (Min (costs res ?es p))) | p. costs res ?es p \<noteq> {}}"
    (is "?L = ?R")
  proof (intro equalityI subsetI)
    fix y assume "y \<in> ?L"
    then obtain p r x where "(p, r, x) \<in> set ?b" "y = ?f r" by (auto simp: summary_routes_def)
    with mem[of p r x] show "y \<in> ?R" by auto
  next
    fix y assume "y \<in> ?R"
    then obtain p where p: "costs res ?es p \<noteq> {}" "y = (p, Min (costs res ?es p), best_hops res ?es p (Min (costs res ?es p)))" by blast
    with cov[of p] obtain r x where r: "(p, r, x) \<in> set ?b" by blast
    then have "r \<in> set (summary_routes db res)" by (force simp: summary_routes_def)
    with mem[OF r] p show "y \<in> ?L" by (metis (no_types, lifting) image_eqI)
  qed
  moreover have "map spf_prefix (summary_routes db res) = map fst ?b"
    using mem by (auto simp: summary_routes_def)
  ultimately show ?thesis using bt_inv_distinct[OF inv] by simp
qed

definition abr_entry :: "u32 \<Rightarrow> u32 \<Rightarrow> lsa_key \<times> lsa_entry" where
  "abr_entry lsid adv =
     ((3, lsid, adv), \<lparr>le_lsa = \<lparr>lsa_hdr = \<lparr>ls_age = 0, lsa_options = 0, ls_type = 3, link_state_id = lsid,
        advertising_router = adv, ls_sequence_number = 0x80000001, ls_checksum = 0, lsa_length = 28\<rparr>,
      lsa_body = encode_summary_lsa_body 0xffffff00 10\<rparr>, installed_ms = 0\<rparr>)"

text \<open>
  Among border routers at the same cost the one whose LSA comes first in the database is kept, which
  need not be the one with the lowest identifier: here router 5 announces 10.0.0.0/24 and router 2 announces
  the same network with host bits in its link-state identifier.
\<close>

theorem summary_keeps_first_border:
  "map (\<lambda>r. (border_router r, spf_metric r))
     (summary_routes (lsdb_new\<lparr>lsdb_entries := [abr_entry 0x0a000000 5, abr_entry 0x0a000001 2]\<rparr>)
       ((spf_init 1)\<lparr>vertices := [Router 5 \<mapsto> 1, Router 2 \<mapsto> 1]\<rparr>)) = [(Some 5, 11)]"
  by code_simp

end
