(* ===== verification/LR_Babel.thy ===== *)
theory LR_Babel
  imports LR_Addr LR_BTree
begin

text \<open>
  Babel: the metric algebra \<open>crates/lr-babel/src/metric.rs\<close>, the neighbour with its Hello history and
  round-trip measurement (\<open>neighbor.rs\<close>), and the route table of one neighbour with feasibility and expiry
  (\<open>route.rs\<close>).  The derived order of \<open>RouteKey\<close> compares destination, source prefix and router identifier
  in turn; a key is that triple.
\<close>

section \<open>Metrics\<close>

definition link_cost :: "u16 \<Rightarrow> u32" where
  "link_cost rxcost = ucast rxcost"

definition saturating_mul :: "u32 \<Rightarrow> u32 \<Rightarrow> u32" where
  "saturating_mul a b = (if unat a * unat b < 2 ^ 32 then a * b else - 1)"

definition rtt_penalty :: "u32 \<Rightarrow> u32 \<Rightarrow> u32 \<Rightarrow> u16 \<Rightarrow> u16" where
  "rtt_penalty rtt_us rtt_min rtt_max max_penalty =
     (if max_penalty = 0 then 0
      else if rtt_us \<le> rtt_min then 0
      else if rtt_us \<ge> rtt_max then max_penalty
      else if rtt_max - rtt_min = 0 then max_penalty
      else ucast (min (saturating_mul (ucast max_penalty) (rtt_us - rtt_min) div (rtt_max - rtt_min)) 0xffff))"

definition route_metric :: "u32 list \<Rightarrow> u32" where
  "route_metric ms = sum_list ms"

text \<open>\<open>(a as i16).wrapping_sub(b as i16)\<close>\<close>

definition seqno_cmp :: "u16 \<Rightarrow> u16 \<Rightarrow> int" where
  "seqno_cmp a b = sint (a - b)"

definition feasible :: "u16 \<Rightarrow> u32 \<Rightarrow> u16 \<Rightarrow> u32 \<Rightarrow> bool" where
  "feasible rs rm fs fm =
     (let c = seqno_cmp rs fs in if c > 0 then True else if c = 0 then rm < fm else False)"

section \<open>Neighbours\<close>

definition RTT_DECAY :: u32 where
  "RTT_DECAY = 42"

definition RTT_VALIDITY_MS :: u64 where
  "RTT_VALIDITY_MS = 180000"

definition RTT_ECHO_FRESHNESS_MS :: u64 where
  "RTT_ECHO_FRESHNESS_MS = 1000"

definition RTT_SANITY_US :: u32 where
  "RTT_SANITY_US = 600000000"

record rtt_state =
  hello_send_us :: u32
  hello_receive_us :: u32
  hello_receive_ms :: u64
  smoothed_us :: "u32 option"
  sample_ms :: "u64 option"

definition rtt_default :: rtt_state where
  "rtt_default = \<lparr>hello_send_us = 0, hello_receive_us = 0, hello_receive_ms = 0, smoothed_us = None, sample_ms = None\<rparr>"

definition echo_pair :: "u64 \<Rightarrow> rtt_state \<Rightarrow> (u32 \<times> u32) option" where
  "echo_pair now r =
     (if saturating_sub now (hello_receive_ms r) > RTT_ECHO_FRESHNESS_MS then None
      else Some (hello_send_us r, hello_receive_us r))"

record babel_neighbor =
  nb_address :: ip_addr
  hello_history :: "u16 list"
  hello_interval_cs :: u16
  last_hello_received_ms :: u64
  nb_rxcost :: u32
  nb_txcost :: u32
  last_ihu_received_ms :: u64
  ihu_interval_cs :: u16
  nb_rtt :: "rtt_state option"

definition neighbor_new :: "ip_addr \<Rightarrow> u64 \<Rightarrow> babel_neighbor" where
  "neighbor_new a now =
     \<lparr>nb_address = a, hello_history = [], hello_interval_cs = 0, last_hello_received_ms = now, nb_rxcost = 0xffff,
      nb_txcost = 0xffff, last_ihu_received_ms = 0, ihu_interval_cs = 0, nb_rtt = None\<rparr>"

definition compute_rxcost :: "u16 list \<Rightarrow> u32" where
  "compute_rxcost history =
     (let missed =
        (if length history \<le> 1 then 0
         else
           let span = (ucast (last history - hd history + 1) :: u32)
           in saturating_sub span (of_nat (length history)))
      in if missed \<ge> 16 then 0xffff else 100 + missed * 50)"

definition neighbor_hello :: "u16 \<Rightarrow> u16 \<Rightarrow> u64 \<Rightarrow> babel_neighbor \<Rightarrow> babel_neighbor" where
  "neighbor_hello seqno interval now n =
     (let h = hello_history n @ [seqno];
          h = (if length h > 16 then tl h else h)
      in n\<lparr>hello_interval_cs := interval, last_hello_received_ms := now, hello_history := h,
           nb_rxcost := compute_rxcost h\<rparr>)"

definition hello_timestamped :: "u16 \<Rightarrow> u16 \<Rightarrow> u32 \<Rightarrow> u64 \<Rightarrow> u32 \<Rightarrow> babel_neighbor \<Rightarrow> babel_neighbor" where
  "hello_timestamped seqno interval peer_ts now_ms now_us n =
     (let n = neighbor_hello seqno interval now_ms n;
          r = (case nb_rtt n of Some r \<Rightarrow> r | None \<Rightarrow> rtt_default)
      in n\<lparr>nb_rtt := Some (r\<lparr>hello_send_us := peer_ts, hello_receive_us := now_us, hello_receive_ms := now_ms\<rparr>)\<rparr>)"

definition rtt_echo_pair :: "u64 \<Rightarrow> babel_neighbor \<Rightarrow> (u32 \<times> u32) option" where
  "rtt_echo_pair now n = (case nb_rtt n of None \<Rightarrow> None | Some r \<Rightarrow> echo_pair now r)"

definition ihu :: "u16 \<Rightarrow> u16 \<Rightarrow> u64 \<Rightarrow> babel_neighbor \<Rightarrow> babel_neighbor" where
  "ihu rxcost interval now n = n\<lparr>nb_txcost := ucast rxcost, ihu_interval_cs := interval, last_ihu_received_ms := now\<rparr>"

definition smooth :: "u32 \<Rightarrow> u32 \<Rightarrow> u32" where
  "smooth sample prev =
     (let smoothed = RTT_DECAY * sample + (256 - RTT_DECAY) * prev
      in if prev \<ge> sample then smoothed div 256
         else smoothed div 256 + (if smoothed mod 256 = 0 then 0 else 1))"

definition next_rtt :: "u64 \<Rightarrow> u32 \<Rightarrow> rtt_state \<Rightarrow> u32" where
  "next_rtt now sample r =
     (case (smoothed_us r, sample_ms r) of
        (Some prev, Some t) \<Rightarrow>
          if prev > 0 \<and> saturating_sub now t < RTT_VALIDITY_MS then smooth sample prev else saturating_mul sample 2
      | _ \<Rightarrow> saturating_mul sample 2)"

definition ihu_echo :: "u16 \<Rightarrow> u16 \<Rightarrow> u32 \<Rightarrow> u32 \<Rightarrow> u64 \<Rightarrow> babel_neighbor \<Rightarrow> babel_neighbor" where
  "ihu_echo rxcost interval ts1 ts2 now n =
     (let n = ihu rxcost interval now n
      in case nb_rtt n of
           None \<Rightarrow> n
         | Some r \<Rightarrow>
             let remote_waiting = hello_send_us r - ts2; local_waiting = hello_receive_us r - ts1
             in if remote_waiting > RTT_SANITY_US \<or> local_waiting > RTT_SANITY_US then n
                else
                  let sample = saturating_sub local_waiting remote_waiting
                  in n\<lparr>nb_rtt := Some (r\<lparr>smoothed_us := Some (next_rtt now sample r), sample_ms := Some now\<rparr>)\<rparr>)"

definition rtt_valid :: "u64 \<Rightarrow> babel_neighbor \<Rightarrow> bool" where
  "rtt_valid now n \<longleftrightarrow>
     (case nb_rtt n of
        None \<Rightarrow> False
      | Some r \<Rightarrow> (case sample_ms r of None \<Rightarrow> False | Some t \<Rightarrow> saturating_sub now t < RTT_VALIDITY_MS))"

definition rtt_us :: "u64 \<Rightarrow> babel_neighbor \<Rightarrow> u32 option" where
  "rtt_us now n = (if rtt_valid now n then (case nb_rtt n of None \<Rightarrow> None | Some r \<Rightarrow> smoothed_us r) else None)"

definition rtt_cost :: "u64 \<Rightarrow> u32 \<Rightarrow> u32 \<Rightarrow> u16 \<Rightarrow> babel_neighbor \<Rightarrow> u16" where
  "rtt_cost now rtt_min rtt_max max_penalty n =
     (case rtt_us now n of Some r \<Rightarrow> rtt_penalty r rtt_min rtt_max max_penalty | None \<Rightarrow> 0)"

definition is_alive :: "u64 \<Rightarrow> u64 \<Rightarrow> babel_neighbor \<Rightarrow> bool" where
  "is_alive now dead n =
     (if hello_interval_cs n = 0 then False
      else saturating_sub now (last_hello_received_ms n) \<le> max (ucast (hello_interval_cs n) * 10 * 4) dead)"

section \<open>The route table\<close>

type_synonym babel_key = "prefix \<times> prefix option \<times> bytes"
type_synonym feas_key = "prefix \<times> prefix option"

record babel_route =
  br_key :: babel_key
  br_seqno :: u16
  br_metric :: u32
  br_next_hop :: ip_addr
  br_feasible :: bool
  br_installed :: bool

record route_timing =
  interval_cs :: u16
  last_seen_ms :: u64

record babel_table =
  tb_routes :: "(babel_key, babel_route) btree"
  tb_feasible :: "(feas_key, u16 \<times> u32) btree"
  tb_timing :: "(babel_key, route_timing) btree"

definition babel_new :: babel_table where
  "babel_new = \<lparr>tb_routes = [], tb_feasible = [], tb_timing = []\<rparr>"

definition hold_ms :: "u16 \<Rightarrow> u64" where
  "hold_ms interval = max (ucast interval * 60) 30000"

text \<open>Destination and source prefix of a key.\<close>

definition dst_src :: "babel_key \<Rightarrow> feas_key" where
  "dst_src k = (fst k, fst (snd k))"

definition insert_timed :: "babel_route \<Rightarrow> u16 \<Rightarrow> u64 \<Rightarrow> babel_table \<Rightarrow> babel_table" where
  "insert_timed r interval now t =
     (let tm = \<lparr>interval_cs = interval, last_seen_ms = now\<rparr>;
          k = br_key r;
          same = (case bt_get (tb_routes t) k of
              Some prev \<Rightarrow> br_seqno prev = br_seqno r \<and> br_metric prev = br_metric r | None \<Rightarrow> False)
      in if same then t\<lparr>tb_timing := bt_put k tm (tb_timing t)\<rparr>
         else
           let feas = bt_get (tb_feasible t) (dst_src k);
               ok = (case feas of Some (fs, fm) \<Rightarrow> feasible (br_seqno r) (br_metric r) fs fm | None \<Rightarrow> True)
           in if \<not> ok then t
              else
                let better = (case feas of
                      None \<Rightarrow> True
                    | Some (fs, fm) \<Rightarrow>
                        seqno_cmp (br_seqno r) fs > 0 \<or> (seqno_cmp (br_seqno r) fs = 0 \<and> br_metric r < fm))
                in t\<lparr>tb_feasible := (if better then bt_put (dst_src k) (br_seqno r, br_metric r) (tb_feasible t) else tb_feasible t),
                     tb_routes := bt_put k (r\<lparr>br_feasible := True\<rparr>) (tb_routes t),
                     tb_timing := bt_put k tm (tb_timing t)\<rparr>)"

definition babel_insert :: "babel_route \<Rightarrow> babel_table \<Rightarrow> babel_table" where
  "babel_insert r t = insert_timed r 0 0 t"

definition selected_successor :: "babel_key \<Rightarrow> babel_table \<Rightarrow> bool" where
  "selected_successor k t \<longleftrightarrow>
     (case min_by (\<lambda>a b. cmp (br_metric a) (br_metric b))
        (filter (\<lambda>r. br_feasible r \<and> dst_src (br_key r) = dst_src k) (map snd (tb_routes t))) of
        None \<Rightarrow> False | Some r \<Rightarrow> br_key r = k)"

definition babel_withdraw :: "babel_key \<Rightarrow> babel_table \<Rightarrow> babel_table" where
  "babel_withdraw k t =
     (let sel = selected_successor k t;
          t = t\<lparr>tb_routes := bt_del k (tb_routes t), tb_timing := bt_del k (tb_timing t)\<rparr>
      in if sel then t\<lparr>tb_feasible := bt_del (dst_src k) (tb_feasible t)\<rparr> else t)"

definition lapsed :: "u64 \<Rightarrow> route_timing \<Rightarrow> bool" where
  "lapsed now tm \<longleftrightarrow> saturating_sub now (last_seen_ms tm) > hold_ms (interval_cs tm)"

definition babel_expire :: "u64 \<Rightarrow> babel_table \<Rightarrow> babel_table \<times> babel_key list" where
  "babel_expire now t =
     (let gone = map fst (filter (\<lambda>(_, tm). lapsed now tm) (tb_timing t))
      in (fold babel_withdraw gone t, gone))"

definition best_step :: "babel_route \<Rightarrow> (feas_key, babel_route) btree \<Rightarrow> (feas_key, babel_route) btree" where
  "best_step r m =
     (if \<not> br_feasible r then m
      else case bt_get m (dst_src (br_key r)) of
        Some prev \<Rightarrow> if br_metric prev \<le> br_metric r then m else bt_put (dst_src (br_key r)) r m
      | None \<Rightarrow> bt_put (dst_src (br_key r)) r m)"

definition best_routes :: "babel_table \<Rightarrow> babel_route list" where
  "best_routes t = map snd (fold best_step (map snd (tb_routes t)) [])"

section \<open>Feasibility\<close>

lemma seqno_self [simp]: "seqno_cmp a a = 0"
  by (simp add: seqno_cmp_def)

lemma seqno_0: "seqno_cmp a b = 0 \<longleftrightarrow> a = b"
proof -
  have "sint (a - b) = 0 \<longleftrightarrow> a - b = 0" by (simp add: signed_eq_0_iff)
  then show ?thesis by (simp add: seqno_cmp_def)
qed

text \<open>Position of a sequence number in the half circle that starts at \<open>base\<close>.\<close>

definition in_half :: "u16 \<Rightarrow> u16 \<Rightarrow> bool" where
  "in_half base a \<longleftrightarrow> unat (a - base) < 2 ^ 15"

lemma signed_diff:
  assumes "p < 2 ^ 15" and "q < 2 ^ 15"
  shows "signed_take_bit 15 (int p - int q) = int p - int q"
  using assms by (intro signed_take_bit_int_eq_self) auto

lemma sint_diff:
  fixes x y :: u16
  assumes "unat x < 2 ^ 15" and "unat y < 2 ^ 15"
  shows "sint (x - y) = int (unat x) - int (unat y)"
proof -
  have "x - y = word_of_int (int (unat x) - int (unat y))" by (simp add: word_of_int_nat)
  then have "sint (x - y) = signed_take_bit 15 (int (unat x) - int (unat y))"
    by (simp only: signed_of_int len_of_numeral_defs) simp
  also have "\<dots> = int (unat x) - int (unat y)"
    using assms by (rule signed_diff)
  finally show ?thesis .
qed

lemma seqno_cmp_half:
  assumes "in_half base a" and "in_half base b"
  shows "seqno_cmp a b = int (unat (a - base)) - int (unat (b - base))"
  using sint_diff[of "a - base" "b - base"] assms by (simp add: seqno_cmp_def in_half_def)

text \<open>How good an announcement is: the later sequence number first, then the smaller metric.\<close>

definition pair_rank :: "u16 \<Rightarrow> u16 \<times> u32 \<Rightarrow> nat \<times> nat" where
  "pair_rank base = (\<lambda>(s, m). (unat (s - base), 2 ^ 32 - unat m))"

lemma feasible_rank:
  assumes "in_half base s" and "in_half base fs"
  shows "feasible s m fs fm \<longleftrightarrow> pair_rank base (fs, fm) < pair_rank base (s, m)"
proof -
  have "unat m < 2 ^ 32" "unat fm < 2 ^ 32" using unsigned_less[of m] unsigned_less[of fm] by auto
  then have "2 ^ 32 - unat fm < 2 ^ 32 - unat m \<longleftrightarrow> m < fm" by (auto simp: word_less_nat_alt)
  moreover have "seqno_cmp s fs > 0 \<longleftrightarrow> unat (fs - base) < unat (s - base)"
    "seqno_cmp s fs = 0 \<longleftrightarrow> unat (fs - base) = unat (s - base)"
    using seqno_cmp_half[OF assms] by linarith+
  ultimately show ?thesis by (auto simp: feasible_def pair_rank_def Let_def)
qed

section \<open>The table\<close>

declare split_paired_All [simp del] split_paired_Ex [simp del]

definition babel_inv :: "babel_table \<Rightarrow> bool" where
  "babel_inv t \<longleftrightarrow>
     bt_inv (tb_routes t) \<and> bt_inv (tb_feasible t) \<and> bt_inv (tb_timing t) \<and>
     (\<forall>k. bt_get (tb_timing t) k = None \<longleftrightarrow> bt_get (tb_routes t) k = None) \<and>
     (\<forall>k r. bt_get (tb_routes t) k = Some r \<longrightarrow> br_key r = k \<and> br_feasible r)"

lemma babel_inv_new: "babel_inv babel_new"
  by (simp add: babel_inv_def babel_new_def)

text \<open>The test for a better distance repeats the feasibility condition, so an accepted update always sets the distance.\<close>

definition refreshes :: "babel_route \<Rightarrow> babel_table \<Rightarrow> bool" where
  "refreshes r t \<longleftrightarrow>
     (\<exists>prev. bt_get (tb_routes t) (br_key r) = Some prev \<and> br_seqno prev = br_seqno r \<and> br_metric prev = br_metric r)"

definition acceptable_update :: "babel_route \<Rightarrow> babel_table \<Rightarrow> bool" where
  "acceptable_update r t \<longleftrightarrow>
     (\<forall>fs fm. bt_get (tb_feasible t) (dst_src (br_key r)) = Some (fs, fm) \<longrightarrow> feasible (br_seqno r) (br_metric r) fs fm)"

lemma insert_timed_cases:
  "insert_timed r i now t =
     (if refreshes r t then t\<lparr>tb_timing := bt_put (br_key r) \<lparr>interval_cs = i, last_seen_ms = now\<rparr> (tb_timing t)\<rparr>
      else if acceptable_update r t then
        t\<lparr>tb_feasible := bt_put (dst_src (br_key r)) (br_seqno r, br_metric r) (tb_feasible t),
          tb_routes := bt_put (br_key r) (r\<lparr>br_feasible := True\<rparr>) (tb_routes t),
          tb_timing := bt_put (br_key r) \<lparr>interval_cs = i, last_seen_ms = now\<rparr> (tb_timing t)\<rparr>
      else t)"
proof -
  have f: "feasible a b c d \<longleftrightarrow> seqno_cmp a c > 0 \<or> (seqno_cmp a c = 0 \<and> b < d)" for a b c d
    by (simp add: feasible_def Let_def)
  show ?thesis
    by (auto simp: insert_timed_def refreshes_def acceptable_update_def Let_def f split: option.split)
qed

lemma insert_inv: "babel_inv t \<Longrightarrow> babel_inv (insert_timed r i now t)"
  by (auto simp: insert_timed_cases babel_inv_def refreshes_def bt_inv_put bt_get_put)

lemma withdraw_routes:
  "tb_routes (babel_withdraw k t) = bt_del k (tb_routes t)" "tb_timing (babel_withdraw k t) = bt_del k (tb_timing t)"
  by (simp_all add: babel_withdraw_def Let_def)

lemma withdraw_feasible:
  "d \<noteq> dst_src k \<Longrightarrow> bt_get (tb_feasible (babel_withdraw k t)) d = bt_get (tb_feasible t) d"
  by (simp add: babel_withdraw_def Let_def bt_get_del)

lemma withdraw_inv: "babel_inv t \<Longrightarrow> babel_inv (babel_withdraw k t)"
  by (auto simp: babel_inv_def withdraw_routes bt_inv_del bt_get_del) (simp add: babel_withdraw_def Let_def bt_inv_del)

lemma withdraw_fold:
  "bt_get (tb_routes (fold babel_withdraw ks t)) k = (if k \<in> set ks then None else bt_get (tb_routes t) k)"
  "bt_get (tb_timing (fold babel_withdraw ks t)) k = (if k \<in> set ks then None else bt_get (tb_timing t) k)"
  "d \<notin> dst_src ` set ks \<Longrightarrow> bt_get (tb_feasible (fold babel_withdraw ks t)) d = bt_get (tb_feasible t) d"
  "babel_inv t \<Longrightarrow> babel_inv (fold babel_withdraw ks t)"
  by (induction ks arbitrary: t) (auto simp: withdraw_routes bt_get_del withdraw_feasible withdraw_inv)

inductive babel_reach :: "babel_table \<Rightarrow> bool" where
  reach_new: "babel_reach babel_new"
| reach_insert: "babel_reach t \<Longrightarrow> babel_reach (insert_timed r i now t)"
| reach_withdraw: "babel_reach t \<Longrightarrow> babel_reach (babel_withdraw k t)"
| reach_expire: "babel_reach t \<Longrightarrow> babel_reach (fst (babel_expire now t))"

lemma babel_reach_inv: "babel_reach t \<Longrightarrow> babel_inv t"
  by (induction rule: babel_reach.induct)
    (simp_all add: babel_inv_new insert_inv withdraw_inv babel_expire_def withdraw_fold Let_def)

section \<open>Properties of the table\<close>

text \<open>
  Whatever sequence of updates, withdrawals and expiries a table has seen, its three maps are
  well-formed, a route has an expiry clock exactly as long as it is stored, and every stored route lies
  under its own key and is marked feasible.
\<close>

theorem babel_table_invariant:
  assumes "babel_reach t"
  shows "bt_inv (tb_routes t) \<and> bt_inv (tb_feasible t) \<and> bt_inv (tb_timing t) \<and>
    fst ` set (tb_timing t) = fst ` set (tb_routes t) \<and>
    (\<forall>(k, r) \<in> set (tb_routes t). br_key r = k \<and> br_feasible r)"
proof -
  have inv: "babel_inv t" by (rule babel_reach_inv[OF assms])
  then have "fst ` set (tb_timing t) = fst ` set (tb_routes t)"
    by (intro set_eqI) (metis babel_inv_def bt_get_None)
  moreover have "\<forall>(k, r) \<in> set (tb_routes t). br_key r = k \<and> br_feasible r"
    using inv by (intro ballI, clarify) (simp add: babel_inv_def flip: bt_get_in)
  ultimately show ?thesis using inv by (simp add: babel_inv_def)
qed

definition example_key :: "u8 \<Rightarrow> babel_key" where
  "example_key i = (Prefix (V4 [10, 0, 0, 0]) 8, None, [0, 0, 0, 0, 0, 0, 0, i])"

definition example_route :: "u8 \<Rightarrow> u16 \<Rightarrow> u32 \<Rightarrow> babel_route" where
  "example_route i s m =
     \<lparr>br_key = example_key i, br_seqno = s, br_metric = m, br_next_hop = V4 [192, 0, 2, 1], br_feasible = False, br_installed = False\<rparr>"

theorem babel_table_invariant_witness:
  "fst ` set (tb_timing (insert_timed (example_route 1 7 96) 400 1000 babel_new)) =
     fst ` set (tb_routes (insert_timed (example_route 1 7 96) 400 1000 babel_new))"
  using babel_table_invariant[OF reach_insert[OF reach_new, of "example_route 1 7 96" 400 1000]] by blast

subsection \<open>The feasibility distance\<close>

type_synonym announcement = "babel_route \<times> u16 \<times> u64"

definition insert_all :: "announcement list \<Rightarrow> babel_table" where
  "insert_all as = fold (\<lambda>(r, i, now). insert_timed r i now) as babel_new"

definition pairs :: "feas_key \<Rightarrow> announcement list \<Rightarrow> (u16 \<times> u32) set" where
  "pairs d as = set (map (\<lambda>r. (br_seqno r, br_metric r)) (filter (\<lambda>r. dst_src (br_key r) = d) (map fst as)))"

lemma insert_all_snoc: "insert_all (as @ [(r, i, now)]) = insert_timed r i now (insert_all as)"
  by (simp add: insert_all_def)

lemma pairs_snoc:
  "pairs d (as @ [(r, i, now)]) = (if dst_src (br_key r) = d then insert (br_seqno r, br_metric r) (pairs d as) else pairs d as)"
  by (auto simp: pairs_def)

text \<open>The distance is one of the pairs heard and none is better; a route with that pair is stored, and stored routes have been heard.\<close>

definition fd_ok :: "u16 \<Rightarrow> announcement list \<Rightarrow> babel_table \<Rightarrow> bool" where
  "fd_ok base as t \<longleftrightarrow>
     (\<forall>d. bt_get (tb_feasible t) d = None \<longleftrightarrow> pairs d as = {}) \<and>
     (\<forall>d p. bt_get (tb_feasible t) d = Some p \<longrightarrow>
        p \<in> pairs d as \<and> (\<forall>q \<in> pairs d as. pair_rank base q \<le> pair_rank base p) \<and>
        (\<exists>k r. bt_get (tb_routes t) k = Some r \<and> dst_src k = d \<and> (br_seqno r, br_metric r) = p)) \<and>
     (\<forall>k r. bt_get (tb_routes t) k = Some r \<longrightarrow> (br_seqno r, br_metric r) \<in> pairs (dst_src k) as)"

lemma insert_all_inv: "babel_inv (insert_all as)"
  by (induction as rule: rev_induct) (auto simp: insert_all_snoc insert_inv, simp add: insert_all_def babel_inv_new)

lemma fd_accept:
  assumes ok: "fd_ok base as t" and inv: "babel_inv t" and new: "\<not> refreshes r t" "acceptable_update r t"
    and best: "\<forall>q \<in> pairs (dst_src (br_key r)) as. pair_rank base q \<le> pair_rank base (br_seqno r, br_metric r)"
  shows "fd_ok base (as @ [(r, i, now)]) (insert_timed r i now t)"
proof -
  let ?d = "dst_src (br_key r)" and ?p = "(br_seqno r, br_metric r)" and ?t = "insert_timed r i now t"
  have get: "bt_get (tb_feasible ?t) d = (if d = ?d then Some ?p else bt_get (tb_feasible t) d)"
    "bt_get (tb_routes ?t) k = (if k = br_key r then Some (r\<lparr>br_feasible := True\<rparr>) else bt_get (tb_routes t) k)"
    for d k using inv new by (simp_all add: insert_timed_cases bt_get_put babel_inv_def)
  have keep: "\<exists>k r'. bt_get (tb_routes ?t) k = Some r' \<and> dst_src k = d \<and> (br_seqno r', br_metric r') = p"
    if p: "bt_get (tb_feasible ?t) d = Some p" for d p
  proof (cases "d = ?d")
    case True with p show ?thesis by (intro exI[of _ "br_key r"] exI[of _ "r\<lparr>br_feasible := True\<rparr>"]) (simp add: get)
  next
    case False
    with p have "bt_get (tb_feasible t) d = Some p" by (simp add: get)
    then obtain k r' where "bt_get (tb_routes t) k = Some r'" "dst_src k = d" "(br_seqno r', br_metric r') = p"
      using ok unfolding fd_ok_def by blast
    with False show ?thesis by (intro exI[of _ k] exI[of _ r']) (auto simp: get)
  qed
  have none: "\<forall>d. bt_get (tb_feasible t) d = None \<longleftrightarrow> pairs d as = {}"
    and some: "\<forall>d p. bt_get (tb_feasible t) d = Some p \<longrightarrow> p \<in> pairs d as \<and> (\<forall>q \<in> pairs d as. pair_rank base q \<le> pair_rank base p)"
    and stored: "\<forall>k r. bt_get (tb_routes t) k = Some r \<longrightarrow> (br_seqno r, br_metric r) \<in> pairs (dst_src k) as"
    using ok unfolding fd_ok_def by blast+
  show ?thesis unfolding fd_ok_def
  proof (intro conjI allI impI)
    show "p \<in> pairs d (as @ [(r, i, now)])" "\<forall>q \<in> pairs d (as @ [(r, i, now)]). pair_rank base q \<le> pair_rank base p"
      if "bt_get (tb_feasible ?t) d = Some p" for d p
      using that some best by (auto simp: get pairs_snoc split: if_splits)
  qed (use keep none stored in \<open>auto simp: get pairs_snoc split: if_splits\<close>)
qed

lemma fd_step:
  assumes ok: "fd_ok base as t" and inv: "babel_inv t"
    and half: "\<forall>r \<in> fst ` set (as @ [(r, i, now)]). in_half base (br_seqno r)"
  shows "fd_ok base (as @ [(r, i, now)]) (insert_timed r i now t)"
proof (cases "refreshes r t")
  case True
  then obtain prev where "bt_get (tb_routes t) (br_key r) = Some prev" "(br_seqno prev, br_metric prev) = (br_seqno r, br_metric r)"
    by (auto simp: refreshes_def)
  then have "(br_seqno r, br_metric r) \<in> pairs (dst_src (br_key r)) as"
    using ok unfolding fd_ok_def by metis
  then have "pairs d (as @ [(r, i, now)]) = pairs d as" for d by (auto simp: pairs_snoc)
  with ok True show ?thesis by (simp add: fd_ok_def insert_timed_cases)
next
  case new: False
  let ?d = "dst_src (br_key r)" and ?p = "(br_seqno r, br_metric r)"
  have fd: "(feasible (br_seqno r) (br_metric r) fs fm \<longleftrightarrow> pair_rank base (fs, fm) < pair_rank base ?p) \<and>
      (\<forall>q \<in> pairs ?d as. pair_rank base q \<le> pair_rank base (fs, fm))"
    if get: "bt_get (tb_feasible t) ?d = Some (fs, fm)" for fs fm
  proof -
    have p: "(fs, fm) \<in> pairs ?d as" "\<forall>q \<in> pairs ?d as. pair_rank base q \<le> pair_rank base (fs, fm)"
      using ok get unfolding fd_ok_def by blast+
    then have "in_half base fs" using half by (auto simp: pairs_def)
    then show ?thesis using half p by (intro conjI feasible_rank) auto
  qed
  show ?thesis
  proof (cases "acceptable_update r t")
    case True
    have "\<forall>q \<in> pairs ?d as. pair_rank base q \<le> pair_rank base ?p"
    proof (cases "bt_get (tb_feasible t) ?d")
      case None with ok show ?thesis by (simp add: fd_ok_def)
    next
      case (Some p)
      then show ?thesis using True fd[of "fst p" "snd p"] unfolding acceptable_update_def
        by (metis order.strict_implies_order order.trans prod.collapse)
    qed
    then show ?thesis by (rule fd_accept[OF ok inv new True])
  next
    case False
    then obtain fs fm where "bt_get (tb_feasible t) ?d = Some (fs, fm)" "\<not> feasible (br_seqno r) (br_metric r) fs fm"
      by (auto simp: acceptable_update_def)
    then show ?thesis using ok fd new False by (auto simp: fd_ok_def insert_timed_cases pairs_snoc not_less)
  qed
qed

lemma insert_all_fd:
  assumes "\<forall>r \<in> fst ` set as. in_half base (br_seqno r)"
  shows "fd_ok base as (insert_all as)"
  using assms
proof (induction as rule: rev_induct)
  case Nil show ?case by (simp add: fd_ok_def insert_all_def babel_new_def pairs_def)
next
  case (snoc a as)
  obtain r i now where a: "a = (r, i, now)" by (cases a)
  show ?case using fd_step[OF snoc.IH insert_all_inv, of r i now] snoc.prems by (simp add: a insert_all_snoc)
qed

text \<open>
  C7.  The feasibility distance after any sequence of updates, as long as their sequence numbers lie in
  one half of the circle, is the best pair announced for the destination and source prefix: the latest sequence number, and
  the least metric among the updates that carry it.  It does not depend on the order of arrival, and a
  route with exactly that pair is in the table.
\<close>

theorem feasibility_distance_best:
  assumes "\<forall>(r, _) \<in> set as. in_half base (br_seqno r)"
  shows "(bt_get (tb_feasible (insert_all as)) d = None \<longleftrightarrow> pairs d as = {}) \<and>
    (bt_get (tb_feasible (insert_all as)) d = Some (s, m) \<longleftrightarrow>
       (s, m) \<in> pairs d as \<and>
       (\<forall>(s', m') \<in> pairs d as. unat (s' - base) < unat (s - base) \<or> (s' = s \<and> m \<le> m'))) \<and>
    (bt_get (tb_feasible (insert_all as)) d = Some (s, m) \<longrightarrow>
       (\<exists>r \<in> snd ` set (tb_routes (insert_all as)). dst_src (br_key r) = d \<and> br_seqno r = s \<and> br_metric r = m))"
proof -
  let ?t = "insert_all as"
  have ok: "fd_ok base as ?t" using assms by (intro insert_all_fd) auto
  have inv: "babel_inv ?t" by (rule insert_all_inv)
  have le: "pair_rank base (s', m') \<le> pair_rank base (s, m) \<longleftrightarrow> unat (s' - base) < unat (s - base) \<or> (s' = s \<and> m \<le> m')" for s' m' s m
  proof -
    have "unat m < 2 ^ 32" "unat m' < 2 ^ 32" using unsigned_less[of m] unsigned_less[of m'] by auto
    then have "2 ^ 32 - unat m' \<le> 2 ^ 32 - unat m \<longleftrightarrow> m \<le> m'" by (auto simp: word_le_nat_alt)
    moreover have "unat (s' - base) = unat (s - base) \<longleftrightarrow> s' = s" by (simp flip: word_unat_eq_iff)
    ultimately show ?thesis by (auto simp: pair_rank_def)
  qed
  have uniq: "p = q" if "pair_rank base p \<le> pair_rank base q" "pair_rank base q \<le> pair_rank base p" for p q
    using that le[of "fst p" "snd p" "fst q" "snd q"] le[of "fst q" "snd q" "fst p" "snd p"]
    by (auto simp: prod_eq_iff)
  have none: "bt_get (tb_feasible ?t) d = None \<longleftrightarrow> pairs d as = {}"
    and some: "bt_get (tb_feasible ?t) d = Some p \<Longrightarrow> p \<in> pairs d as \<and> (\<forall>q \<in> pairs d as. pair_rank base q \<le> pair_rank base p)" for p
    using ok unfolding fd_ok_def by blast+
  have iff: "bt_get (tb_feasible ?t) d = Some (s, m) \<longleftrightarrow>
      (s, m) \<in> pairs d as \<and> (\<forall>q \<in> pairs d as. pair_rank base q \<le> pair_rank base (s, m))"
  proof
    assume R: "(s, m) \<in> pairs d as \<and> (\<forall>q \<in> pairs d as. pair_rank base q \<le> pair_rank base (s, m))"
    then obtain p where p: "bt_get (tb_feasible ?t) d = Some p" using none by fastforce
    then show "bt_get (tb_feasible ?t) d = Some (s, m)" using some[OF p] R uniq by blast
  qed (rule some)
  have "\<exists>r \<in> snd ` set (tb_routes ?t). dst_src (br_key r) = d \<and> br_seqno r = s \<and> br_metric r = m"
    if fd: "bt_get (tb_feasible ?t) d = Some (s, m)"
  proof -
    obtain k r where r: "bt_get (tb_routes ?t) k = Some r" "dst_src k = d" "(br_seqno r, br_metric r) = (s, m)"
      using ok fd unfolding fd_ok_def by blast
    then have "br_key r = k" "(k, r) \<in> set (tb_routes ?t)" using inv by (simp_all add: babel_inv_def flip: bt_get_in)
    with r show ?thesis by force
  qed
  moreover have "(\<forall>q \<in> pairs d as. pair_rank base q \<le> pair_rank base (s, m)) \<longleftrightarrow>
      (\<forall>(s', m') \<in> pairs d as. unat (s' - base) < unat (s - base) \<or> (s' = s \<and> m \<le> m'))"
    by (intro ball_cong refl) (auto simp: le split: prod.split)
  ultimately show ?thesis using none iff by simp
qed

theorem feasibility_distance_best_witness:
  "bt_get (tb_feasible (insert_all [(example_route 1 65535 96, 400, 0), (example_route 2 2 300, 400, 1), (example_route 1 2 200, 400, 2)]))
     (dst_src (example_key 1)) = Some (2, 200)"
proof -
  let ?as = "[(example_route 1 65535 96, 400, 0), (example_route 2 2 300, 400, 1), (example_route 1 2 200, 400, 2)]"
  have h: "\<forall>(r, _) \<in> set ?as. in_half 65000 (br_seqno r)"
    by (simp add: in_half_def example_route_def)
  have "pairs (dst_src (example_key 1)) ?as = {(65535, 96), (2, 300), (2, 200)}"
    by (simp add: pairs_def example_route_def example_key_def dst_src_def)
  then show ?thesis using feasibility_distance_best[OF h, of "dst_src (example_key 1)" 2 200] by simp
qed

subsection \<open>Best routes\<close>

definition dest_routes :: "feas_key \<Rightarrow> babel_route list \<Rightarrow> babel_route list" where
  "dest_routes d rs = filter (\<lambda>r. br_feasible r \<and> dst_src (br_key r) = d) rs"

abbreviation by_metric :: "babel_route \<Rightarrow> babel_route \<Rightarrow> ordering" where
  "by_metric a b \<equiv> cmp (br_metric a) (br_metric b)"

lemma min_by_snoc:
  "min_by c (xs @ [x]) = (case min_by c xs of None \<Rightarrow> Some x | Some m \<Rightarrow> Some (if c m x = Greater then x else m))"
  by (cases xs) auto

lemma best_step_get:
  assumes "bt_inv m"
  shows "bt_inv (best_step r m)"
    "bt_get (best_step r m) d =
       (if br_feasible r \<and> dst_src (br_key r) = d
        then (case bt_get m d of None \<Rightarrow> Some r | Some b \<Rightarrow> Some (if by_metric b r = Greater then r else b))
        else bt_get m d)"
  using assms by (auto simp: best_step_def bt_inv_put bt_get_put cmp_def split: option.split)

lemma best_fold:
  "bt_inv (fold best_step rs []) \<and> (\<forall>d. bt_get (fold best_step rs []) d = min_by by_metric (dest_routes d rs))"
  by (induction rs rule: rev_induct) (simp_all add: best_step_get dest_routes_def min_by_snoc)

lemma best_routes_in:
  assumes "babel_inv t"
  shows "r \<in> set (best_routes t) \<longleftrightarrow> min_by by_metric (dest_routes (dst_src (br_key r)) (map snd (tb_routes t))) = Some r"
proof -
  let ?m = "fold best_step (map snd (tb_routes t)) []"
  have m: "bt_inv ?m" "\<And>d. bt_get ?m d = min_by by_metric (dest_routes d (map snd (tb_routes t)))"
    using best_fold by blast+
  have own: "dst_src (br_key r) = d" if "bt_get ?m d = Some r" for d
    using min_by_in_set that[unfolded m(2)] by (fastforce simp: dest_routes_def)
  have "r \<in> set (best_routes t) \<longleftrightarrow> (\<exists>d. bt_get ?m d = Some r)"
    using m(1) by (force simp: best_routes_def bt_get_in)
  then show ?thesis using own by (auto simp flip: m(2))
qed

interpretation bm: key_comparator by_metric br_metric
  by unfold_locales simp

lemma best_routes_sorted: "sorted_wrt (<) (map (\<lambda>r. dst_src (br_key r)) (best_routes t))"
proof -
  let ?m = "fold best_step (map snd (tb_routes t)) []"
  have inv: "bt_inv ?m" using best_fold by blast
  have "dst_src (br_key r) = d" if "(d, r) \<in> set ?m" for d r
    using that best_fold[of "map snd (tb_routes t)"] min_by_in_set[of by_metric _ r]
    by (fastforce simp: dest_routes_def simp flip: bt_get_in)
  then have "map (\<lambda>r. dst_src (br_key r)) (best_routes t) = map fst ?m" by (auto simp: best_routes_def)
  with inv show ?thesis by (simp add: bt_inv_def)
qed

lemma best_routes_least:
  assumes inv: "babel_inv t" and r: "bt_get (tb_routes t) k = Some r"
  shows "\<exists>b \<in> set (best_routes t). dst_src (br_key b) = dst_src k \<and> bt_get (tb_routes t) (br_key b) = Some b \<and>
    br_metric b \<le> br_metric r"
proof -
  let ?rs = "dest_routes (dst_src k) (map snd (tb_routes t))"
  have bt: "bt_inv (tb_routes t)" using inv by (simp add: babel_inv_def)
  have "br_key r = k" "br_feasible r" "(k, r) \<in> set (tb_routes t)"
    using inv r by (auto simp: babel_inv_def simp flip: bt_get_in)
  then have rin: "r \<in> set ?rs" by (force simp: dest_routes_def)
  then obtain b where b: "min_by by_metric ?rs = Some b" by (cases ?rs) auto
  then have bin: "b \<in> set ?rs" by (rule min_by_in_set)
  then obtain k' where "(k', b) \<in> set (tb_routes t)" by (auto simp: dest_routes_def)
  then have "bt_get (tb_routes t) k' = Some b" using bt by (simp add: bt_get_in)
  then have "bt_get (tb_routes t) (br_key b) = Some b" using inv by (simp add: babel_inv_def)
  moreover have "dst_src (br_key b) = dst_src k" using bin by (simp add: dest_routes_def)
  moreover have "br_metric b \<le> br_metric r" using bm.min_by_least[OF b rin] by (auto simp: cmp_def split: if_splits)
  ultimately show ?thesis using b best_routes_in[OF inv, of b] by auto
qed

lemma selected_best:
  assumes "babel_inv t"
  shows "selected_successor k t \<longleftrightarrow> k \<in> br_key ` set (best_routes t)"
  using best_routes_in[OF assms] by (force simp: selected_successor_def dest_routes_def split: option.split)

lemma withdrawn_returns:
  assumes "babel_inv t" and "selected_successor (br_key r) t"
  shows "bt_get (tb_routes (insert_timed r i now (babel_withdraw (br_key r) t))) (br_key r) = Some (r\<lparr>br_feasible := True\<rparr>)"
proof -
  have "\<not> refreshes r (babel_withdraw (br_key r) t)" by (simp add: refreshes_def withdraw_routes bt_get_del)
  moreover have "acceptable_update r (babel_withdraw (br_key r) t)"
    using assms(2) by (simp add: acceptable_update_def babel_withdraw_def Let_def bt_get_del)
  moreover have "bt_inv (tb_routes (babel_withdraw (br_key r) t))" using withdraw_inv[OF assms(1)] by (simp add: babel_inv_def)
  ultimately show ?thesis by (simp add: insert_timed_cases bt_get_put)
qed

text \<open>
  C34.  The best routes are strictly ascending in destination and source prefix, one for each that has a
  stored route, and each has the least metric of its destination; ties go to the lower key.  A route is the selected
  successor of its destination, whose withdrawal clears the feasibility distance, exactly when it is among them; and a withdrawn
  selected successor can come back with the pair it had.
\<close>

theorem babel_best_routes:
  assumes "babel_reach t"
  shows "sorted_wrt (<) (map (\<lambda>r. dst_src (br_key r)) (best_routes t)) \<and>
    (\<forall>k r. bt_get (tb_routes t) k = Some r \<longrightarrow>
       (\<exists>b \<in> set (best_routes t). dst_src (br_key b) = dst_src k \<and> bt_get (tb_routes t) (br_key b) = Some b \<and>
          br_metric b \<le> br_metric r)) \<and>
    (selected_successor k t \<longleftrightarrow> k \<in> br_key ` set (best_routes t)) \<and>
    (\<forall>r. selected_successor (br_key r) t \<longrightarrow>
       bt_get (tb_routes (insert_timed r i now (babel_withdraw (br_key r) t))) (br_key r) = Some (r\<lparr>br_feasible := True\<rparr>))"
proof -
  have inv: "babel_inv t" by (rule babel_reach_inv[OF assms])
  show ?thesis
    using best_routes_sorted best_routes_least[OF inv] selected_best[OF inv] withdrawn_returns[OF inv] by blast
qed

theorem babel_best_routes_witness:
  "best_routes (insert_timed (example_route 1 7 96) 400 1000 babel_new) = [example_route 1 7 96\<lparr>br_feasible := True\<rparr>] \<and>
   selected_successor (example_key 1) (insert_timed (example_route 1 7 96) 400 1000 babel_new)"
proof -
  let ?t = "insert_timed (example_route 1 7 96) 400 1000 babel_new"
  have b: "best_routes ?t = [example_route 1 7 96\<lparr>br_feasible := True\<rparr>]"
    by (simp add: best_routes_def insert_timed_def babel_new_def best_step_def Let_def)
  moreover have "selected_successor (example_key 1) ?t"
    using babel_best_routes[OF reach_insert[OF reach_new, of "example_route 1 7 96" 400 1000], of "example_key 1"] b
    by (simp add: example_route_def)
  ultimately show ?thesis by blast
qed

subsection \<open>Expiry\<close>

text \<open>
  Expiry returns exactly the keys whose last announcement is older than the hold time of six announced
  intervals, at least thirty seconds, removes exactly those routes together with their clocks, and leaves
  the feasibility distance of every other destination.
\<close>

theorem babel_expire_exact:
  assumes "babel_reach t"
  shows "(k \<in> set (snd (babel_expire now t)) \<longleftrightarrow>
       (\<exists>tm. bt_get (tb_timing t) k = Some tm \<and>
          max (60 * unat (interval_cs tm)) 30000 < unat now - unat (last_seen_ms tm))) \<and>
    bt_get (tb_routes (fst (babel_expire now t))) k =
      (if k \<in> set (snd (babel_expire now t)) then None else bt_get (tb_routes t) k) \<and>
    bt_get (tb_timing (fst (babel_expire now t))) k =
      (if k \<in> set (snd (babel_expire now t)) then None else bt_get (tb_timing t) k) \<and>
    (dst_src k \<notin> dst_src ` set (snd (babel_expire now t)) \<longrightarrow>
       bt_get (tb_feasible (fst (babel_expire now t))) (dst_src k) = bt_get (tb_feasible t) (dst_src k))"
proof -
  have inv: "bt_inv (tb_timing t)" using babel_reach_inv[OF assms] by (simp add: babel_inv_def)
  have hold: "unat (hold_ms i) = max (60 * unat i) 30000" for i
  proof -
    have "unat i < 2 ^ 16" using unsigned_less[of i] by simp
    then have "unat ((ucast i :: u64) * 60) = 60 * unat i" by (simp add: unat_word_ariths unsigned_ucast_eq take_bit_nat_eq_self)
    then show ?thesis by (simp add: hold_ms_def max_def word_le_nat_alt)
  qed
  have "lapsed now tm \<longleftrightarrow> max (60 * unat (interval_cs tm)) 30000 < unat now - unat (last_seen_ms tm)" for tm
    by (simp add: lapsed_def word_less_nat_alt hold unat_saturating_sub)
  then show ?thesis
    using bt_keys_filter[OF inv, of k "lapsed now"] by (simp add: babel_expire_def withdraw_fold Let_def)
qed

theorem babel_expire_exact_witness:
  "snd (babel_expire 31001 (insert_timed (example_route 1 7 96) 400 1000 babel_new)) = [example_key 1] \<and>
   bt_get (tb_routes (fst (babel_expire 31001 (insert_timed (example_route 1 7 96) 400 1000 babel_new)))) (example_key 1) = None"
proof -
  let ?t = "insert_timed (example_route 1 7 96) 400 1000 babel_new"
  have "snd (babel_expire 31001 ?t) = [example_key 1]"
    by (simp add: babel_expire_def lapsed_def hold_ms_def insert_timed_def babel_new_def example_route_def saturating_sub_def Let_def)
  then show ?thesis
    using babel_expire_exact[OF reach_insert[OF reach_new, of "example_route 1 7 96" 400 1000], of "example_key 1" 31001] by simp
qed

section \<open>Round-trip times\<close>

lemma unat_saturating_mul: "unat (saturating_mul a b) = min (unat a * unat b) (2 ^ 32 - 1)"
proof -
  have "unat (- 1 :: u32) = 2 ^ 32 - 1" by (simp add: unsigned_minus_1_eq_mask mask_eq_exp_minus_1)
  then show ?thesis by (auto simp: saturating_mul_def unat_word_ariths min_def)
qed

lemma ceiling_256: "n div 256 + (if n mod 256 = 0 then 0 else 1) = (n + 255) div (256 :: nat)"
proof -
  have n: "n = 256 * (n div 256) + n mod 256" "n mod 256 < 256" by simp_all
  show ?thesis
  proof (cases "n mod 256 = 0")
    case True
    then have "n + 255 = 255 + 256 * (n div 256)" using n by linarith
    then have "(n + 255) div 256 = n div 256" by simp
    with True show ?thesis by simp
  next
    case False
    then obtain j where j: "n mod 256 = Suc j" by (cases "n mod 256") auto
    then have "n = 256 * (n div 256) + Suc j" using n(1) by simp
    then have "n + 255 = (n mod 256 - 1) + 256 * (n div 256 + 1)" using j by simp
    moreover have "((n mod 256 - 1) + 256 * (n div 256 + 1)) div 256 = n div 256 + 1 + (n mod 256 - 1) div 256"
      by (rule div_mult_self2) simp
    moreover have "(n mod 256 - 1) div 256 = 0" using n(2) by (intro div_less) linarith
    ultimately show ?thesis using False by simp
  qed
qed

lemma weighted_bounds:
  fixes s p :: nat
  shows "s \<le> p \<Longrightarrow> s \<le> (42 * s + 214 * p) div 256 \<and> (42 * s + 214 * p) div 256 \<le> p"
    and "p \<le> s \<Longrightarrow> p \<le> (42 * s + 214 * p + 255) div 256 \<and> (42 * s + 214 * p + 255) div 256 \<le> s"
proof -
  have up: "n div 256 \<le> b" if "n < 256 * (b + 1)" for n b :: nat
    using that by (metis Suc_eq_plus1 less_Suc_eq_le less_mult_imp_div_less mult.commute)
  have down: "b \<le> n div 256" if "256 * b \<le> n" for n b :: nat
    using that by (metis div_le_mono nonzero_mult_div_cancel_left zero_neq_numeral)
  show "s \<le> p \<Longrightarrow> s \<le> (42 * s + 214 * p) div 256 \<and> (42 * s + 214 * p) div 256 \<le> p"
    by (intro conjI up down) simp_all
  show "p \<le> s \<Longrightarrow> p \<le> (42 * s + 214 * p + 255) div 256 \<and> (42 * s + 214 * p + 255) div 256 \<le> s"
    by (intro conjI up down) simp_all
qed

lemma smooth_nat:
  assumes "unat s < 2 ^ 24" and "unat p < 2 ^ 24"
  shows "unat (smooth s p) =
    (if unat s \<le> unat p then (42 * unat s + 214 * unat p) div 256 else (42 * unat s + 214 * unat p + 255) div 256)"
proof -
  define v where "v = RTT_DECAY * s + (256 - RTT_DECAY) * p"
  define n where "n = 42 * unat s + 214 * unat p"
  have v: "unat v = n" and lt: "n < 2 ^ 32"
    using assms by (simp_all add: v_def n_def RTT_DECAY_def unat_word_ariths)
  have m: "v mod 256 = 0 \<longleftrightarrow> n mod 256 = 0" using v by (simp add: word_unat_eq_iff unat_mod)
  have d: "unat (v div 256) = n div 256" using v by (simp add: unat_div)
  have "n div 256 < 2 ^ 31" using lt by (intro less_mult_imp_div_less) simp
  then have "unat (v div 256 + (if v mod 256 = 0 then 0 else 1)) = n div 256 + (if n mod 256 = 0 then 0 else 1)"
    using d m by (simp add: unat_word_ariths)
  then have "unat (v div 256 + (if v mod 256 = 0 then 0 else 1)) = (n + 255) div 256" by (simp only: ceiling_256)
  then show ?thesis using d unfolding smooth_def Let_def v_def[symmetric] n_def[symmetric] word_le_nat_alt by simp
qed

lemma unat_small: "n < 2 ^ 32 \<Longrightarrow> unat (of_nat n :: u32) = n"
  by (simp add: unsigned_of_nat take_bit_nat_eq_self)

lemma echo_sample:
  fixes t1 off :: u32
  assumes "d1 + w + d2 \<le> 600000000"
  shows "nb_rtt (ihu_echo rx iv t1 (t1 + of_nat d1 + off) now
      (hello_timestamped sq iv' (t1 + of_nat d1 + off + of_nat w) ms (t1 + of_nat (d1 + w + d2)) n)) =
    (let r = (case nb_rtt n of Some r \<Rightarrow> r | None \<Rightarrow> rtt_default)
       \<lparr>hello_send_us := t1 + of_nat d1 + off + of_nat w, hello_receive_us := t1 + of_nat (d1 + w + d2), hello_receive_ms := ms\<rparr>
     in Some (r\<lparr>smoothed_us := Some (next_rtt now (of_nat (d1 + d2)) r), sample_ms := Some now\<rparr>))"
proof -
  have le: "(of_nat w :: u32) \<le> RTT_SANITY_US" "(of_nat (d1 + w + d2) :: u32) \<le> RTT_SANITY_US"
    using assms by (simp_all add: word_le_nat_alt unat_small RTT_SANITY_US_def del: of_nat_add)
  have "unat (of_nat w :: u32) \<le> unat (of_nat (d1 + w + d2) :: u32)" using assms by (simp add: unat_small del: of_nat_add)
  then have "(of_nat w :: u32) \<le> of_nat (d1 + w + d2)" by (simp add: word_le_nat_alt)
  then have "saturating_sub (of_nat (d1 + w + d2)) (of_nat w) = (of_nat (d1 + d2) :: u32)"
    by (simp add: saturating_sub_def)
  moreover have "t1 + of_nat d1 + off + of_nat w - (t1 + of_nat d1 + off) = of_nat w"
    "t1 + of_nat (d1 + w + d2) - t1 = of_nat (d1 + w + d2)" by simp_all
  ultimately show ?thesis using le
    by (simp add: ihu_echo_def hello_timestamped_def ihu_def neighbor_hello_def Let_def not_less del: of_nat_add)
qed

text \<open>
  The measured round-trip time needs no synchronised clocks: with transit times \<open>d1\<close> and \<open>d2\<close>, a wait
  \<open>w\<close> at the peer and any offset between the two wrapping clocks, the echo yields the sample \<open>d1 + d2\<close> as
  long as the whole exchange takes at most 600 seconds.  The first sample is doubled; a later one within
  the validity window moves the smoothed time to a value between the old one and the sample,
  for times below \<open>2\<^sup>2\<^sup>4\<close> microseconds.
\<close>

theorem rtt_measurement:
  fixes t1 off :: u32
  assumes "d1 + w + d2 \<le> 600000000"
    and "n2 = ihu_echo rx iv t1 (t1 + of_nat d1 + off) now
      (hello_timestamped sq iv' (t1 + of_nat d1 + off + of_nat w) ms (t1 + of_nat (d1 + w + d2)) n)"
  shows "(nb_rtt n = None \<longrightarrow> map_option unat (rtt_us now n2) = Some (2 * (d1 + d2))) \<and>
    (\<forall>r p t. nb_rtt n = Some r \<and> smoothed_us r = Some p \<and> sample_ms r = Some t \<and> 0 < p \<and> unat now - unat t < 180000 \<and>
       d1 + d2 < 2 ^ 24 \<and> unat p < 2 ^ 24 \<longrightarrow>
       (\<exists>q. rtt_us now n2 = Some q \<and> min (d1 + d2) (unat p) \<le> unat q \<and> unat q \<le> max (d1 + d2) (unat p)))"
proof -
  let ?r = "(case nb_rtt n of Some r \<Rightarrow> r | None \<Rightarrow> rtt_default)
       \<lparr>hello_send_us := t1 + of_nat d1 + off + of_nat w, hello_receive_us := t1 + of_nat (d1 + w + d2), hello_receive_ms := ms\<rparr>"
  have us: "rtt_us now n2 = Some (next_rtt now (of_nat (d1 + d2)) ?r)"
    using echo_sample[OF assms(1), of rx iv t1 off now sq iv' ms n] assms(2)
    by (simp add: rtt_us_def rtt_valid_def Let_def saturating_sub_def RTT_VALIDITY_MS_def del: of_nat_add)
  have first: "map_option unat (rtt_us now n2) = Some (2 * (d1 + d2))" if "nb_rtt n = None"
    using us that assms(1) by (simp add: next_rtt_def rtt_default_def unat_saturating_mul unat_small del: of_nat_add)
  have later: "\<exists>q. rtt_us now n2 = Some q \<and> min (d1 + d2) (unat p) \<le> unat q \<and> unat q \<le> max (d1 + d2) (unat p)"
    if "nb_rtt n = Some r" "smoothed_us r = Some p" "sample_ms r = Some t" "0 < p" "unat now - unat t < 180000"
      and lt: "d1 + d2 < 2 ^ 24" "unat p < 2 ^ 24" for r p t
  proof -
    have "saturating_sub now t < RTT_VALIDITY_MS"
      using that by (simp add: word_less_nat_alt unat_saturating_sub RTT_VALIDITY_MS_def)
    then have q: "rtt_us now n2 = Some (smooth (of_nat (d1 + d2)) p)" using us that by (simp add: next_rtt_def)
    have u: "unat (of_nat (d1 + d2) :: u32) = d1 + d2" using lt by (intro unat_small) simp
    then have "unat (smooth (of_nat (d1 + d2)) p) =
        (if d1 + d2 \<le> unat p then (42 * (d1 + d2) + 214 * unat p) div 256 else (42 * (d1 + d2) + 214 * unat p + 255) div 256)"
      using smooth_nat[of "of_nat (d1 + d2)" p] lt by (simp only:) 
    then show ?thesis
      using q weighted_bounds[of "d1 + d2" "unat p"] weighted_bounds(2)[of "unat p" "d1 + d2"]
      by (cases "d1 + d2 \<le> unat p") (simp_all only: min_def max_def if_True if_False, force+)
  qed
  show ?thesis using first later by blast
qed

theorem rtt_measurement_witness:
  "map_option unat (rtt_us 5000 (ihu_echo 96 400 0xfffffff0 (0xfffffff0 + 100 + 77) 5000
      (hello_timestamped 1 400 (0xfffffff0 + 100 + 77 + 5000) 4990 (0xfffffff0 + 5300) (neighbor_new (V4 [10, 0, 0, 2]) 0)))) = Some 600"
  using rtt_measurement[where ?d1.0 = 100 and w = 5000 and ?d2.0 = 200 and rx = 96 and iv = 400 and ?t1.0 = "0xfffffff0" and off = 77
      and now = 5000 and sq = 1 and iv' = 400 and ms = 4990 and n = "neighbor_new (V4 [10, 0, 0, 2]) 0", OF _ refl]
  by (simp add: neighbor_new_def)

lemma quotient_le:
  fixes m x y z c :: nat
  assumes "x < y" and "y < z"
  shows "min (m * (y - x)) c div (z - x) \<le> m"
proof -
  have "min (m * (y - x)) c \<le> m * (z - x)" using assms by (intro min.coboundedI1 mult_le_mono2) simp
  then have "min (m * (y - x)) c div (z - x) \<le> m * (z - x) div (z - x)" by (rule div_le_mono)
  then show ?thesis using assms by simp
qed

lemma ramp_unat:
  assumes "lo < a" and "a < hi"
  shows "unat (rtt_penalty a lo hi mp) = min (unat mp * (unat a - unat lo)) (2 ^ 32 - 1) div (unat hi - unat lo)"
proof -
  have lt: "unat lo < unat a" "unat a < unat hi" using assms by (simp_all add: word_less_nat_alt)
  have sub: "unat (a - lo) = unat a - unat lo" "unat (hi - lo) = unat hi - unat lo"
    using lt by (simp_all add: unat_sub word_le_nat_alt)
  let ?q = "saturating_mul (ucast mp) (a - lo) div (hi - lo)"
  have lim: "unat mp < 2 ^ 16" using unsigned_less[of mp, where 'a = nat] by simp
  then have mp: "unat (ucast mp :: u32) = unat mp" "unat mp < 2 ^ 16"
    by (simp_all add: unsigned_ucast_eq take_bit_nat_eq_self)
  have q: "unat ?q = min (unat mp * (unat a - unat lo)) (2 ^ 32 - 1) div (unat hi - unat lo)"
    by (simp add: unat_div unat_saturating_mul mp sub)
  have le: "unat ?q \<le> unat mp" unfolding q by (rule quotient_le[OF lt])
  then have "?q \<le> 0xffff" using mp by (simp add: word_le_nat_alt)
  then have "unat (ucast (min ?q 0xffff) :: u16) = unat ?q"
    using le mp by (simp add: min_def unsigned_ucast_eq take_bit_nat_eq_self)
  moreover have "hi - lo \<noteq> 0" using sub lt by auto
  moreover have "\<not> a \<le> lo" "\<not> hi \<le> a" using assms by simp_all
  ultimately show ?thesis using q by (simp add: rtt_penalty_def)
qed

text \<open>
  The cost a round-trip time adds never exceeds the configured maximum, does not decrease as the time grows,
  is zero up to the lower bound and the maximum from the upper bound on, and follows the linear ramp in
  between as long as the product of maximum and range fits into 32 bits.
\<close>

theorem rtt_penalty_ramp:
  "rtt_penalty a lo hi mp \<le> mp \<and>
   (a \<le> b \<longrightarrow> rtt_penalty a lo hi mp \<le> rtt_penalty b lo hi mp) \<and>
   (a \<le> lo \<longrightarrow> rtt_penalty a lo hi mp = 0) \<and> (lo < a \<and> hi \<le> a \<longrightarrow> rtt_penalty a lo hi mp = mp) \<and>
   (lo < a \<and> a < hi \<and> unat mp * (unat hi - unat lo) < 2 ^ 32 \<longrightarrow>
      unat (rtt_penalty a lo hi mp) = unat mp * (unat a - unat lo) div (unat hi - unat lo))"
proof -
  have low: "rtt_penalty a lo hi mp = 0" if "a \<le> lo" for a using that by (simp add: rtt_penalty_def)
  have high: "rtt_penalty a lo hi mp = mp" if "lo < a" "hi \<le> a" for a
    using that leD[of a lo] by (auto simp: rtt_penalty_def)
  have le: "rtt_penalty a lo hi mp \<le> mp" for a
  proof (cases "lo < a \<and> a < hi")
    case True
    then have lt: "unat lo < unat a" "unat a < unat hi" by (simp_all add: word_less_nat_alt)
    then have "unat (rtt_penalty a lo hi mp) \<le> unat mp" using True by (subst ramp_unat) (simp_all only: quotient_le)
    then show ?thesis by (simp add: word_le_nat_alt)
  next
    case False
    then consider "a \<le> lo" | "lo < a" "hi \<le> a" by fastforce
    then show ?thesis using low high by cases auto
  qed
  have mono: "rtt_penalty a lo hi mp \<le> rtt_penalty b lo hi mp" if ab: "a \<le> b"
  proof (cases "lo < a \<and> b < hi")
    case True
    then have "lo < a" "a < hi" "lo < b" "b < hi" using ab by auto
    moreover have "unat a \<le> unat b" using ab by (simp add: word_le_nat_alt)
    ultimately show ?thesis unfolding word_le_nat_alt
      by (simp only: ramp_unat) (intro div_le_mono min.mono mult_le_mono2 diff_le_mono order.refl)
  next
    case False
    then consider "a \<le> lo" | "lo < b" "hi \<le> b" using ab by fastforce
    then show ?thesis using low high le by cases auto
  qed
  have ramp: "unat (rtt_penalty a lo hi mp) = unat mp * (unat a - unat lo) div (unat hi - unat lo)"
    if "lo < a" "a < hi" "unat mp * (unat hi - unat lo) < 2 ^ 32"
  proof -
    have "unat mp * (unat a - unat lo) \<le> unat mp * (unat hi - unat lo)"
      using that(2) by (intro mult_le_mono2 diff_le_mono) (simp add: word_less_nat_alt)
    then have "min (unat mp * (unat a - unat lo)) (2 ^ 32 - 1) = unat mp * (unat a - unat lo)" using that(3) by linarith
    then show ?thesis using ramp_unat[OF that(1,2)] by metis
  qed
  show ?thesis using le mono low high ramp by blast
qed

theorem rtt_penalty_ramp_witness: "rtt_penalty 65000 10000 120000 150 = 75"
proof -
  have "unat (rtt_penalty 65000 10000 120000 150) = unat (75 :: u16)"
    using rtt_penalty_ramp[of 65000 10000 120000 150] by simp
  then show ?thesis by (simp only: word_unat_eq_iff)
qed

end
