(* ===== verification/LR_OspfElect.thy ===== *)
theory LR_OspfElect
  imports LR_Prelude
begin

text \<open>
  OSPF adjacencies: the neighbour state machine of \<open>crates/lr-ospf/src/neighbor.rs\<close>, and the election of the
  designated router with the interface state machine of \<open>interface.rs\<close>.
\<close>

section \<open>Neighbours\<close>

datatype neighbor_state = NDown | NAttempt | NInit | TwoWay | ExStart | Exchange | Loading | Full

fun neighbor_state_id :: "neighbor_state \<Rightarrow> nat" where
  "neighbor_state_id NDown = 1"
| "neighbor_state_id NAttempt = 2"
| "neighbor_state_id NInit = 3"
| "neighbor_state_id TwoWay = 4"
| "neighbor_state_id ExStart = 5"
| "neighbor_state_id Exchange = 6"
| "neighbor_state_id Loading = 7"
| "neighbor_state_id Full = 8"

datatype neighbor_event =
    HelloSeen u32 u32 u8
  | AdjOk bool
  | NegotiationDone
  | ExchangeDone
  | SeqMismatch
  | BadLsa
  | LsaUpdateArrived
  | Kill

datatype reset_kind = KillReset | SeqMismatchReset | BadLsaReset

text \<open>The actions: a log line about a broken adjacency, a reset with its cause, a change of state.\<close>

datatype neighbor_action = AdjacencyBroken u32 | NeighborReset u32 reset_kind | StateChange neighbor_state

record ospf_neighbor =
  nbr_router_id :: u32
  nbr_state :: neighbor_state
  nbr_priority :: u8
  nbr_dr :: u32
  nbr_bdr :: u32
  dd_seq :: u32
  dd_master :: bool

definition ospf_neighbor_new :: "u32 \<Rightarrow> ospf_neighbor" where
  "ospf_neighbor_new rid =
     \<lparr>nbr_router_id = rid, nbr_state = NDown, nbr_priority = 1, nbr_dr = 0, nbr_bdr = 0, dd_seq = 0, dd_master = False\<rparr>"

fun neighbor_next :: "u32 \<Rightarrow> neighbor_state \<Rightarrow> neighbor_event \<Rightarrow> neighbor_state \<times> neighbor_action list" where
  "neighbor_next rid NDown (HelloSeen _ _ _) = (NInit, [])"
| "neighbor_next rid NInit (HelloSeen _ _ _) = (TwoWay, [])"
| "neighbor_next rid TwoWay (AdjOk True) = (ExStart, [])"
| "neighbor_next rid TwoWay (AdjOk False) = (TwoWay, [])"
| "neighbor_next rid ExStart (AdjOk False) = (TwoWay, [AdjacencyBroken rid])"
| "neighbor_next rid Exchange (AdjOk False) = (TwoWay, [AdjacencyBroken rid])"
| "neighbor_next rid Loading (AdjOk False) = (TwoWay, [AdjacencyBroken rid])"
| "neighbor_next rid Full (AdjOk False) = (TwoWay, [AdjacencyBroken rid])"
| "neighbor_next rid ExStart NegotiationDone = (Exchange, [])"
| "neighbor_next rid Exchange ExchangeDone = (Loading, [])"
| "neighbor_next rid Loading LsaUpdateArrived = (Full, [])"
| "neighbor_next rid Loading ExchangeDone = (Full, [])"
| "neighbor_next rid Full LsaUpdateArrived = (Full, [])"
| "neighbor_next rid _ Kill = (NDown, [NeighborReset rid KillReset])"
| "neighbor_next rid _ SeqMismatch = (ExStart, [NeighborReset rid SeqMismatchReset])"
| "neighbor_next rid _ BadLsa = (ExStart, [NeighborReset rid BadLsaReset])"
| "neighbor_next rid s _ = (s, [])"

definition record_hello :: "neighbor_event \<Rightarrow> ospf_neighbor \<Rightarrow> ospf_neighbor" where
  "record_hello ev n =
     (case ev of
        HelloSeen dr bdr pri \<Rightarrow>
          if nbr_state n = NDown \<or> nbr_state n = NInit then n\<lparr>nbr_dr := dr, nbr_bdr := bdr, nbr_priority := pri\<rparr> else n
      | _ \<Rightarrow> n)"

definition neighbor_step :: "neighbor_event \<Rightarrow> ospf_neighbor \<Rightarrow> ospf_neighbor \<times> neighbor_action list" where
  "neighbor_step ev n =
     (case neighbor_next (nbr_router_id n) (nbr_state n) ev of
        (s, acts) \<Rightarrow>
          ((record_hello ev n)\<lparr>nbr_state := s\<rparr>, acts @ (if s \<noteq> nbr_state n then [StateChange s] else [])))"

definition neighbor_reset :: "ospf_neighbor \<Rightarrow> ospf_neighbor" where
  "neighbor_reset n = n\<lparr>nbr_state := NDown\<rparr>"

section \<open>Election\<close>

record elector =
  el_router_id :: u32
  el_ip :: u32
  el_priority :: u8
  stated_dr :: u32
  stated_bdr :: u32

text \<open>\<open>Iterator::max_by\<close> keeps the last of several maxima.\<close>

fun max_by :: "('a \<Rightarrow> 'a \<Rightarrow> ordering) \<Rightarrow> 'a list \<Rightarrow> 'a option" where
  "max_by c [] = None"
| "max_by c (x # xs) = Some (foldl (\<lambda>m y. if c m y = Greater then m else y) x xs)"

definition elector_cmp :: "elector \<Rightarrow> elector \<Rightarrow> ordering" where
  "elector_cmp a b = then_cmp (cmp (el_priority a) (el_priority b)) (cmp (el_router_id a) (el_router_id b))"

definition pick :: "elector list \<Rightarrow> u32 option" where
  "pick candidates = map_option el_ip (max_by elector_cmp candidates)"

definition election_round :: "elector list \<Rightarrow> u32 \<times> u32" where
  "election_round eligible =
     (let not_dr = filter (\<lambda>e. stated_dr e \<noteq> el_ip e) eligible;
          bdr = (case pick (filter (\<lambda>e. stated_bdr e = el_ip e) not_dr) of
                   Some i \<Rightarrow> i
                 | None \<Rightarrow> (case pick not_dr of Some i \<Rightarrow> i | None \<Rightarrow> 0));
          dr = (case pick (filter (\<lambda>e. stated_dr e = el_ip e) eligible) of Some i \<Rightarrow> i | None \<Rightarrow> bdr)
      in (dr, bdr))"

definition restate :: "u32 \<Rightarrow> u32 \<Rightarrow> u32 \<Rightarrow> elector \<Rightarrow> elector" where
  "restate self dr bdr e = (if el_ip e = self then e\<lparr>stated_dr := dr, stated_bdr := bdr\<rparr> else e)"

definition newly :: "u32 \<Rightarrow> u32 \<Rightarrow> u32 \<Rightarrow> bool" where
  "newly self cur got \<longleftrightarrow> (cur = self) \<noteq> (got = self)"

definition elect :: "elector list \<Rightarrow> u32 \<Rightarrow> u32 \<times> u32" where
  "elect electors self =
     (let eligible = filter (\<lambda>e. el_priority e > 0) electors;
          (dr, bdr) = election_round eligible
      in if self \<noteq> 0 then
           (case find (\<lambda>e. el_ip e = self) eligible of
              Some me \<Rightarrow>
                if newly self (stated_dr me) dr \<or> newly self (stated_bdr me) bdr then
                  let (dr2, bdr2) = election_round (map (restate self dr bdr) eligible)
                  in (if dr2 = 0 then bdr2 else dr2, bdr2)
                else (dr, bdr)
            | None \<Rightarrow> (dr, bdr))
         else (dr, bdr))"

record v3_elector =
  v3_router_id :: u32
  v3_priority :: u8
  v3_stated_dr :: u32
  v3_stated_bdr :: u32

definition elect_v3 :: "v3_elector list \<Rightarrow> u32 \<Rightarrow> u32 \<times> u32" where
  "elect_v3 es self =
     elect (map (\<lambda>e. \<lparr>el_router_id = v3_router_id e, el_ip = v3_router_id e, el_priority = v3_priority e,
                      stated_dr = v3_stated_dr e, stated_bdr = v3_stated_bdr e\<rparr>) es) self"

section \<open>Interfaces\<close>

datatype if_state = IfDown | IfLoopback | IfWaiting | IfPointToPoint | DrOther | Backup | Dr

datatype if_event = InterfaceUp | InterfaceDown | WaitTimer | BackupSeen | NeighborChange "elector list"

record ospf_interface =
  if_state :: if_state
  if_priority :: u8
  if_hello_interval :: u16
  if_dead_interval :: u32
  if_dr :: u32
  if_bdr :: u32
  if_area_id :: u32
  if_router_id :: u32
  if_ip :: u32

definition ospf_interface_new :: "u32 \<Rightarrow> ospf_interface" where
  "ospf_interface_new area =
     \<lparr>if_state = IfDown, if_priority = 1, if_hello_interval = 10, if_dead_interval = 40, if_dr = 0, if_bdr = 0,
      if_area_id = area, if_router_id = 0, if_ip = 0\<rparr>"

definition self_elector :: "ospf_interface \<Rightarrow> elector" where
  "self_elector i =
     \<lparr>el_router_id = if_router_id i, el_ip = if_ip i, el_priority = if_priority i, stated_dr = if_dr i, stated_bdr = if_bdr i\<rparr>"

fun interface_next :: "if_event \<Rightarrow> ospf_interface \<Rightarrow> ospf_interface \<times> if_state" where
  "interface_next InterfaceUp i = (i, if if_state i = IfDown then IfWaiting else if_state i)"
| "interface_next WaitTimer i = (i, if if_state i = IfWaiting then DrOther else if_state i)"
| "interface_next BackupSeen i = (i, if if_state i = IfWaiting then DrOther else if_state i)"
| "interface_next InterfaceDown i = (i, IfDown)"
| "interface_next (NeighborChange es) i =
     (let (dr, bdr) = elect (es @ [self_elector i]) (if_ip i)
      in (i\<lparr>if_dr := dr, if_bdr := bdr\<rparr>,
          if if_ip i \<noteq> 0 \<and> if_ip i = dr then Dr
          else if if_ip i \<noteq> 0 \<and> if_ip i = bdr then Backup
          else DrOther))"

definition interface_step :: "if_event \<Rightarrow> ospf_interface \<Rightarrow> ospf_interface \<times> if_state list" where
  "interface_step ev i =
     (case interface_next ev i of (i', s) \<Rightarrow> (i'\<lparr>if_state := s\<rparr>, if s \<noteq> if_state i then [s] else []))"

definition interface_reset :: "ospf_interface \<Rightarrow> ospf_interface" where
  "interface_reset i = i\<lparr>if_state := IfDown\<rparr>"

section \<open>The election, on claims\<close>

definition ekey :: "elector \<Rightarrow> u8 \<times> u32" where
  "ekey e = (el_priority e, el_router_id e)"

interpretation el: key_comparator elector_cmp ekey
  by unfold_locales (simp add: elector_cmp_def ekey_def cmp_pair)

lemma max_by_spec:
  "max_by elector_cmp xs = Some m \<Longrightarrow> m \<in> set xs \<and> (\<forall>x \<in> set xs. ekey x \<le> ekey m)"
proof (induction xs arbitrary: m rule: rev_induct)
  case (snoc y xs)
  have step: "max_by elector_cmp (xs @ [y]) =
      (case max_by elector_cmp xs of None \<Rightarrow> Some y | Some m \<Rightarrow> Some (if elector_cmp m y = Greater then m else y))"
    by (cases xs) auto
  have gt: "elector_cmp a y = Greater \<longleftrightarrow> ekey y < ekey a" for a by (simp add: el.by_key)
  show ?case
  proof (cases "max_by elector_cmp xs")
    case None
    then have "xs = []" by (cases xs) auto
    then show ?thesis using snoc.prems by simp
  next
    case (Some a)
    then show ?thesis using snoc.prems snoc.IH[OF Some] gt[of a] by (auto simp: step split: if_splits intro: order.trans)
  qed
qed simp

lemma max_by_None [simp]: "max_by c xs = None \<longleftrightarrow> xs = []"
  by (cases xs) auto

lemma pick_Nil [simp]: "pick [] = None"
  by (simp add: pick_def)

lemma pick_None [simp]: "pick xs = None \<longleftrightarrow> xs = []"
  by (simp add: pick_def)

lemma pick_in: "pick xs = Some i \<Longrightarrow> i \<in> el_ip ` set xs"
  using max_by_spec by (fastforce simp: pick_def)

definition top_of :: "elector list \<Rightarrow> elector \<Rightarrow> bool" where
  "top_of xs m \<longleftrightarrow> m \<in> set xs \<and> (\<forall>x \<in> set xs. ekey x \<le> ekey m)"

definition segment_ok :: "elector list \<Rightarrow> bool" where
  "segment_ok es \<longleftrightarrow> distinct (map el_router_id es) \<and> distinct (map el_ip es) \<and> 0 \<notin> el_ip ` set es"

lemma segment_ok_filter: "segment_ok es \<Longrightarrow> segment_ok (filter P es)"
  by (auto simp: segment_ok_def distinct_map_filter)

lemma segment_unique:
  assumes "segment_ok es" "a \<in> set es" "b \<in> set es"
  shows "el_ip a = el_ip b \<longleftrightarrow> a = b" "ekey a = ekey b \<longleftrightarrow> a = b"
  using assms by (auto simp: segment_ok_def distinct_map ekey_def inj_on_def)

lemma pick_top:
  assumes "segment_ok xs" "top_of xs m"
  shows "pick xs = Some (el_ip m)"
proof -
  obtain a where a: "max_by elector_cmp xs = Some a"
    using assms(2) by (cases "max_by elector_cmp xs") (auto simp: top_of_def)
  then have "a \<in> set xs" "ekey a = ekey m" using max_by_spec[OF a] assms(2) by (auto simp: top_of_def intro: order.antisym)
  then have "a = m" using assms segment_unique(2) by (auto simp: top_of_def)
  with a show ?thesis by (simp add: pick_def)
qed

lemma top_exists: "xs \<noteq> [] \<Longrightarrow> \<exists>m. top_of xs m"
  using max_by_spec[of xs] by (cases "max_by elector_cmp xs") (auto simp: top_of_def)

lemma pick_cong:
  assumes "segment_ok xs" "segment_ok ys" "set xs = set ys" shows "pick xs = pick ys"
proof (cases "xs = []")
  case False
  then obtain m where "top_of xs m" using top_exists by blast
  moreover from this have "top_of ys m" using assms(3) by (simp add: top_of_def)
  ultimately show ?thesis using pick_top assms by metis
qed (use assms in simp)

text \<open>Electors whose claims are given by their address.\<close>

definition claim :: "(u32 \<Rightarrow> u32 \<times> u32) \<Rightarrow> elector \<Rightarrow> elector" where
  "claim c e = e\<lparr>stated_dr := fst (c (el_ip e)), stated_bdr := snd (c (el_ip e))\<rparr>"

lemma claim_fields [simp]:
  "el_ip (claim c e) = el_ip e" "el_priority (claim c e) = el_priority e" "el_router_id (claim c e) = el_router_id e"
  "stated_dr (claim c e) = fst (c (el_ip e))" "stated_bdr (claim c e) = snd (c (el_ip e))" "ekey (claim c e) = ekey e"
  by (simp_all add: claim_def ekey_def)

lemma foldl_max_map:
  assumes "\<And>x y. c (f x) (f y) = c x y"
  shows "foldl (\<lambda>m y. if c m y = Greater then m else y) (f x) (map f xs) =
    f (foldl (\<lambda>m y. if c m y = Greater then m else y) x xs)"
  by (induction xs arbitrary: x) (simp_all add: assms if_distrib[of f, symmetric] del: if_distrib)

lemma pick_claim: "pick (map (claim c) xs) = pick xs"
proof -
  have "elector_cmp (claim c x) (claim c y) = elector_cmp x y" for x y by (simp add: elector_cmp_def)
  then have "max_by elector_cmp (map (claim c) xs) = map_option (claim c) (max_by elector_cmp xs)"
    by (cases xs) (simp_all add: foldl_max_map)
  then show ?thesis by (simp add: pick_def option.map_comp comp_def)
qed

definition claim_round :: "(u32 \<Rightarrow> u32 \<times> u32) \<Rightarrow> elector list \<Rightarrow> u32 \<times> u32" where
  "claim_round c xs =
     (let nd = filter (\<lambda>e. fst (c (el_ip e)) \<noteq> el_ip e) xs;
          bdr = (case pick (filter (\<lambda>e. snd (c (el_ip e)) = el_ip e) nd) of
                   Some i \<Rightarrow> i | None \<Rightarrow> (case pick nd of Some i \<Rightarrow> i | None \<Rightarrow> 0))
      in (case pick (filter (\<lambda>e. fst (c (el_ip e)) = el_ip e) xs) of Some i \<Rightarrow> i | None \<Rightarrow> bdr, bdr))"

lemma round_claim: "election_round (map (claim c) xs) = claim_round c xs"
  by (simp add: election_round_def claim_round_def filter_map comp_def pick_claim Let_def cong: option.case_cong)

lemma restate_claim: "restate i d b (claim c e) = claim (c(i := (d, b))) e"
  by (simp add: restate_def claim_def)

lemma find_in: "find P xs = Some x \<Longrightarrow> x \<in> set xs \<and> P x"
  by (induction xs) (auto split: if_splits)

lemma elect_claim:
  fixes es defines "B \<equiv> filter (\<lambda>e. el_priority e > 0) es"
  shows "elect (map (claim c) es) i =
    (let (d, b) = claim_round c B
     in if i \<noteq> 0 \<and> i \<in> el_ip ` set B \<and> (newly i (fst (c i)) d \<or> newly i (snd (c i)) b)
        then let (d2, b2) = claim_round (c(i := (d, b))) B in (if d2 = 0 then b2 else d2, b2)
        else (d, b))"
proof -
  have B: "filter (\<lambda>e. el_priority e > 0) (map (claim c) es) = map (claim c) B" by (simp add: B_def filter_map comp_def)
  obtain d b where db: "claim_round c B = (d, b)" by fastforce
  have up: "map (restate i d b) (map (claim c) B) = map (claim (c(i := (d, b)))) B" by (simp add: restate_claim)
  show ?thesis
  proof (cases "find (\<lambda>e. el_ip e = i) (map (claim c) B)")
    case None
    then have "i \<notin> el_ip ` set B" by (auto simp: find_None_iff)
    with None show ?thesis unfolding elect_def B by (simp add: round_claim db Let_def)
  next
    case (Some me)
    then obtain e where e: "e \<in> set B" "me = claim c e" "el_ip e = i" using find_in[OF Some] by auto
    then have "i \<in> el_ip ` set B" by auto
    with Some e show ?thesis unfolding elect_def B by (simp add: round_claim db Let_def up del: map_map)
  qed
qed

section \<open>Convergence\<close>

lemma claim_round_steady:
  assumes ok: "segment_ok B" and D: "D \<in> set B"
    and dr: "\<forall>e \<in> set B. fst (c (el_ip e)) = el_ip e \<longleftrightarrow> e = D"
    and b: "b = (case pick (filter (\<lambda>e. el_ip e \<noteq> el_ip D) B) of Some i \<Rightarrow> i | None \<Rightarrow> 0)"
    and bdr: "\<forall>e \<in> set B. e \<noteq> D \<and> snd (c (el_ip e)) = el_ip e \<longrightarrow> el_ip e = b"
  shows "claim_round c B = (el_ip D, b)"
proof -
  let ?nd = "filter (\<lambda>e. el_ip e \<noteq> el_ip D) B" and ?q = "\<lambda>e. snd (c (el_ip e)) = el_ip e"
  have nd: "filter (\<lambda>e. fst (c (el_ip e)) \<noteq> el_ip e) B = ?nd"
    using dr segment_unique(1)[OF ok _ D] by (intro filter_cong) auto
  have "set (filter (\<lambda>e. fst (c (el_ip e)) = el_ip e) B) = {D}" using dr D by auto
  then have "pick (filter (\<lambda>e. fst (c (el_ip e)) = el_ip e) B) = Some (el_ip D)"
    using segment_ok_filter[OF ok] by (intro pick_top) (auto simp: top_of_def)
  moreover have "(case pick (filter ?q ?nd) of Some i \<Rightarrow> i | None \<Rightarrow> (case pick ?nd of Some i \<Rightarrow> i | None \<Rightarrow> 0)) = b"
  proof (cases "pick (filter ?q ?nd)")
    case (Some i)
    then obtain e where "e \<in> set ?nd" "?q e" "i = el_ip e" using pick_in[OF Some] by auto
    then have "i = b" using bdr by auto
    with Some show ?thesis by simp
  qed (simp add: b)
  ultimately show ?thesis by (simp add: claim_round_def nd Let_def)
qed

text \<open>All routers of a segment run the election on the same Hellos and state its result in their next ones.\<close>

definition segment_step :: "elector list \<Rightarrow> elector list" where
  "segment_step es = map (\<lambda>e. case elect es (el_ip e) of (d, b) \<Rightarrow> e\<lparr>stated_dr := d, stated_bdr := b\<rparr>) es"

lemma segment_step_claim:
  assumes "\<forall>e \<in> set es. elect (map (claim c) es) (el_ip e) = c' (el_ip e)"
  shows "segment_step (map (claim c) es) = map (claim c') es"
  using assms by (simp add: segment_step_def claim_def split: prod.split)

lemma elect_first:
  assumes ok: "segment_ok es" and D: "top_of (filter (\<lambda>e. el_priority e > 0) es) D" and i: "i \<noteq> 0"
    and b: "b = (case pick (filter (\<lambda>e. el_ip e \<noteq> el_ip D) (filter (\<lambda>e. el_priority e > 0) es)) of Some i \<Rightarrow> i | None \<Rightarrow> 0)"
  shows "elect (map (claim (\<lambda>_. (0, 0))) es) i = (el_ip D, if i = el_ip D then b else el_ip D)"
proof -
  let ?B = "filter (\<lambda>e. el_priority e > 0) es"
  have okB: "segment_ok ?B" by (rule segment_ok_filter[OF ok])
  have DB: "D \<in> set ?B" using D by (simp add: top_of_def)
  have nz: "\<forall>e \<in> set ?B. el_ip e \<noteq> 0" using okB by (auto simp: segment_ok_def)
  have all: "filter (\<lambda>e. 0 \<noteq> el_ip e) ?B = ?B" using nz by (intro filter_True) auto
  have none: "filter (\<lambda>e. 0 = el_ip e) ?B = []" using nz by (subst filter_empty_conv) auto
  have r1: "claim_round (\<lambda>_. (0, 0)) ?B = (el_ip D, el_ip D)"
    unfolding claim_round_def Let_def fst_conv snd_conv all none using pick_top[OF okB D] by simp
  have r2: "claim_round ((\<lambda>_. (0, 0))(el_ip D := (el_ip D, el_ip D))) ?B = (el_ip D, b)"
    using segment_unique(1)[OF okB _ DB] nz by (intro claim_round_steady[OF okB DB _ b]) auto
  have "el_ip D \<in> el_ip ` set ?B" "el_ip D \<noteq> 0" using DB nz by auto
  then show ?thesis using i unfolding elect_claim r1 by (auto simp: newly_def r2 Let_def)
qed

lemma elect_later:
  assumes ok: "segment_ok es" and D: "top_of (filter (\<lambda>e. el_priority e > 0) es) D"
    and b: "b = (case pick (filter (\<lambda>e. el_ip e \<noteq> el_ip D) (filter (\<lambda>e. el_priority e > 0) es)) of Some i \<Rightarrow> i | None \<Rightarrow> 0)"
    and c: "\<forall>i. fst (c i) = el_ip D \<and> (snd (c i) = b \<or> snd (c i) = el_ip D)"
  shows "elect (map (claim c) es) i = (el_ip D, b)"
proof -
  let ?B = "filter (\<lambda>e. el_priority e > 0) es"
  have okB: "segment_ok ?B" by (rule segment_ok_filter[OF ok])
  have DB: "D \<in> set ?B" using D by (simp add: top_of_def)
  have u: "el_ip e = el_ip D \<longleftrightarrow> e = D" if "e \<in> set ?B" for e by (rule segment_unique(1)[OF okB that DB])
  have steady: "claim_round c ?B = (el_ip D, b)" if cc: "\<forall>i. fst (c i) = el_ip D \<and> (snd (c i) = b \<or> snd (c i) = el_ip D)" for c
  proof (rule claim_round_steady[OF okB DB _ b]; intro ballI)
    fix e assume e: "e \<in> set ?B"
    have c: "fst (c (el_ip e)) = el_ip D" "snd (c (el_ip e)) = b \<or> snd (c (el_ip e)) = el_ip D" using cc by blast+
    show "fst (c (el_ip e)) = el_ip e \<longleftrightarrow> e = D" using c u[OF e] by auto
    show "e \<noteq> D \<and> snd (c (el_ip e)) = el_ip e \<longrightarrow> el_ip e = b" using c u[OF e] by auto
  qed
  have "el_ip D \<noteq> 0" using okB DB by (auto simp: segment_ok_def)
  moreover have "claim_round (c(i := (el_ip D, b))) ?B = (el_ip D, b)" using c by (intro steady) simp
  ultimately show ?thesis unfolding elect_claim steady[OF c] by simp
qed

text \<open>
  C8.  The election converges.  On a segment whose routers have distinct identifiers and distinct non-zero addresses and
  have not stated any claim, all routers agree after two exchanges of Hellos, and keep agreeing: the
  designated router is the eligible router with the highest priority and identifier, the backup is the
  next one, or none when there is no other eligible router.
\<close>

theorem election_converges:
  assumes "segment_ok es" and "\<forall>e \<in> set es. stated_dr e = 0 \<and> stated_bdr e = 0"
    and "top_of (filter (\<lambda>e. el_priority e > 0) es) D"
    and "b = (case pick (filter (\<lambda>e. el_ip e \<noteq> el_ip D) (filter (\<lambda>e. el_priority e > 0) es)) of Some i \<Rightarrow> i | None \<Rightarrow> 0)"
    and "n \<ge> 2"
  shows "\<forall>e \<in> set ((segment_step ^^ n) es). stated_dr e = el_ip D \<and> stated_bdr e = b"
proof -
  let ?c1 = "\<lambda>i. (el_ip D, if i = el_ip D then b else el_ip D)" and ?c2 = "\<lambda>i. (el_ip D, b)"
  have es: "map (claim (\<lambda>_. (0, 0))) es = es" using assms(2) by (intro map_idI) (simp add: claim_def)
  have nz: "\<forall>e \<in> set es. el_ip e \<noteq> 0" using assms(1) by (auto simp: segment_ok_def)
  have s1: "segment_step es = map (claim ?c1) es"
    using segment_step_claim[of es "\<lambda>_. (0, 0)" ?c1] elect_first[OF assms(1,3) _ assms(4)] nz by (simp only: es) blast
  have s2: "segment_step (map (claim ?c1) es) = map (claim ?c2) es"
    by (intro segment_step_claim ballI elect_later[OF assms(1,3,4)]) simp
  have s3: "segment_step (map (claim ?c2) es) = map (claim ?c2) es"
    by (intro segment_step_claim ballI elect_later[OF assms(1,3,4)]) simp
  have stay: "(segment_step ^^ k) (map (claim ?c2) es) = map (claim ?c2) es" for k
    by (induction k) (simp_all add: s3)
  obtain k where n: "n = k + 2" using assms(5) by (metis add.commute le_Suc_ex)
  have "(segment_step ^^ n) es = (segment_step ^^ k) ((segment_step ^^ 2) es)" by (simp only: n funpow_add comp_def)
  also have "(segment_step ^^ 2) es = segment_step (segment_step es)" by (simp add: numeral_2_eq_2)
  finally have "(segment_step ^^ n) es = (segment_step ^^ k) (segment_step (segment_step es))" .
  then show ?thesis by (auto simp: s1 s2 stay)
qed

definition example_elector :: "u32 \<Rightarrow> u8 \<Rightarrow> elector" where
  "example_elector i p = \<lparr>el_router_id = i, el_ip = 100 + i, el_priority = p, stated_dr = 0, stated_bdr = 0\<rparr>"

theorem election_converges_witness:
  "list_all (\<lambda>e. stated_dr e = 102 \<and> stated_bdr e = 101)
     ((segment_step ^^ 2) [example_elector 1 1, example_elector 2 1, example_elector 3 0])"
proof -
  let ?es = "[example_elector 1 1, example_elector 2 1, example_elector 3 0]"
  have ok: "segment_ok ?es" by (simp add: segment_ok_def example_elector_def)
  have zero: "\<forall>e \<in> set ?es. stated_dr e = 0 \<and> stated_bdr e = 0" by (simp add: example_elector_def)
  have D: "top_of (filter (\<lambda>e. el_priority e > 0) ?es) (example_elector 2 1)"
    by (simp add: top_of_def example_elector_def ekey_def)
  have b: "101 = (case pick (filter (\<lambda>e. el_ip e \<noteq> el_ip (example_elector 2 1)) (filter (\<lambda>e. el_priority e > 0) ?es)) of
      Some i \<Rightarrow> i | None \<Rightarrow> 0)"
    by (simp add: example_elector_def pick_def)
  show ?thesis unfolding list_all_iff using election_converges[OF ok zero D b, of 2] by (simp add: example_elector_def)
qed

section \<open>Agreement and safety of one election\<close>

definition claims_of :: "elector list \<Rightarrow> u32 \<Rightarrow> u32 \<times> u32" where
  "claims_of es i = (case find (\<lambda>e. el_ip e = i) es of Some e \<Rightarrow> (stated_dr e, stated_bdr e) | None \<Rightarrow> (0, 0))"

lemma claims_of_self:
  assumes "segment_ok es" "e \<in> set es"
  shows "claims_of es (el_ip e) = (stated_dr e, stated_bdr e)"
proof (cases "find (\<lambda>a. el_ip a = el_ip e) es")
  case None then show ?thesis using assms(2) by (auto simp: find_None_iff)
next
  case (Some a)
  then have "a = e" using find_in[OF Some] segment_unique(1)[OF assms(1) _ assms(2)] by blast
  with Some show ?thesis by (simp add: claims_of_def)
qed

lemma own_claims: "segment_ok es \<Longrightarrow> map (claim (claims_of es)) es = es"
  by (intro map_idI) (simp add: claim_def claims_of_self)

lemma claim_round_cong:
  assumes "segment_ok xs" "segment_ok ys" "set xs = set ys"
  shows "claim_round c xs = claim_round c ys"
proof -
  have "pick (filter P xs) = pick (filter P ys)" for P
    using assms by (intro pick_cong segment_ok_filter) auto
  then show ?thesis by (simp add: claim_round_def Let_def cong: option.case_cong)
qed

lemma elect_cong:
  assumes ok: "segment_ok es" "segment_ok es'" and eq: "set es = set es'"
  shows "elect es i = elect es' i"
proof -
  let ?B = "filter (\<lambda>e. el_priority e > 0) es" and ?B' = "filter (\<lambda>e. el_priority e > 0) es'"
  have es': "map (claim (claims_of es)) es' = es'"
    using eq by (intro map_idI) (simp add: claim_def claims_of_self[OF ok(1)])
  have r: "claim_round c ?B = claim_round c ?B'" for c
    using ok eq by (intro claim_round_cong segment_ok_filter) auto
  have s: "el_ip ` set ?B = el_ip ` set ?B'" using eq by simp
  have "elect (map (claim (claims_of es)) es) i = elect (map (claim (claims_of es)) es') i"
    unfolding elect_claim r s by (rule refl)
  then show ?thesis using own_claims[OF ok(1)] es' by simp
qed

text \<open>What a round can return.\<close>

lemma claim_round_cases:
  assumes r: "claim_round c B = (d, b)" and i: "i \<noteq> 0"
  shows "b = i \<Longrightarrow> i \<in> el_ip ` set B \<and> fst (c i) \<noteq> i"
    and "d = i \<Longrightarrow> (i \<in> el_ip ` set B \<and> fst (c i) = i) \<or> (b = i \<and> (\<forall>e \<in> set B. fst (c (el_ip e)) \<noteq> el_ip e))"
    and "(\<forall>e \<in> set B. fst (c (el_ip e)) \<noteq> el_ip e) \<Longrightarrow> d = b"
    and "e \<in> set B \<Longrightarrow> fst (c (el_ip e)) = el_ip e \<Longrightarrow> fst (c d) = d"
proof -
  let ?nd = "filter (\<lambda>e. fst (c (el_ip e)) \<noteq> el_ip e) B" and ?dd = "filter (\<lambda>e. fst (c (el_ip e)) = el_ip e) B"
  have b: "b = (case pick (filter (\<lambda>e. snd (c (el_ip e)) = el_ip e) ?nd) of
      Some i \<Rightarrow> i | None \<Rightarrow> (case pick ?nd of Some i \<Rightarrow> i | None \<Rightarrow> 0))"
    using r unfolding claim_round_def Let_def prod.inject by (elim conjE) (rule sym)
  have d: "d = (case pick ?dd of Some i \<Rightarrow> i | None \<Rightarrow> b)"
    unfolding b using r unfolding claim_round_def Let_def prod.inject by (elim conjE) (rule sym)
  have nd: "b \<in> el_ip ` set ?nd \<or> b = 0"
    using b pick_in by (auto split: option.splits dest!: pick_in)
  then show "b = i \<Longrightarrow> i \<in> el_ip ` set B \<and> fst (c i) \<noteq> i" using i by auto
  show none: "(\<forall>e \<in> set B. fst (c (el_ip e)) \<noteq> el_ip e) \<Longrightarrow> d = b"
    using d by (simp add: filter_empty_conv[THEN iffD2])
  show some: "fst (c d) = d" if "e \<in> set B" "fst (c (el_ip e)) = el_ip e" for e
  proof -
    have "?dd \<noteq> []" using that by (auto simp: filter_empty_conv)
    then obtain j where j: "pick ?dd = Some j" by (cases "pick ?dd") auto
    then have "d = j" "j \<in> el_ip ` set ?dd" using d pick_in[OF j] by auto
    then show ?thesis by auto
  qed
  show "d = i \<Longrightarrow> (i \<in> el_ip ` set B \<and> fst (c i) = i) \<or> (b = i \<and> (\<forall>e \<in> set B. fst (c (el_ip e)) \<noteq> el_ip e))"
  proof (cases "pick ?dd")
    case None
    then have "\<forall>e \<in> set B. fst (c (el_ip e)) \<noteq> el_ip e" by (simp add: filter_empty_conv)
    then show "d = i \<Longrightarrow> ?thesis" using none by auto
  next
    case (Some j)
    then have "d = j" "j \<in> el_ip ` set ?dd" using d pick_in[OF Some] by auto
    then show "d = i \<Longrightarrow> ?thesis" by auto
  qed
qed

lemma second_round_not_both:
  assumes r: "claim_round c B = (d, b)" and r2: "claim_round (c(i := (d, b))) B = (d2, b2)" and i: "i \<noteq> 0"
    and b2: "b2 = i" and d2: "d2 = i"
  shows False
proof -
  let ?c = "c(i := (d, b))"
  have d: "d \<noteq> i" using claim_round_cases(1)[OF r2 i b2] by simp
  then have none': "\<forall>e \<in> set B. fst (?c (el_ip e)) \<noteq> el_ip e" using claim_round_cases(2)[OF r2 i d2] by simp
  have none: "\<forall>e \<in> set B. fst (c (el_ip e)) \<noteq> el_ip e"
  proof (rule ccontr)
    assume "\<not> ?thesis"
    then obtain e where e: "e \<in> set B" "fst (c (el_ip e)) = el_ip e" by blast
    then have self: "el_ip e = i" using none' by (metis fun_upd_other)
    have "pick (filter (\<lambda>e. fst (c (el_ip e)) = el_ip e) B) = Some d"
      using r e by (auto simp: claim_round_def Let_def filter_empty_conv split: option.splits)
    then obtain a where "a \<in> set B" "fst (c (el_ip a)) = el_ip a" "d = el_ip a" using pick_in by fastforce
    then show False using none' d by (metis fun_upd_other)
  qed
  then have db: "d = b" by (rule claim_round_cases(3)[OF r i])
  have all: "filter (\<lambda>e. fst (?c (el_ip e)) \<noteq> el_ip e) B = B" "filter (\<lambda>e. fst (c (el_ip e)) \<noteq> el_ip e) B = B"
    using none none' by (simp_all add: filter_id_conv)
  let ?q = "filter (\<lambda>e. snd (c (el_ip e)) = el_ip e) B" and ?q' = "filter (\<lambda>e. snd (?c (el_ip e)) = el_ip e) B"
  have b: "b = (case pick ?q of Some j \<Rightarrow> j | None \<Rightarrow> (case pick B of Some j \<Rightarrow> j | None \<Rightarrow> 0))"
    using r unfolding claim_round_def Let_def all by (simp add: prod_eq_iff)
  have b': "b2 = (case pick ?q' of Some j \<Rightarrow> j | None \<Rightarrow> (case pick B of Some j \<Rightarrow> j | None \<Rightarrow> 0))"
    using r2 unfolding claim_round_def Let_def all by (simp add: prod_eq_iff)
  have "snd (?c i) \<noteq> i" using d db by simp
  then have notself: "i \<notin> el_ip ` set ?q'" by auto
  then have empty: "?q' = []" using b' b2 pick_in[of ?q'] by (cases "pick ?q'") auto
  show False
  proof (cases "?q = []")
    case True
    then show False using b b' empty b2 d db by simp
  next
    case False
    then obtain j where j: "pick ?q = Some j" by (cases "pick ?q") auto
    then obtain e where "e \<in> set B" "snd (c (el_ip e)) = el_ip e" "j = el_ip e" using pick_in[OF j] by auto
    moreover have "j = b" using b j by simp
    ultimately have "e \<in> set ?q'" using d db by auto
    with empty show False by simp
  qed
qed

lemma elect_not_both:
  assumes "segment_ok es" and "self \<noteq> 0"
  shows "elect es self \<noteq> (self, self)"
proof -
  let ?B = "filter (\<lambda>e. el_priority e > 0) es" and ?c = "claims_of es"
  obtain d b where r: "claim_round ?c ?B = (d, b)" by fastforce
  obtain d2 b2 where r2: "claim_round (?c(self := (d, b))) ?B = (d2, b2)" by fastforce
  have e: "elect es self =
      (if self \<in> el_ip ` set ?B \<and> (newly self (fst (?c self)) d \<or> newly self (snd (?c self)) b)
       then (if d2 = 0 then b2 else d2, b2) else (d, b))"
    using elect_claim[of ?c es self] assms(2)
    unfolding own_claims[OF assms(1)] r Let_def prod.case r2 by (simp only: simp_thms not_False_eq_True)
  show ?thesis
  proof
    assume both: "elect es self = (self, self)"
    show False
    proof (cases "self \<in> el_ip ` set ?B \<and> (newly self (fst (?c self)) d \<or> newly self (snd (?c self)) b)")
      case True
      then have "b2 = self" "(if d2 = 0 then b2 else d2) = self" using both e by simp_all
      moreover have "d2 \<noteq> 0 \<or> d2 = b2"
      proof (cases "\<forall>e \<in> set ?B. fst ((?c(self := (d, b))) (el_ip e)) \<noteq> el_ip e")
        case True then show ?thesis using claim_round_cases(3)[OF r2 assms(2)] by blast
      next
        case False
        have nz: "0 \<notin> el_ip ` set ?B" using assms(1) by (auto simp: segment_ok_def)
        have "pick (filter (\<lambda>e. fst ((?c(self := (d, b))) (el_ip e)) = el_ip e) ?B) = Some d2"
          using r2 False by (auto simp: claim_round_def Let_def filter_empty_conv simp del: fun_upd_apply filter_filter split: option.splits)
        then have "d2 \<in> el_ip ` set ?B" using pick_in by fastforce
        then show ?thesis using nz by metis
      qed
      ultimately have "b2 = self" "d2 = self" by (auto split: if_splits)
      then show False by (rule second_round_not_both[OF r r2 assms(2)])
    next
      case False
      then have "d = self" "b = self" using both e by auto
      then have "self \<in> el_ip ` set ?B" "fst (?c self) \<noteq> self" using claim_round_cases(1)[OF r assms(2)] by blast+
      then show False using False \<open>d = self\<close> by (simp add: newly_def)
    qed
  qed
qed

text \<open>
  C23.  On a segment with distinct identifiers and distinct non-zero addresses the election does not depend on the order
  in which the routers are listed, and no router elects itself both designated router and backup.
\<close>

theorem elect_safe:
  assumes "segment_ok es" and "self \<noteq> 0"
  shows "(\<forall>es'. segment_ok es' \<and> set es' = set es \<longrightarrow> elect es' self = elect es self) \<and> elect es self \<noteq> (self, self)"
proof -
  show ?thesis using elect_cong[OF _ assms(1)] elect_not_both[OF assms] by blast
qed

theorem elect_safe_witness:
  "elect [example_elector 1 1, example_elector 2 1] 102 = (102, 101) \<and>
   elect [example_elector 2 1, example_elector 1 1] 102 = elect [example_elector 1 1, example_elector 2 1] 102"
proof -
  have ok: "segment_ok [example_elector 1 1, example_elector 2 1]" "segment_ok [example_elector 2 1, example_elector 1 1]"
    by (simp_all add: segment_ok_def example_elector_def)
  have "elect [example_elector 1 1, example_elector 2 1] 102 = (102, 101)" by code_simp
  moreover have "elect [example_elector 2 1, example_elector 1 1] 102 = elect [example_elector 1 1, example_elector 2 1] 102"
    using elect_safe[OF ok(1), of 102] ok(2) by (simp add: insert_commute)
  ultimately show ?thesis by blast
qed

section \<open>State machines\<close>

text \<open>
  After a change of neighbours the role of an interface follows the election: it is the designated
  router exactly when its own address was elected, the backup exactly when its address was elected
  backup, and it reports a change of state exactly when the role changed.
\<close>

theorem interface_role:
  assumes "segment_ok (es @ [self_elector i])" and "interface_step (NeighborChange es) i = (i', out)"
  shows "(if_dr i', if_bdr i') = elect (es @ [self_elector i]) (if_ip i) \<and>
    (if_state i' = Dr \<longleftrightarrow> if_ip i = if_dr i') \<and> (if_state i' = Backup \<longleftrightarrow> if_ip i = if_bdr i') \<and>
    out = (if if_state i' = if_state i then [] else [if_state i'])"
proof -
  obtain d b where e: "elect (es @ [self_elector i]) (if_ip i) = (d, b)" by fastforce
  have nz: "if_ip i \<noteq> 0" using assms(1) by (auto simp: segment_ok_def self_elector_def)
  have "(d, b) \<noteq> (if_ip i, if_ip i)" using elect_not_both[OF assms(1) nz] e by simp
  then show ?thesis using assms(2) e nz by (auto simp: interface_step_def Let_def split: if_splits)
qed

definition example_interface :: ospf_interface where
  "example_interface = (ospf_interface_new 0)\<lparr>if_state := DrOther, if_router_id := 2, if_ip := 102\<rparr>"

theorem interface_role_witness:
  "if_state (fst (interface_step (NeighborChange [example_elector 1 1]) example_interface)) = Dr"
proof -
  have ok: "segment_ok ([example_elector 1 1] @ [self_elector example_interface])"
    by (simp add: segment_ok_def example_elector_def self_elector_def example_interface_def ospf_interface_new_def)
  have "if_dr (fst (interface_step (NeighborChange [example_elector 1 1]) example_interface)) = if_ip example_interface"
    by code_simp
  then show ?thesis
    using interface_role[OF ok, of "fst (interface_step (NeighborChange [example_elector 1 1]) example_interface)"
        "snd (interface_step (NeighborChange [example_elector 1 1]) example_interface)"] by simp
qed

text \<open>An interface that is down leaves that state when its neighbours change.\<close>

theorem down_interface_elects:
  "if_state (fst (interface_step (NeighborChange es) i)) \<in> {Dr, Backup, DrOther}"
  by (auto simp: interface_step_def Let_def split: prod.split)

definition neighbor_run :: "neighbor_event list \<Rightarrow> ospf_neighbor \<Rightarrow> ospf_neighbor" where
  "neighbor_run evs n = fold (\<lambda>ev n. fst (neighbor_step ev n)) evs n"

text \<open>Events that satisfy the given predicates, one after the other.\<close>

fun in_order :: "('a \<Rightarrow> bool) list \<Rightarrow> 'a list \<Rightarrow> bool" where
  "in_order [] xs = True"
| "in_order (p # ps) [] = False"
| "in_order (p # ps) (x # xs) = (if p x then in_order ps xs else in_order (p # ps) xs)"

lemma in_order_later: "in_order ps xs \<Longrightarrow> in_order ps (xs @ [x])"
  by (induction ps xs rule: in_order.induct) (auto split: if_splits)

lemma in_order_snoc: "in_order ps xs \<Longrightarrow> p x \<Longrightarrow> in_order (ps @ [p]) (xs @ [x])"
proof (induction ps xs rule: in_order.induct)
  case (1 xs) then show ?case by (induction xs) auto
qed (auto split: if_splits)

fun hello_event :: "neighbor_event \<Rightarrow> bool" where
  "hello_event (HelloSeen _ _ _) = True"
| "hello_event _ = False"

definition milestones :: "(neighbor_event \<Rightarrow> bool) list" where
  "milestones =
     [hello_event, hello_event, \<lambda>e. e = AdjOk True, \<lambda>e. e = NegotiationDone, \<lambda>e. e = ExchangeDone,
      \<lambda>e. e = LsaUpdateArrived \<or> e = ExchangeDone]"

fun progress :: "neighbor_state \<Rightarrow> nat" where
  "progress NDown = 0"
| "progress NAttempt = 0"
| "progress NInit = 1"
| "progress TwoWay = 2"
| "progress ExStart = 3"
| "progress Exchange = 4"
| "progress Loading = 5"
| "progress Full = 6"

lemma progress_step:
  assumes "ev \<noteq> SeqMismatch" "ev \<noteq> BadLsa" "neighbor_next rid s ev = (s', acts)"
  shows "progress s' \<le> progress s \<or> (progress s' = Suc (progress s) \<and> progress s < 6 \<and> (milestones ! progress s) ev)"
  using assms by (cases "(rid, s, ev)" rule: neighbor_next.cases) (auto simp: milestones_def)

lemma in_order_prefix: "in_order (ps @ qs) xs \<Longrightarrow> in_order ps xs"
  by (induction "ps @ qs" xs arbitrary: ps rule: in_order.induct) (auto simp: Cons_eq_append_conv append_eq_Cons_conv split: if_splits)

lemma in_order_take: "in_order (take m ps) xs \<Longrightarrow> k \<le> m \<Longrightarrow> in_order (take k ps) xs"
  by (metis in_order_prefix le_Suc_ex take_add)

lemma run_milestones:
  assumes "SeqMismatch \<notin> set evs" "BadLsa \<notin> set evs"
  shows "in_order (take (progress (nbr_state (neighbor_run evs (ospf_neighbor_new rid)))) milestones) evs"
  using assms
proof (induction evs rule: rev_induct)
  case Nil show ?case by (simp add: neighbor_run_def ospf_neighbor_new_def)
next
  case (snoc ev evs)
  let ?n = "neighbor_run evs (ospf_neighbor_new rid)"
  obtain s' acts where s: "neighbor_next (nbr_router_id ?n) (nbr_state ?n) ev = (s', acts)" by fastforce
  have st: "nbr_state (neighbor_run (evs @ [ev]) (ospf_neighbor_new rid)) = s'"
    using s by (simp add: neighbor_run_def neighbor_step_def)
  have IH: "in_order (take (progress (nbr_state ?n)) milestones) evs" using snoc by simp
  have six: "length milestones = 6" by (simp add: milestones_def)
  from progress_step[OF _ _ s] snoc.prems
  consider "progress s' \<le> progress (nbr_state ?n)"
    | "progress s' = Suc (progress (nbr_state ?n))" "progress (nbr_state ?n) < 6" "(milestones ! progress (nbr_state ?n)) ev"
    by fastforce
  then show ?case
  proof cases
    case 1 then show ?thesis unfolding st by (intro in_order_later in_order_take[OF IH])
  next
    case 2
    then show ?thesis unfolding st 2(1)
      using in_order_snoc[OF IH, of "milestones ! progress (nbr_state ?n)" ev] by (simp add: take_Suc_conv_app_nth six)
  qed
qed

text \<open>
  A neighbour that has not suffered a sequence mismatch or a bad LSA becomes Full only after two
  Hellos, a positive adjacency decision, the negotiation, the exchange and a final update, in that order.
\<close>

theorem full_needs_exchange:
  assumes "SeqMismatch \<notin> set evs" and "BadLsa \<notin> set evs"
    and "nbr_state (neighbor_run evs (ospf_neighbor_new rid)) = Full"
  shows "in_order milestones evs"
  using run_milestones[OF assms(1,2), of rid] assms(3) by (simp add: milestones_def)

theorem full_needs_exchange_witness:
  "in_order milestones [HelloSeen 0 0 1, HelloSeen 0 0 1, AdjOk True, NegotiationDone, ExchangeDone, LsaUpdateArrived]"
  by (rule full_needs_exchange[of _ 1])
    (simp_all add: neighbor_run_def neighbor_step_def ospf_neighbor_new_def record_hello_def)

text \<open>
  A sequence mismatch reported for a neighbour that is down starts the adjacency, so that it becomes
  Full without a single Hello.
\<close>

theorem mismatch_skips_hello:
  "nbr_state (neighbor_run [SeqMismatch, NegotiationDone, ExchangeDone, LsaUpdateArrived] (ospf_neighbor_new rid)) = Full"
  by (simp add: neighbor_run_def neighbor_step_def ospf_neighbor_new_def record_hello_def)

end
