(* ===== verification/LR_Policy.thy ===== *)
theory LR_Policy
  imports LR_PathAttr
begin

text \<open>
  Routing policy, \<open>crates/lr-policy/src\<close>: prefix lists (\<open>prefix_list.rs\<close>), community lists
  (\<open>community_list.rs\<close>), AS-path filters (\<open>as_path_filter.rs\<close>), the typed attribute accessors (\<open>bgp.rs\<close>),
  match conditions and set actions (\<open>action.rs\<close>), route maps (\<open>route_map.rs\<close>) and policy chains (\<open>policy.rs\<close>).
  The compile-time feature \<open>bgp\<close> is an argument of the definitions that depend on it.
\<close>

section \<open>Prefix lists\<close>

record prefix_list_entry =
  ple_prefix :: prefix
  ple_ge :: u8
  ple_le :: u8
  ple_permit :: bool

definition prefix_list_entry_new :: "prefix \<Rightarrow> bool \<Rightarrow> prefix_list_entry" where
  "prefix_list_entry_new p b = \<lparr>ple_prefix = p, ple_ge = prefix_len p, ple_le = 255, ple_permit = b\<rparr>"

definition entry_matches :: "prefix_list_entry \<Rightarrow> prefix \<Rightarrow> bool" where
  "entry_matches e p =
     (if \<not> contains_prefix (ple_prefix e) p then False
      else if prefix_len p < ple_ge e \<or> prefix_len p > ple_le e then False
      else True)"

fun prefix_list_evaluate :: "prefix_list_entry list \<Rightarrow> prefix \<Rightarrow> bool" where
  "prefix_list_evaluate [] p = False"
| "prefix_list_evaluate (e # es) p = (if entry_matches e p then ple_permit e else prefix_list_evaluate es p)"

type_synonym prefix_list_bank = "(u32, prefix_list_entry list) btree"

definition prefix_bank_add :: "u32 \<Rightarrow> prefix_list_entry list \<Rightarrow> prefix_list_bank \<Rightarrow> prefix_list_bank" where
  "prefix_bank_add i l b = bt_put i l b"

definition prefix_bank_evaluate :: "prefix_list_bank \<Rightarrow> u32 \<Rightarrow> prefix \<Rightarrow> bool" where
  "prefix_bank_evaluate b i p = (case bt_get b i of Some l \<Rightarrow> prefix_list_evaluate l p | None \<Rightarrow> False)"

section \<open>Attribute access\<close>

definition attr_bytes :: "route \<Rightarrow> u8 \<Rightarrow> bytes option" where
  "attr_bytes r t = map_option attr_value (attrs_get (attributes r) t)"

definition rt_communities :: "route \<Rightarrow> community list" where
  "rt_communities r = (case attr_bytes r 8 of Some b \<Rightarrow> community_decode_set b | None \<Rightarrow> [])"

definition rt_ext_communities :: "route \<Rightarrow> extended_community list" where
  "rt_ext_communities r = (case attr_bytes r 16 of Some b \<Rightarrow> extended_decode_set b | None \<Rightarrow> [])"

definition rt_large_communities :: "route \<Rightarrow> large_community list" where
  "rt_large_communities r = (case attr_bytes r 32 of Some b \<Rightarrow> large_decode_set b | None \<Rightarrow> [])"

definition rt_as_path :: "route \<Rightarrow> as_path option" where
  "rt_as_path r = Option.bind (attr_bytes r 2) decode_4"

definition rt_med :: "route \<Rightarrow> u32 option" where
  "rt_med r = attrs_get_u32_be (attributes r) 4"

definition rt_local_pref :: "route \<Rightarrow> u32 option" where
  "rt_local_pref r = attrs_get_u32_be (attributes r) 5"

definition rt_otc :: "route \<Rightarrow> u32 option" where
  "rt_otc r = attrs_get_u32_be (attributes r) 35"

definition rt_as_sequence :: "route \<Rightarrow> u32 list" where
  "rt_as_sequence r = (case rt_as_path r of Some p \<Rightarrow> as_sequence p | None \<Rightarrow> [])"

definition rt_put :: "u8 \<Rightarrow> u8 \<Rightarrow> bytes \<Rightarrow> route \<Rightarrow> route" where
  "rt_put t fl v r =
     r\<lparr>attributes := attrs_insert \<lparr>attr_tag = t, attr_flags = fl, attr_value = v\<rparr> (attributes r)\<rparr>"

definition rt_set_med :: "u32 \<Rightarrow> route \<Rightarrow> route" where
  "rt_set_med v r = rt_put 4 0x80 (to_be_bytes 4 v) r"

definition rt_set_local_pref :: "u32 \<Rightarrow> route \<Rightarrow> route" where
  "rt_set_local_pref v r = rt_put 5 0x40 (to_be_bytes 4 v) r"

definition rt_prepend_as :: "u32 \<Rightarrow> route \<Rightarrow> route" where
  "rt_prepend_as a r =
     (let p = (case rt_as_path r of Some p \<Rightarrow> p | None \<Rightarrow> []) in rt_put 2 0x40 (encode_4 (prepend a p)) r)"

definition rt_add_community :: "community \<Rightarrow> route \<Rightarrow> route" where
  "rt_add_community c r =
     (let cs = rt_communities r
      in if c \<in> set cs then r else rt_put 8 0xC0 (community_encode_set (cs @ [c])) r)"

definition rt_set_communities :: "community list \<Rightarrow> route \<Rightarrow> route" where
  "rt_set_communities cs r =
     (if cs = [] then r\<lparr>attributes := attrs_remove 8 (attributes r)\<rparr> else rt_put 8 0xC0 (community_encode_set cs) r)"

definition rt_remove_community :: "community \<Rightarrow> route \<Rightarrow> route" where
  "rt_remove_community c r = rt_set_communities (filter (\<lambda>d. d \<noteq> c) (rt_communities r)) r"

definition rt_set_as_sequence :: "u32 list \<Rightarrow> route \<Rightarrow> route" where
  "rt_set_as_sequence as r =
     (if as = [] then r\<lparr>attributes := attrs_remove 2 (attributes r)\<rparr> else rt_put 2 0x40 (encode_4 (from_sequence as)) r)"

definition rt_set_large_communities :: "large_community list \<Rightarrow> route \<Rightarrow> route" where
  "rt_set_large_communities cs r =
     (if cs = [] then r\<lparr>attributes := attrs_remove 32 (attributes r)\<rparr> else rt_put 32 0xC0 (large_encode_set cs) r)"

definition rt_add_large_community :: "large_community \<Rightarrow> route \<Rightarrow> route" where
  "rt_add_large_community c r =
     (let cs = rt_large_communities r in if c \<in> set cs then r else rt_set_large_communities (cs @ [c]) r)"

definition rt_set_ext_communities :: "extended_community list \<Rightarrow> route \<Rightarrow> route" where
  "rt_set_ext_communities cs r =
     (if cs = [] then r\<lparr>attributes := attrs_remove 16 (attributes r)\<rparr> else rt_put 16 0xC0 (extended_encode_set cs) r)"

definition rt_add_ext_community :: "extended_community \<Rightarrow> route \<Rightarrow> route" where
  "rt_add_ext_community c r =
     (let cs = rt_ext_communities r in if c \<in> set cs then r else rt_set_ext_communities (cs @ [c]) r)"

section \<open>Community lists\<close>

record community_list_entry =
  cle_communities :: "u32 list"
  cle_permit :: bool

fun community_entries :: "community_list_entry list \<Rightarrow> community list \<Rightarrow> bool" where
  "community_entries [] cs = False"
| "community_entries (e # es) cs =
     (if list_ex (\<lambda>c. c \<in> set cs) (cle_communities e) then cle_permit e else community_entries es cs)"

definition community_list_evaluate :: "bool \<Rightarrow> community_list_entry list \<Rightarrow> route \<Rightarrow> bool" where
  "community_list_evaluate bgp es r =
     (if \<not> bgp then False
      else let cs = rt_communities r in if cs = [] then False else community_entries es cs)"

definition community_bank_evaluate :: "bool \<Rightarrow> community_list_entry list list \<Rightarrow> u32 \<Rightarrow> route \<Rightarrow> bool" where
  "community_bank_evaluate bgp b i r =
     (if unat i < length b then community_list_evaluate bgp (b ! unat i) r else False)"

section \<open>AS-path filters\<close>

datatype tok = Lit string | Bound | Start | End

definition push_lit :: "string \<Rightarrow> tok list \<Rightarrow> tok list" where
  "push_lit lit toks = (if lit \<noteq> [] then toks @ [Lit lit] else toks)"

fun compile_loop :: "string \<Rightarrow> tok list \<Rightarrow> string \<Rightarrow> tok list" where
  "compile_loop [] toks lit = push_lit lit toks"
| "compile_loop (c # cs) toks lit =
     (if c = CHR ''_'' then compile_loop cs (push_lit lit toks @ [Bound]) []
      else if c = CHR ''^'' \<or> c = CHR ''$'' then
        compile_loop cs (push_lit lit toks @ [if c = CHR ''^'' then Start else End]) []
      else compile_loop cs toks (lit @ [c]))"

definition compile :: "string \<Rightarrow> tok list" where
  "compile pat = compile_loop pat [] []"

fun match_from :: "tok list \<Rightarrow> string \<Rightarrow> nat \<Rightarrow> nat option" where
  "match_from [] s pos = Some pos"
| "match_from (Lit l # rest) s pos =
     (if length s \<ge> pos + length l \<and> take (length l) (drop pos s) = l then match_from rest s (pos + length l) else None)"
| "match_from (Bound # rest) s pos =
     (if pos = 0 \<or> pos = length s then match_from rest s pos
      else if pos < length s \<and> s ! pos = CHR '' '' then match_from rest s (pos + 1)
      else None)"
| "match_from (Start # rest) s pos = (if pos = 0 then match_from rest s pos else None)"
| "match_from (End # rest) s pos = (if pos = length s then match_from rest s pos else None)"

definition search :: "tok list \<Rightarrow> string \<Rightarrow> bool" where
  "search toks s = list_ex (\<lambda>start. match_from toks s start \<noteq> None) [0..<length s + 1]"

text \<open>\<open>u32::to_string\<close> and \<open>join(" ")\<close>.\<close>

fun show_nat :: "nat \<Rightarrow> string" where
  "show_nat n = (if n < 10 then [digit n] else show_nat (n div 10) @ [digit (n mod 10)])"

declare show_nat.simps [simp del]

fun join_space :: "string list \<Rightarrow> string" where
  "join_space [] = []"
| "join_space [w] = w"
| "join_space (w # ws) = w @ CHR '' '' # join_space ws"

definition show_path :: "u32 list \<Rightarrow> string" where
  "show_path path = join_space (map (\<lambda>a. show_nat (unat a)) path)"

definition pattern_matches :: "string \<Rightarrow> u32 list \<Rightarrow> bool" where
  "pattern_matches pat path = search (compile pat) (show_path path)"

record as_path_filter =
  apf_pattern :: string
  apf_permit :: bool

fun as_path_filters :: "as_path_filter list \<Rightarrow> u32 list \<Rightarrow> bool" where
  "as_path_filters [] path = False"
| "as_path_filters (f # fs) path = (if pattern_matches (apf_pattern f) path then apf_permit f else as_path_filters fs path)"

definition as_path_bank_evaluate :: "bool \<Rightarrow> as_path_filter list list \<Rightarrow> u32 \<Rightarrow> route \<Rightarrow> bool" where
  "as_path_bank_evaluate bgp b i r =
     (if \<not> bgp then False
      else if unat i < length b then as_path_filters (b ! unat i) (rt_as_sequence r) else False)"

section \<open>Conditions and actions\<close>

datatype match_condition =
  PrefixIn u32 | AsPathIn u32 | CommunityIn u32 | ProtocolIs u8 | NextHopIn u32

datatype set_action =
  SetLocalPref u32 | SetMed u32 | SetNextHop ip_addr | PrependAs u32 | AddCommunity u32 u16 | SetMetric u32 | SetTag u32

record match_resolver =
  prefix_in :: "u32 \<Rightarrow> prefix \<Rightarrow> bool"
  as_path_in :: "u32 \<Rightarrow> route \<Rightarrow> bool"
  community_in :: "u32 \<Rightarrow> route \<Rightarrow> bool"
  next_hop_in :: "u32 \<Rightarrow> route \<Rightarrow> bool"

fun proto_id :: "protocol \<Rightarrow> u8" where
  "proto_id Bgp = 1"
| "proto_id Ospfv2 = 2"
| "proto_id Ospfv3 = 3"
| "proto_id Babel = 4"
| "proto_id Static = 5"
| "proto_id Connected = 6"
| "proto_id (Other _) = 0xff"

fun evaluate_match :: "match_condition \<Rightarrow> route \<Rightarrow> match_resolver \<Rightarrow> bool" where
  "evaluate_match (PrefixIn i) r res = prefix_in res i (case key r of RouteKey p _ _ \<Rightarrow> p)"
| "evaluate_match (AsPathIn i) r res = as_path_in res i r"
| "evaluate_match (CommunityIn i) r res = community_in res i r"
| "evaluate_match (ProtocolIs p) r res = (proto_id (route_protocol r) = p)"
| "evaluate_match (NextHopIn i) r res = next_hop_in res i r"

datatype apply_set_error = RequiresBgpFeature string

fun action_name :: "set_action \<Rightarrow> string" where
  "action_name (SetLocalPref _) = ''SetLocalPref''"
| "action_name (SetMed _) = ''SetMed''"
| "action_name (SetNextHop _) = ''SetNextHop''"
| "action_name (PrependAs _) = ''PrependAs''"
| "action_name (AddCommunity _ _) = ''AddCommunity''"
| "action_name (SetMetric _) = ''SetMetric''"
| "action_name (SetTag _) = ''SetTag''"

fun apply_set_checked :: "bool \<Rightarrow> set_action \<Rightarrow> route \<Rightarrow> apply_set_error + route" where
  "apply_set_checked bgp (SetLocalPref v) r =
     (if bgp then Inr (rt_set_local_pref v r) else Inl (RequiresBgpFeature (action_name (SetLocalPref v))))"
| "apply_set_checked bgp (SetMed v) r =
     (if bgp then Inr (rt_set_med v r) else Inl (RequiresBgpFeature (action_name (SetMed v))))"
| "apply_set_checked bgp (SetNextHop ip) r = Inr (r\<lparr>next_hop := Some ip\<rparr>)"
| "apply_set_checked bgp (PrependAs a) r =
     (if bgp then Inr (rt_prepend_as a r) else Inl (RequiresBgpFeature (action_name (PrependAs a))))"
| "apply_set_checked bgp (AddCommunity a l) r =
     (if bgp then Inr (if a \<le> 0xffff then rt_add_community (community_new (ucast a) l) r else r)
      else Inl (RequiresBgpFeature (action_name (AddCommunity a l))))"
| "apply_set_checked bgp (SetMetric v) r = Inr (r\<lparr>preference := (preference r)\<lparr>metric := v\<rparr>\<rparr>)"
| "apply_set_checked bgp (SetTag v) r = Inr (r\<lparr>tag := Some v\<rparr>)"

definition apply_set :: "bool \<Rightarrow> set_action \<Rightarrow> route \<Rightarrow> route" where
  "apply_set bgp a r = (case apply_set_checked bgp a r of Inr r' \<Rightarrow> r' | Inl _ \<Rightarrow> r)"

section \<open>Route maps and chains\<close>

record route_map_entry =
  rme_matches :: "match_condition list"
  rme_sets :: "set_action list"
  rme_verdict :: "bool option"

text \<open>The set actions of one entry; the flag tells whether all of them could be applied.\<close>

fun apply_sets :: "bool \<Rightarrow> set_action list \<Rightarrow> route \<Rightarrow> route \<times> bool" where
  "apply_sets bgp [] r = (r, True)"
| "apply_sets bgp (a # as) r =
     (case apply_set_checked bgp a r of Inl _ \<Rightarrow> (r, False) | Inr r' \<Rightarrow> apply_sets bgp as r')"

fun route_map_evaluate :: "bool \<Rightarrow> match_resolver \<Rightarrow> route_map_entry list \<Rightarrow> route \<Rightarrow> route \<times> bool option" where
  "route_map_evaluate bgp res [] r = (r, None)"
| "route_map_evaluate bgp res (e # es) r =
     (if \<not> list_all (\<lambda>m. evaluate_match m r res) (rme_matches e) then route_map_evaluate bgp res es r
      else case apply_sets bgp (rme_sets e) r of
        (r', False) \<Rightarrow> (r', Some False)
      | (r', True) \<Rightarrow> (case rme_verdict e of Some v \<Rightarrow> (r', Some v) | None \<Rightarrow> route_map_evaluate bgp res es r'))"

datatype policy_verdict = Accept | Reject | Continue

fun chain_evaluate :: "bool \<Rightarrow> match_resolver \<Rightarrow> route_map_entry list list \<Rightarrow> route \<Rightarrow> route \<times> policy_verdict" where
  "chain_evaluate bgp res [] r = (r, Continue)"
| "chain_evaluate bgp res (m # ms) r =
     (case route_map_evaluate bgp res m r of
        (r', Some True) \<Rightarrow> (r', Accept)
      | (r', Some False) \<Rightarrow> (r', Reject)
      | (r', None) \<Rightarrow> chain_evaluate bgp res ms r')"

section \<open>What the patterns mean\<close>

subsection \<open>Numbers as words without spaces\<close>

definition word_ok :: "string \<Rightarrow> bool" where
  "word_ok w \<longleftrightarrow> w \<noteq> [] \<and> (\<forall>c \<in> set w. is_ascii_digit c)"

lemma digit_no_special: "is_ascii_digit c \<Longrightarrow> c \<noteq> CHR '' '' \<and> c \<noteq> CHR ''_'' \<and> c \<noteq> CHR ''^'' \<and> c \<noteq> CHR ''$''"
  by (auto simp: is_ascii_digit_def)

lemma show_nat_ok: "word_ok (show_nat n)"
proof (induction n rule: show_nat.induct)
  case (1 n)
  then show ?case by (subst show_nat.simps) (auto simp: word_ok_def digit_simps)
qed

definition read_digits :: "string \<Rightarrow> nat" where
  "read_digits = foldl (\<lambda>v c. 10 * v + (of_char c - 48)) 0"

lemma read_digits_snoc: "d < 10 \<Longrightarrow> read_digits (w @ [digit d]) = 10 * read_digits w + d"
  by (simp only: read_digits_def foldl_append foldl.simps digit_simps)

lemma show_nat_less: "n < 10 \<Longrightarrow> show_nat n = [digit n]"
  by (subst show_nat.simps) simp

lemma show_nat_ge: "\<not> n < 10 \<Longrightarrow> show_nat n = show_nat (n div 10) @ [digit (n mod 10)]"
  by (subst show_nat.simps) simp

lemma read_show: "read_digits (show_nat n) = n"
proof (induction n rule: less_induct)
  case (less n)
  show ?case
  proof (cases "n < 10")
    case True
    have "read_digits ([] @ [digit n]) = 10 * read_digits [] + n" by (rule read_digits_snoc[OF True])
    then show ?thesis by (simp add: show_nat_less[OF True] read_digits_def)
  next
    case False
    then have IH: "read_digits (show_nat (n div 10)) = n div 10" by (intro less) simp
    have "read_digits (show_nat n) = 10 * read_digits (show_nat (n div 10)) + n mod 10"
      unfolding show_nat_ge[OF False] by (rule read_digits_snoc) simp
    then show ?thesis unfolding IH by simp
  qed
qed

lemma show_nat_inj: "show_nat m = show_nat n \<longleftrightarrow> m = n"
  by (metis read_show)

subsection \<open>Words in a joined string\<close>

definition left_edge :: "string \<Rightarrow> bool" where
  "left_edge u \<longleftrightarrow> u = [] \<or> (\<exists>u'. u' \<noteq> [] \<and> u = u' @ [CHR '' ''])"

definition right_edge :: "string \<Rightarrow> bool" where
  "right_edge v \<longleftrightarrow> v = [] \<or> (\<exists>v'. v = CHR '' '' # v')"

lemma first_space:
  assumes "CHR '' '' \<notin> set x" and "a @ CHR '' '' # b = x @ CHR '' '' # J"
  shows "a = x \<and> b = J \<or> (\<exists>a'. a = x @ CHR '' '' # a' \<and> J = a' @ CHR '' '' # b)"
  using assms
proof (induction x arbitrary: a)
  case Nil then show ?case by (cases a) auto
next
  case (Cons c x) then show ?case by (cases a) auto
qed

lemma word_ok_space: "word_ok w \<Longrightarrow> CHR '' '' \<notin> set w"
  using digit_no_special by (auto simp: word_ok_def)

lemma join_not_space:
  assumes "\<forall>w \<in> set W. word_ok w" shows "join_space W \<noteq> CHR '' '' # z"
  using assms by (cases W rule: join_space.cases) (auto simp: word_ok_def is_ascii_digit_def Cons_eq_append_conv append_eq_Cons_conv)

lemma edge_step:
  assumes u: "left_edge u" and w: "word_ok w" and x: "word_ok x" and W: "\<forall>w \<in> set W. word_ok w"
    and eq: "x @ CHR '' '' # join_space W = u @ w @ v"
  shows "u = [] \<or> (\<exists>u'. left_edge u' \<and> join_space W = u' @ w @ v)"
proof (cases "u = []")
  case False
  then obtain u' where u': "u' \<noteq> []" "u = u' @ [CHR '' '']" using u by (auto simp: left_edge_def)
  then have "u' @ CHR '' '' # (w @ v) = x @ CHR '' '' # join_space W" using eq by simp
  from first_space[OF word_ok_space[OF x] this] show ?thesis
  proof (elim disjE exE conjE)
    assume "u' = x" "w @ v = join_space W"
    then show ?thesis by (intro disjI2 exI[of _ "[]"]) (simp add: left_edge_def)
  next
    fix a' assume a': "join_space W = a' @ CHR '' '' # w @ v"
    then have "a' \<noteq> []" using join_not_space[OF W, of "w @ v"] by auto
    then show ?thesis using a' by (intro disjI2 exI[of _ "a' @ [CHR '' '']"]) (auto simp: left_edge_def)
  qed
qed simp

lemma left_edge_Cons: "word_ok x \<Longrightarrow> left_edge u \<Longrightarrow> left_edge (x @ CHR '' '' # u)"
  by (auto simp: left_edge_def word_ok_def)

lemma word_at_front:
  assumes "word_ok w" and "\<forall>w \<in> set W. word_ok w"
  shows "(\<exists>v. right_edge v \<and> join_space W = w @ v) \<longleftrightarrow> W \<noteq> [] \<and> hd W = w"
proof (cases W rule: join_space.cases)
  case (2 x)
  then have "CHR '' '' \<notin> set x" using assms word_ok_space by simp
  then show ?thesis using 2 by (auto simp: right_edge_def)
next
  case (3 x y ys)
  then have x: "CHR '' '' \<notin> set x" and w: "CHR '' '' \<notin> set w" using assms word_ok_space by auto
  have "w = x" if v: "right_edge v" and eq: "x @ CHR '' '' # join_space (y # ys) = w @ v" for v
  proof -
    have "v \<noteq> []" using eq w by (metis append_Nil2 in_set_conv_decomp)
    then obtain v' where "v = CHR '' '' # v'" using v by (auto simp: right_edge_def)
    then have "w @ CHR '' '' # v' = x @ CHR '' '' # join_space (y # ys)" using eq by simp
    from first_space[OF x this] show ?thesis using w by auto
  qed
  then show ?thesis using 3 by (auto simp: right_edge_def)
qed (use assms in \<open>simp add: word_ok_def\<close>)

lemma word_inside:
  assumes w: "word_ok w" and "\<forall>w \<in> set W. word_ok w"
  shows "(\<exists>u v. left_edge u \<and> right_edge v \<and> join_space W = u @ w @ v) \<longleftrightarrow> w \<in> set W"
  using assms(2)
proof (induction W rule: join_space.induct)
  case 1 then show ?case using w by (simp add: word_ok_def)
next
  case (2 x)
  then have "CHR '' '' \<notin> set x" using word_ok_space by simp
  then show ?case by (auto simp: left_edge_def right_edge_def)
next
  case (3 x y ys)
  let ?J = "join_space (y # ys)"
  have ok: "word_ok x" "\<forall>w \<in> set (y # ys). word_ok w" using 3 by auto
  have IH: "(\<exists>u v. left_edge u \<and> right_edge v \<and> ?J = u @ w @ v) \<longleftrightarrow> w \<in> set (y # ys)" using 3 by simp
  have front: "(\<exists>v. right_edge v \<and> join_space (x # y # ys) = w @ v) \<longleftrightarrow> x = w"
    using word_at_front[OF w "3.prems"] by simp
  show ?case
  proof
    assume "\<exists>u v. left_edge u \<and> right_edge v \<and> join_space (x # y # ys) = u @ w @ v"
    then obtain u v where uv: "left_edge u" "right_edge v" "join_space (x # y # ys) = u @ w @ v" by blast
    then have "u = [] \<or> (\<exists>u'. left_edge u' \<and> ?J = u' @ w @ v)" by (intro edge_step[OF _ w ok]) simp_all
    then show "w \<in> set (x # y # ys)" using uv front IH by auto
  next
    assume "w \<in> set (x # y # ys)"
    then consider "x = w" | "w \<in> set (y # ys)" by auto
    then show "\<exists>u v. left_edge u \<and> right_edge v \<and> join_space (x # y # ys) = u @ w @ v"
    proof cases
      case 1
      then obtain v where "right_edge v" "join_space (x # y # ys) = w @ v" using front by blast
      then show ?thesis by (intro exI[of _ "[]"] exI[of _ v]) (simp add: left_edge_def)
    next
      case 2
      then obtain u v where "left_edge u" "right_edge v" "?J = u @ w @ v" using IH by blast
      then show ?thesis using left_edge_Cons[OF ok(1)] by (intro exI[of _ "x @ CHR '' '' # u"] exI[of _ v]) simp
    qed
  qed
qed

lemma word_at_end:
  assumes w: "word_ok w" and "\<forall>w \<in> set W. word_ok w"
  shows "(\<exists>u. left_edge u \<and> join_space W = u @ w) \<longleftrightarrow> W \<noteq> [] \<and> last W = w"
  using assms(2)
proof (induction W rule: join_space.induct)
  case 1 then show ?case using w by (simp add: word_ok_def)
next
  case (2 x)
  then have "CHR '' '' \<notin> set x" using word_ok_space by simp
  then show ?case by (auto simp: left_edge_def)
next
  case (3 x y ys)
  let ?J = "join_space (y # ys)"
  have ok: "word_ok x" "\<forall>w \<in> set (y # ys). word_ok w" using 3 by auto
  have "(\<exists>u. left_edge u \<and> join_space (x # y # ys) = u @ w) \<longleftrightarrow> (\<exists>u. left_edge u \<and> ?J = u @ w)"
  proof
    assume "\<exists>u. left_edge u \<and> join_space (x # y # ys) = u @ w"
    then obtain u where u: "left_edge u" "x @ CHR '' '' # ?J = u @ w @ []" by auto
    then have "u \<noteq> []" using word_ok_space[OF w] by (metis append_Nil append_Nil2 in_set_conv_decomp)
    then show "\<exists>u. left_edge u \<and> ?J = u @ w" using edge_step[OF u(1) w ok u(2)] by simp
  next
    assume "\<exists>u. left_edge u \<and> ?J = u @ w"
    then obtain u where "left_edge u" "?J = u @ w" by blast
    then show "\<exists>u. left_edge u \<and> join_space (x # y # ys) = u @ w"
      using left_edge_Cons[OF ok(1)] by (intro exI[of _ "x @ CHR '' '' # u"]) simp
  qed
  then show ?case using 3 by simp
qed

lemma word_alone:
  assumes w: "word_ok w" and "\<forall>w \<in> set W. word_ok w"
  shows "join_space W = w \<longleftrightarrow> W = [w]"
  using assms word_ok_space[OF w] by (cases W rule: join_space.cases) (auto simp: word_ok_def)

subsection \<open>The matcher\<close>

lemma search_iff: "search toks s \<longleftrightarrow> (\<exists>pos \<le> length s. match_from toks s pos \<noteq> None)"
proof -
  have "pos \<in> set [0..<length s + 1] \<longleftrightarrow> pos \<le> length s" for pos by auto
  then show ?thesis unfolding search_def list_ex_iff by blast
qed

lemma lit_at:
  "length s \<ge> pos + length w \<and> take (length w) (drop pos s) = w \<longleftrightarrow>
   (\<exists>u v. s = u @ w @ v \<and> length u = pos)"
proof
  assume "length s \<ge> pos + length w \<and> take (length w) (drop pos s) = w"
  then have "s = take pos s @ w @ drop (length w) (drop pos s)" "length (take pos s) = pos"
    by (metis append_take_drop_id, simp)
  then show "\<exists>u v. s = u @ w @ v \<and> length u = pos" by blast
qed auto

lemma bound_after:
  assumes "w \<noteq> []"
  shows "match_from [Bound] (u @ w @ v) (length u + length w) \<noteq> None \<longleftrightarrow> right_edge v"
  using assms by (cases v) (auto simp: right_edge_def nth_append)

lemma lit_then:
  "match_from (Lit w # rest) s pos \<noteq> None \<longleftrightarrow>
   (\<exists>u v. s = u @ w @ v \<and> length u = pos \<and> match_from rest s (pos + length w) \<noteq> None)"
  using lit_at[of pos w s] by auto

lemma bound_then:
  assumes "w \<noteq> []" and "\<And>z. s \<noteq> CHR '' '' # z"
  shows "(\<exists>pos \<le> length s. match_from (Bound # Lit w # rest) s pos \<noteq> None) \<longleftrightarrow>
    (\<exists>u v. left_edge u \<and> s = u @ w @ v \<and> match_from rest s (length u + length w) \<noteq> None)"
proof
  assume "\<exists>pos \<le> length s. match_from (Bound # Lit w # rest) s pos \<noteq> None"
  then obtain pos where pos: "pos \<le> length s" "match_from (Bound # Lit w # rest) s pos \<noteq> None" by blast
  show "\<exists>u v. left_edge u \<and> s = u @ w @ v \<and> match_from rest s (length u + length w) \<noteq> None"
  proof (cases "pos = 0 \<or> pos = length s")
    case True
    then obtain u v where "s = u @ w @ v" "length u = pos" "match_from rest s (pos + length w) \<noteq> None"
      using pos(2) lit_then[of w rest s pos] by (auto simp del: match_from.simps(2))
    moreover from this have "pos = 0" using True assms(1) by auto
    ultimately show ?thesis by (intro exI[of _ u] exI[of _ v]) (simp add: left_edge_def)
  next
    case False
    then have sp: "pos < length s" "s ! pos = CHR '' ''" "match_from (Lit w # rest) s (pos + 1) \<noteq> None"
      using pos by (auto simp del: match_from.simps(2) split: if_splits)
    then obtain u v where uv: "s = u @ w @ v" "length u = pos + 1" "match_from rest s (pos + 1 + length w) \<noteq> None"
      using lit_then[of w rest s "pos + 1"] by blast
    then obtain u' c where u': "u = u' @ [c]" by (cases u rule: rev_cases) auto
    then have "c = CHR '' ''" "u' \<noteq> []" using uv sp(2) False by (auto simp: nth_append)
    then show ?thesis using uv u' by (intro exI[of _ u] exI[of _ v]) (auto simp: left_edge_def)
  qed
next
  assume "\<exists>u v. left_edge u \<and> s = u @ w @ v \<and> match_from rest s (length u + length w) \<noteq> None"
  then obtain u v where uv: "left_edge u" "s = u @ w @ v" "match_from rest s (length u + length w) \<noteq> None" by blast
  have lit: "match_from (Lit w # rest) s (length u) \<noteq> None" using uv(2,3) lit_then[of w rest s "length u"] by blast
  show "\<exists>pos \<le> length s. match_from (Bound # Lit w # rest) s pos \<noteq> None"
  proof (cases "u = []")
    case True then show ?thesis using lit by (intro exI[of _ 0]) (simp del: match_from.simps(2))
  next
    case False
    then obtain u' where u': "u' \<noteq> []" "u = u' @ [CHR '' '']" using uv(1) by (auto simp: left_edge_def)
    then have "length u' < length s" "s ! length u' = CHR '' ''" "length u' \<noteq> 0" using uv(2) by (auto simp: nth_append)
    then show ?thesis using lit u' by (intro exI[of _ "length u'"]) (simp del: match_from.simps(2))
  qed
qed

lemma start_then:
  "(\<exists>pos \<le> length s. match_from (Start # Lit w # rest) s pos \<noteq> None) \<longleftrightarrow>
   (\<exists>v. s = w @ v \<and> match_from rest s (length w) \<noteq> None)"
proof -
  have "(\<exists>pos \<le> length s. match_from (Start # Lit w # rest) s pos \<noteq> None) \<longleftrightarrow> match_from (Lit w # rest) s 0 \<noteq> None"
    by (auto simp del: match_from.simps(2))
  also have "\<dots> \<longleftrightarrow> (\<exists>v. s = w @ v \<and> match_from rest s (length w) \<noteq> None)"
    using lit_then[of w rest s 0] by simp
  finally show ?thesis .
qed

lemma end_after: "match_from [End] (u @ w @ v) (length u + length w) \<noteq> None \<longleftrightarrow> v = []"
  by simp

lemma compile_word:
  assumes "word_ok w"
  shows "compile_loop (w @ cs) toks lit = compile_loop cs toks (lit @ w)"
proof -
  have "\<forall>c \<in> set w. is_ascii_digit c" using assms by (simp add: word_ok_def)
  then show ?thesis
  proof (induction w arbitrary: lit)
    case (Cons c w)
    then show ?case using digit_no_special[of c] by simp
  qed simp
qed

text \<open>
  C16.  The AS-path patterns of the documentation mean what it says, for every AS number and path:
  \<open>_N_\<close> matches exactly the paths that contain \<open>N\<close> as a whole number, \<open>^N_\<close> those that begin with it, \<open>_N$\<close> those that
  end with it and \<open>^N$\<close> the path of that one number, although the matcher works on the decimal text.
\<close>

theorem as_path_patterns:
  "(pattern_matches (''_'' @ show_nat (unat n) @ ''_'') path \<longleftrightarrow> n \<in> set path) \<and>
   (pattern_matches (''^'' @ show_nat (unat n) @ ''_'') path \<longleftrightarrow> path \<noteq> [] \<and> hd path = n) \<and>
   (pattern_matches (''_'' @ show_nat (unat n) @ ''$'') path \<longleftrightarrow> path \<noteq> [] \<and> last path = n) \<and>
   (pattern_matches (''^'' @ show_nat (unat n) @ ''$'') path \<longleftrightarrow> path = [n])"
proof -
  let ?w = "show_nat (unat n)" and ?W = "map (\<lambda>a. show_nat (unat a)) path" and ?s = "show_path path"
  have w: "word_ok ?w" "?w \<noteq> []" using show_nat_ok by (auto simp: word_ok_def)
  have W: "\<forall>w \<in> set ?W. word_ok w" using show_nat_ok by auto
  have s: "\<And>z. ?s \<noteq> CHR '' '' # z" using join_not_space[OF W] by (simp add: show_path_def)
  have eq: "show_nat (unat a) = ?w \<longleftrightarrow> a = n" for a by (simp add: show_nat_inj flip: word_unat_eq_iff)
  have tok: "compile (''_'' @ ?w @ ''_'') = [Bound, Lit ?w, Bound]" "compile (''^'' @ ?w @ ''_'') = [Start, Lit ?w, Bound]"
    "compile (''_'' @ ?w @ ''$'') = [Bound, Lit ?w, End]" "compile (''^'' @ ?w @ ''$'') = [Start, Lit ?w, End]"
    using w by (simp_all add: compile_def compile_word push_lit_def)
  have "search [Bound, Lit ?w, Bound] ?s \<longleftrightarrow> (\<exists>u v. left_edge u \<and> right_edge v \<and> ?s = u @ ?w @ v)"
    unfolding search_iff bound_then[OF w(2) s] using bound_after[OF w(2)] by metis
  then have 1: "search [Bound, Lit ?w, Bound] ?s \<longleftrightarrow> n \<in> set path"
    using word_inside[OF w(1) W] eq by (auto simp: show_path_def)
  have "search [Start, Lit ?w, Bound] ?s \<longleftrightarrow> (\<exists>v. right_edge v \<and> ?s = ?w @ v)"
    unfolding search_iff start_then using bound_after[OF w(2), of "[]"] by (metis append_Nil list.size(3) add_0)
  then have 2: "search [Start, Lit ?w, Bound] ?s \<longleftrightarrow> path \<noteq> [] \<and> hd path = n"
    using word_at_front[OF w(1) W] eq by (cases path) (auto simp: show_path_def)
  have "search [Bound, Lit ?w, End] ?s \<longleftrightarrow> (\<exists>u. left_edge u \<and> ?s = u @ ?w)"
    unfolding search_iff bound_then[OF w(2) s] using end_after by (metis append_Nil2)
  then have 3: "search [Bound, Lit ?w, End] ?s \<longleftrightarrow> path \<noteq> [] \<and> last path = n"
    using word_at_end[OF w(1) W] eq by (cases path rule: rev_cases) (auto simp: show_path_def)
  have "search [Start, Lit ?w, End] ?s \<longleftrightarrow> ?s = ?w"
    unfolding search_iff start_then using end_after[of "[]"] by (metis append_Nil append_Nil2 list.size(3) add_0)
  then have 4: "search [Start, Lit ?w, End] ?s \<longleftrightarrow> path = [n]"
    using word_alone[OF w(1) W] eq by (auto simp: show_path_def)
  show ?thesis unfolding pattern_matches_def tok using 1 2 3 4 by blast
qed

section \<open>Actions, route maps and chains\<close>

definition needs_bgp :: "set_action \<Rightarrow> bool" where
  "needs_bgp a \<longleftrightarrow> (case a of SetLocalPref _ \<Rightarrow> True | SetMed _ \<Rightarrow> True | PrependAs _ \<Rightarrow> True | AddCommunity _ _ \<Rightarrow> True | _ \<Rightarrow> False)"

lemma apply_set_error:
  "apply_set_checked bgp a r = Inl x \<longleftrightarrow> \<not> bgp \<and> needs_bgp a \<and> x = RequiresBgpFeature (action_name a)"
  by (cases a) (auto simp: needs_bgp_def)

text \<open>The part of a route that policy must not touch.\<close>

definition identity :: "route \<Rightarrow> route_key \<times> route_origin \<times> protocol \<times> u64 \<times> u32" where
  "identity r = (key r, origin r, route_protocol r, age_ms r, path_id r)"

lemma identity_update [simp]:
  "identity (r\<lparr>attributes := a\<rparr>) = identity r" "identity (r\<lparr>next_hop := n\<rparr>) = identity r"
  "identity (r\<lparr>preference := p\<rparr>) = identity r" "identity (r\<lparr>tag := t\<rparr>) = identity r"
  by (simp_all add: identity_def)

lemma apply_set_identity: "apply_set_checked bgp a r = Inr r' \<Longrightarrow> identity r' = identity r \<and> admin_distance (preference r') = admin_distance (preference r)"
  by (cases a) (auto simp: rt_set_local_pref_def rt_set_med_def rt_prepend_as_def rt_add_community_def rt_put_def Let_def
      split: if_splits option.splits)

lemma apply_sets_identity:
  "apply_sets bgp as r = (r', ok) \<Longrightarrow> identity r' = identity r \<and> admin_distance (preference r') = admin_distance (preference r)"
proof (induction as arbitrary: r)
  case (Cons a as)
  then show ?case using apply_set_identity[of bgp a r] by (auto split: sum.splits)
qed simp

lemma apply_sets_ok: "snd (apply_sets bgp as r) \<longleftrightarrow> bgp \<or> list_all (\<lambda>a. \<not> needs_bgp a) as"
proof (induction as arbitrary: r)
  case (Cons a as)
  show ?case
  proof (cases "apply_set_checked bgp a r")
    case (Inl x)
    then have "\<not> bgp" "needs_bgp a" using apply_set_error by blast+
    with Inl show ?thesis by simp
  next
    case (Inr r')
    then have "bgp \<or> \<not> needs_bgp a" using apply_set_error[of bgp a r "RequiresBgpFeature (action_name a)"] by auto
    with Inr show ?thesis using Cons[of r'] by auto
  qed
qed simp

lemma route_map_identity:
  "route_map_evaluate bgp res es r = (r', v) \<Longrightarrow> identity r' = identity r \<and> admin_distance (preference r') = admin_distance (preference r)"
proof (induction es arbitrary: r)
  case (Cons e es)
  obtain r1 ok where s: "apply_sets bgp (rme_sets e) r = (r1, ok)" by fastforce
  show ?case
    using Cons.prems s Cons.IH[of r] Cons.IH[of r1] apply_sets_identity[OF s]
    by (auto split: if_splits option.splits bool.splits)
qed simp

lemma route_map_append:
  "route_map_evaluate bgp res (es @ fs) r =
     (case route_map_evaluate bgp res es r of (r', None) \<Rightarrow> route_map_evaluate bgp res fs r' | (r', Some v) \<Rightarrow> (r', Some v))"
  by (induction es arbitrary: r) (auto split: prod.split option.split bool.split)

definition verdict_of :: "bool option \<Rightarrow> policy_verdict" where
  "verdict_of v = (case v of Some True \<Rightarrow> Accept | Some False \<Rightarrow> Reject | None \<Rightarrow> Continue)"

text \<open>
  C24.  A chain of route maps behaves as the one route map of all their entries in sequence: the first
  entry that matches and has a verdict decides, and the changes of the matching entries before it
  are kept.
\<close>

theorem chain_is_one_map:
  "chain_evaluate bgp res ms r = map_prod id verdict_of (route_map_evaluate bgp res (concat ms) r)"
  by (induction ms arbitrary: r)
    (auto simp: route_map_append verdict_of_def split: prod.split option.split bool.split)

lemma chain_is_one_map_identity:
  "identity (fst (chain_evaluate bgp res ms r)) = identity r \<and>
   admin_distance (preference (fst (chain_evaluate bgp res ms r))) = admin_distance (preference r)"
proof (induction ms arbitrary: r)
  case (Cons m ms)
  obtain r' v where e: "route_map_evaluate bgp res m r = (r', v)" by fastforce
  show ?case using Cons.IH[of r'] route_map_identity[OF e] e by (auto split: option.split bool.split)
qed simp

text \<open>
  C17.  Policy fails closed and keeps the identity of routes.  An action fails exactly when it needs the typed
  BGP decoder in a build without it, and names itself in the error; an entry with such an action denies
  every route it matches, whatever its verdict.  No evaluation changes the key, origin, protocol, age, path identifier or
  administrative distance of a route.
\<close>

theorem policy_fails_closed:
  "(apply_set_checked bgp a r = Inl x \<longleftrightarrow> \<not> bgp \<and> needs_bgp a \<and> x = RequiresBgpFeature (action_name a)) \<and>
   (list_all (\<lambda>m. evaluate_match m r res) (rme_matches e) \<and> list_ex needs_bgp (rme_sets e) \<longrightarrow>
      snd (chain_evaluate False res ((e # es) # ms) r) = Reject) \<and>
   identity (fst (chain_evaluate bgp res ms r)) = identity r \<and>
   admin_distance (preference (fst (chain_evaluate bgp res ms r))) = admin_distance (preference r)"
proof (intro conjI)
  show "list_all (\<lambda>m. evaluate_match m r res) (rme_matches e) \<and> list_ex needs_bgp (rme_sets e) \<longrightarrow>
      snd (chain_evaluate False res ((e # es) # ms) r) = Reject"
  proof
    assume a: "list_all (\<lambda>m. evaluate_match m r res) (rme_matches e) \<and> list_ex needs_bgp (rme_sets e)"
    then have "\<not> snd (apply_sets False (rme_sets e) r)" by (auto simp: apply_sets_ok list_all_iff list_ex_iff)
    then obtain r' where "apply_sets False (rme_sets e) r = (r', False)" by (cases "apply_sets False (rme_sets e) r") auto
    with a show "snd (chain_evaluate False res ((e # es) # ms) r) = Reject" by simp
  qed
qed (simp_all add: apply_set_error chain_is_one_map_identity)

definition permit_all :: match_resolver where
  "permit_all = \<lparr>prefix_in = \<lambda>_ _. True, as_path_in = \<lambda>_ _. True, community_in = \<lambda>_ _. True, next_hop_in = \<lambda>_ _. True\<rparr>"

theorem policy_fails_closed_witness:
  "snd (chain_evaluate False permit_all
     [[\<lparr>rme_matches = [PrefixIn 1], rme_sets = [SetTag 5, SetMed 50], rme_verdict = Some True\<rparr>]] (sample_route 1)) = Reject"
  using policy_fails_closed[where e = "\<lparr>rme_matches = [PrefixIn 1], rme_sets = [SetTag 5, SetMed 50], rme_verdict = Some True\<rparr>"
      and r = "sample_route 1" and res = permit_all and es = "[]" and ms = "[]"]
  by (simp add: permit_all_def needs_bgp_def)

section \<open>Attribute access\<close>

lemma attr_bytes_put:
  "bt_inv (attributes r) \<Longrightarrow> attr_bytes (rt_put t fl v r) t' = (if t' = t then Some v else attr_bytes r t')"
  by (simp add: attr_bytes_def rt_put_def attrs_get_def attrs_insert_def bt_get_put)

lemma attr_bytes_remove:
  "attr_bytes (r\<lparr>attributes := attrs_remove t (attributes r)\<rparr>) t' = (if t' = t then None else attr_bytes r t')"
  by (simp add: attr_bytes_def attrs_get_def attrs_remove_def bt_get_del)

lemma get_u32_put:
  "bt_inv (attributes r) \<Longrightarrow> attrs_get_u32_be (attributes (rt_put t fl (to_be_bytes 4 v) r)) t = Some v"
  by (simp add: attrs_get_u32_be_def rt_put_def attrs_get_def attrs_insert_def bt_get_put from_to_be_bytes)

lemma community_codec: "community_decode_set (community_encode_set cs) = cs"
  using be32.decode_encode_set by (simp add: community_decode_set_def community_encode_set_def)

lemma large_codec: "large_decode_set (large_encode_set ls) = ls"
  using large.decode_encode_set by (simp add: large_decode_set_def large_encode_set_def)

lemma extended_codec: "extended_decode_set (extended_encode_set es) = es"
  using extended.decode_encode_set by (simp add: extended_decode_set_def extended_encode_set_def)

lemma as_path_codec: "list_all (seg_fits True) p \<Longrightarrow> decode_4 (encode_4 p) = Some p"
  using decode_encode_inner[of True p] by (simp add: decode_4_def encode_4_def as_bytes_def)

text \<open>
  What policy writes into a route it reads back: the numeric attributes, the three kinds of
  community sets, the community lists after adding and removing one, and a flat AS path of at most 255
  numbers; prepending to such a path puts the number in front.
\<close>

theorem policy_attributes_roundtrip:
  assumes "bt_inv (attributes r)"
  shows "rt_med (rt_set_med v r) = Some v \<and> rt_local_pref (rt_set_local_pref v r) = Some v \<and>
    rt_communities (rt_set_communities cs r) = cs \<and> rt_large_communities (rt_set_large_communities ls r) = ls \<and>
    rt_ext_communities (rt_set_ext_communities es r) = es \<and>
    set (rt_communities (rt_add_community c r)) = insert c (set (rt_communities r)) \<and>
    rt_communities (rt_remove_community c r) = filter (\<lambda>d. d \<noteq> c) (rt_communities r) \<and>
    (length as \<le> 255 \<longrightarrow> rt_as_sequence (rt_set_as_sequence as r) = as) \<and>
    (length as < 255 \<longrightarrow> rt_as_sequence (rt_prepend_as a (rt_set_as_sequence as r)) = a # as)"
proof -
  have com: "rt_communities (rt_set_communities cs r) = cs" for cs
    using assms by (simp add: rt_communities_def rt_set_communities_def attr_bytes_put attr_bytes_remove community_codec)
  have fits: "list_all (seg_fits True) (from_sequence as)" if "length as \<le> 255"
    using that by (simp add: from_sequence_def seg_fits_def asn_fits_def list_all_iff)
  have path: "rt_as_path (rt_set_as_sequence as r) = (if as = [] then None else Some (from_sequence as))" if "length as \<le> 255"
    using that assms fits[OF that]
    by (simp add: rt_as_path_def rt_set_as_sequence_def attr_bytes_put attr_bytes_remove as_path_codec)
  have inv: "bt_inv (attributes (rt_set_as_sequence as r))"
    using assms by (simp add: rt_set_as_sequence_def rt_put_def attrs_insert_def attrs_remove_def bt_inv_put bt_inv_del)
  have seq: "rt_as_sequence (rt_set_as_sequence as r) = as" if "length as \<le> 255"
    using path[OF that] by (simp add: rt_as_sequence_def from_sequence_def as_sequence_def is_sequence_def)
  have pre: "rt_as_sequence (rt_prepend_as a (rt_set_as_sequence as r)) = a # as" if len: "length as < 255"
  proof -
    have le: "length as \<le> 255" using len by simp
    define p where "p = prepend a (if as = [] then [] else from_sequence as)"
    have p: "p = [\<lparr>kind = Sequence, ases = a # as\<rparr>]" by (simp add: p_def prepend_def from_sequence_def)
    then have "list_all (seg_fits True) p" using len by (simp add: seg_fits_def asn_fits_def list_all_iff)
    then have "rt_as_path (rt_put 2 0x40 (encode_4 p) (rt_set_as_sequence as r)) = Some p"
      using inv by (simp add: rt_as_path_def attr_bytes_put as_path_codec)
    moreover have "rt_prepend_as a (rt_set_as_sequence as r) = rt_put 2 0x40 (encode_4 p) (rt_set_as_sequence as r)"
      using path[OF le] by (simp add: rt_prepend_as_def p_def Let_def)
    ultimately show ?thesis by (simp add: rt_as_sequence_def p as_sequence_def is_sequence_def)
  qed
  have "set (rt_communities (rt_add_community c r)) = insert c (set (rt_communities r))"
  proof (cases "c \<in> set (rt_communities r)")
    case False
    then have "rt_add_community c r = rt_set_communities (rt_communities r @ [c]) r"
      by (simp add: rt_add_community_def rt_set_communities_def Let_def)
    then show ?thesis by (simp add: com)
  qed (auto simp: rt_add_community_def)
  moreover have "rt_large_communities (rt_set_large_communities ls r) = ls" "rt_ext_communities (rt_set_ext_communities es r) = es"
    using assms by (simp_all add: rt_large_communities_def rt_set_large_communities_def rt_ext_communities_def
        rt_set_ext_communities_def attr_bytes_put attr_bytes_remove large_codec extended_codec)
  ultimately show ?thesis
    using com seq pre assms
    by (simp add: rt_med_def rt_set_med_def rt_local_pref_def rt_set_local_pref_def get_u32_put rt_remove_community_def)
qed

theorem policy_attributes_roundtrip_witness:
  "rt_as_sequence (rt_prepend_as 65000 (rt_set_as_sequence [65001, 4200000000] (sample_route 1))) = [65000, 65001, 4200000000]"
  using policy_attributes_roundtrip[of "sample_route 1" _ _ _ _ _ "[65001, 4200000000]" 65000]
  by (simp add: sample_route_def)

end
