(* ===== verification/LR_MpNlri.thy ===== *)
theory LR_MpNlri
  imports LR_PathAttr
begin

text \<open>
  The multiprotocol attributes of \<open>crates/lr-bgp/src/path/mp_nlri.rs\<close> (MP_REACH_NLRI and MP_UNREACH_NLRI, with and without
  path identifiers) and the labelled form of \<open>labeled_nlri.rs\<close>.  Decoders work on the bytes that are
  left; an index outside the slice, which aborts the program, is the error \<open>Panic\<close>.
\<close>

section \<open>Next hops and entries\<close>

datatype mp_next_hop =
    MpV4 bytes
  | V6Global bytes
  | V6LinkLocal bytes
  | V6GlobalLinkLocal bytes bytes
  | V4OverV6 bytes

fun mp_next_hop_encode :: "mp_next_hop \<Rightarrow> bytes" where
  "mp_next_hop_encode (MpV4 b) = b"
| "mp_next_hop_encode (V6Global b) = b"
| "mp_next_hop_encode (V4OverV6 b) = b"
| "mp_next_hop_encode (V6LinkLocal b) = b"
| "mp_next_hop_encode (V6GlobalLinkLocal g l) = g @ l"

fun mp_primary :: "mp_next_hop \<Rightarrow> ip_addr" where
  "mp_primary (MpV4 b) = V4 b"
| "mp_primary (V6Global b) = V6 b"
| "mp_primary (V4OverV6 b) = V6 b"
| "mp_primary (V6LinkLocal b) = V6 b"
| "mp_primary (V6GlobalLinkLocal g l) = V6 g"

definition decode_next_hop :: "bytes \<Rightarrow> nlri_family \<Rightarrow> mp_next_hop option" where
  "decode_next_hop b fam =
     (if afi fam = 1 \<and> length b = 4 then Some (MpV4 b)
      else if afi fam = 1 \<and> length b = 16 then Some (V4OverV6 b)
      else if afi fam = 2 \<and> length b = 16 then Some (V6Global b)
      else if afi fam = 2 \<and> length b = 32 then Some (V6GlobalLinkLocal (take 16 b) (drop 16 b))
      else None)"

record nlri =
  nlri_path_id :: u32
  nlri_prefix :: prefix

definition nlri_plain :: "prefix \<Rightarrow> nlri" where
  "nlri_plain p = \<lparr>nlri_path_id = 0, nlri_prefix = p\<rparr>"

definition nlri_new :: "u32 \<Rightarrow> prefix \<Rightarrow> nlri" where
  "nlri_new i p = \<lparr>nlri_path_id = i, nlri_prefix = p\<rparr>"

text \<open>The octets of a prefix: as many as its length needs, with the host bits of the last one cleared.\<close>

definition octet_count :: "u8 \<Rightarrow> nat" where
  "octet_count pl = (unat pl + 7) div 8"

definition mask_last :: "nat \<Rightarrow> bytes \<Rightarrow> bytes" where
  "mask_last pl os =
     (if pl mod 8 \<noteq> 0 \<and> os \<noteq> [] then butlast os @ [last os AND push_bit (8 - pl mod 8) 0xff] else os)"

definition prefix_octets :: "prefix \<Rightarrow> bytes" where
  "prefix_octets p = mask_last (unat (prefix_len p)) (take (octet_count (prefix_len p)) (octets (addr p)))"

definition encode_entry :: "bool \<Rightarrow> nlri \<Rightarrow> bytes" where
  "encode_entry add_path e =
     (if add_path then to_be_bytes 4 (nlri_path_id e) else []) @
     prefix_len (nlri_prefix e) # prefix_octets (nlri_prefix e)"

section \<open>Decoding entries\<close>

datatype mp_error = Malformed | Panic

definition entry_path_id :: "bool \<Rightarrow> bytes \<Rightarrow> mp_error + u32 \<times> bytes" where
  "entry_path_id add_path b =
     (if add_path then
        if length b < 4 then Inl Malformed else Inr (from_be_bytes (take 4 b), drop 4 b)
      else Inr (0, b))"

definition padded :: "nat \<Rightarrow> bytes \<Rightarrow> bytes" where
  "padded w os = os @ replicate (w - length os) 0"

definition decode_entry :: "bool \<Rightarrow> nlri_family \<Rightarrow> bytes \<Rightarrow> mp_error + nlri \<times> bytes" where
  "decode_entry add_path fam b =
     (case entry_path_id add_path b of
        Inl e \<Rightarrow> Inl e
      | Inr (i, []) \<Rightarrow> Inl Panic
      | Inr (i, pl # rest) \<Rightarrow>
          let n = octet_count pl
          in if length rest < n then Inl Malformed
             else if afi fam = 1 then
               (if n > 4 then Inl Malformed
                else Inr (nlri_new i (Prefix (V4 (padded 4 (take n rest))) pl), drop n rest))
             else if afi fam = 2 then
               (if n > 16 then Inl Malformed
                else Inr (nlri_new i (Prefix (V6 (padded 16 (take n rest))) pl), drop n rest))
             else Inl Malformed)"

lemma decode_entry_shorter: "decode_entry add_path fam b = Inr (e, rest) \<Longrightarrow> length rest < length b"
  by (auto simp: decode_entry_def entry_path_id_def Let_def split: if_splits list.splits)
    (metis One_nat_def Suc_lessD Suc_pred diff_less_Suc length_Cons length_drop less_le_trans linorder_not_le not_less_eq)+

function decode_entries :: "bool \<Rightarrow> nlri_family \<Rightarrow> bytes \<Rightarrow> mp_error + nlri list" where
  "decode_entries add_path fam b =
     (if b = [] then Inr []
      else case decode_entry add_path fam b of
        Inl e \<Rightarrow> Inl e
      | Inr (e, rest) \<Rightarrow> map_sum id ((#) e) (decode_entries add_path fam rest))"
  by pat_completeness auto

termination
  by (relation "measure (\<lambda>(_, _, b). length b)") (auto dest: decode_entry_shorter)

declare decode_entries.simps [simp del]

section \<open>The two attributes\<close>

record mp_reach =
  mp_family :: nlri_family
  mp_next_hop :: mp_next_hop
  mp_nlri :: "nlri list"

record mp_unreach =
  un_family :: nlri_family
  un_nlri :: "nlri list"

definition family_bytes :: "nlri_family \<Rightarrow> bytes" where
  "family_bytes fam = to_be_bytes 2 (afi fam) @ [safi fam]"

definition family_of_bytes :: "bytes \<Rightarrow> nlri_family" where
  "family_of_bytes b = NlriFamily (from_be_bytes (take 2 b)) (b ! 2)"

definition mp_reach_encode_ex :: "bool \<Rightarrow> mp_reach \<Rightarrow> bytes" where
  "mp_reach_encode_ex add_path r =
     (let nh = mp_next_hop_encode (mp_next_hop r)
      in family_bytes (mp_family r) @ [of_nat (length nh)] @ nh @ [0] @ concat (map (encode_entry add_path) (mp_nlri r)))"

definition mp_reach_decode_ex :: "bool \<Rightarrow> bytes \<Rightarrow> mp_error + mp_reach" where
  "mp_reach_decode_ex add_path b =
     (if length b < 3 + 1 then Inl Malformed
      else let fam = family_of_bytes b; nh_len = unat (b ! 3)
        in if length b < 4 + nh_len then Inl Malformed
           else case decode_next_hop (take nh_len (drop 4 b)) fam of
             None \<Rightarrow> Inl Malformed
           | Some nh \<Rightarrow>
               let i = 4 + nh_len
               in if i \<ge> length b then Inr \<lparr>mp_family = fam, mp_next_hop = nh, mp_nlri = []\<rparr>
                  else map_sum id (\<lambda>es. \<lparr>mp_family = fam, mp_next_hop = nh, mp_nlri = es\<rparr>)
                         (decode_entries add_path fam (drop (i + 1) b)))"

definition mp_unreach_encode_ex :: "bool \<Rightarrow> mp_unreach \<Rightarrow> bytes" where
  "mp_unreach_encode_ex add_path u = family_bytes (un_family u) @ concat (map (encode_entry add_path) (un_nlri u))"

definition mp_unreach_decode_ex :: "bool \<Rightarrow> bytes \<Rightarrow> mp_error + mp_unreach" where
  "mp_unreach_decode_ex add_path b =
     (if length b < 3 then Inl Malformed
      else let fam = family_of_bytes b
        in map_sum id (\<lambda>es. \<lparr>un_family = fam, un_nlri = es\<rparr>) (decode_entries add_path fam (drop 3 b)))"

section \<open>Labelled entries\<close>

record labeled_nlri =
  ln_path_id :: u32
  ln_stack :: label_stack
  ln_prefix :: prefix

definition labeled_encode :: "bool \<Rightarrow> labeled_nlri \<Rightarrow> bytes option" where
  "labeled_encode add_path e =
     (if ln_stack e = [] then None
      else let label_bytes = encode_3octet (ln_stack e);
               total_bits = length label_bytes * 8 + unat (prefix_len (ln_prefix e))
        in if total_bits > 255 then None
           else Some ((if add_path then to_be_bytes 4 (ln_path_id e) else []) @ [of_nat total_bits] @ label_bytes @
             prefix_octets (ln_prefix e)))"

text \<open>The loop over the label entries, with the octets already read.\<close>

fun read_labels :: "nat \<Rightarrow> nat \<Rightarrow> bytes \<Rightarrow> (label_stack \<times> nat \<times> bytes) option" where
  "read_labels total_octets c (x # y # z # rest) =
     (if c \<ge> total_octets then None
      else let l = with_tc (drop_bit 1 z AND 0x07) (new_value (value_of_3octet [x, y, z]))
        in if z AND 0x01 \<noteq> 0 then Some ([l], c + 3, rest)
           else case read_labels total_octets (c + 3) rest of
             None \<Rightarrow> None
           | Some (ls, c', rest') \<Rightarrow> Some (l # ls, c', rest'))"
| "read_labels total_octets c _ = None"

definition labeled_prefix :: "nlri_family \<Rightarrow> nat \<Rightarrow> bytes \<Rightarrow> prefix option" where
  "labeled_prefix fam nbits rest =
     (let n = (nbits + 7) div 8
      in if nbits > 32 \<and> afi fam = 1 then None
         else if nbits > 128 \<and> afi fam = 2 then None
         else if length rest < n then None
         else if afi fam = 1 then
           (if n > 4 then None else Some (Prefix (V4 (padded 4 (take n rest))) (of_nat nbits)))
         else if afi fam = 2 then
           (if n > 16 then None else Some (Prefix (V6 (padded 16 (take n rest))) (of_nat nbits)))
         else None)"

definition labeled_decode :: "nlri_family \<Rightarrow> bytes \<Rightarrow> bool \<Rightarrow> (labeled_nlri \<times> nat) option" where
  "labeled_decode fam b add_path =
     (if add_path \<and> length b < 4 then None
      else let i = (if add_path then 4 else 0);
               pid = (if add_path then from_be_bytes (take 4 b) else 0)
        in if i \<ge> length b then None
           else let total_bits = unat (b ! i); total_octets = (total_bits + 7) div 8
             in if i + 1 + total_octets > length b then None
                else case read_labels total_octets 0 (drop (i + 1) b) of
                  None \<Rightarrow> None
                | Some (labels, label_octets, rest) \<Rightarrow>
                    if total_bits < label_octets * 8 then None
                    else let bits = total_bits - label_octets * 8
                      in case labeled_prefix fam bits rest of
                        None \<Rightarrow> None
                      | Some p \<Rightarrow>
                          Some (\<lparr>ln_path_id = pid, ln_stack = labels, ln_prefix = p\<rparr>,
                            i + 1 + label_octets + (bits + 7) div 8))"

definition encode_labeled_list :: "bool \<Rightarrow> labeled_nlri list \<Rightarrow> bytes" where
  "encode_labeled_list add_path es =
     concat (map (\<lambda>e. case labeled_encode add_path e of Some b \<Rightarrow> b | None \<Rightarrow> []) es)"

function decode_labeled_list :: "nlri_family \<Rightarrow> bool \<Rightarrow> bytes \<Rightarrow> labeled_nlri list option" where
  "decode_labeled_list fam add_path b =
     (if b = [] then Some []
      else case labeled_decode fam b add_path of
        None \<Rightarrow> None
      | Some (e, consumed) \<Rightarrow>
          if consumed = 0 then None
          else map_option ((#) e) (decode_labeled_list fam add_path (drop consumed b)))"
  by pat_completeness auto

termination
  by (relation "measure (\<lambda>(_, _, b). length b)") auto

declare decode_labeled_list.simps [simp del]

definition is_labeled_unicast :: "nlri_family \<Rightarrow> bool" where
  "is_labeled_unicast fam \<longleftrightarrow> safi fam = 4 \<and> (afi fam = 1 \<or> afi fam = 2)"

definition encode_labeled_mp_reach :: "nlri_family \<Rightarrow> mp_next_hop \<Rightarrow> labeled_nlri list \<Rightarrow> bool \<Rightarrow> bytes" where
  "encode_labeled_mp_reach fam nh es add_path =
     (let nb = mp_next_hop_encode nh
      in family_bytes fam @ [of_nat (length nb)] @ nb @ [0] @ encode_labeled_list add_path es)"

definition encode_labeled_mp_unreach :: "nlri_family \<Rightarrow> labeled_nlri list \<Rightarrow> bool \<Rightarrow> bytes" where
  "encode_labeled_mp_unreach fam es add_path = family_bytes fam @ encode_labeled_list add_path es"

definition decode_labeled_mp_reach :: "bytes \<Rightarrow> bool \<Rightarrow> (nlri_family \<times> mp_next_hop \<times> labeled_nlri list) option" where
  "decode_labeled_mp_reach b add_path =
     (if length b < 3 + 1 then None
      else let fam = family_of_bytes b; nh_len = unat (b ! 3)
        in if \<not> is_labeled_unicast fam then None
           else if length b < 4 + nh_len then None
           else case decode_next_hop (take nh_len (drop 4 b)) fam of
             None \<Rightarrow> None
           | Some nh \<Rightarrow>
               if 4 + nh_len \<ge> length b then Some (fam, nh, [])
               else map_option (\<lambda>es. (fam, nh, es)) (decode_labeled_list fam add_path (drop (4 + nh_len + 1) b)))"

definition decode_labeled_mp_unreach :: "bytes \<Rightarrow> bool \<Rightarrow> (nlri_family \<times> labeled_nlri list) option" where
  "decode_labeled_mp_unreach b add_path =
     (if length b < 3 then None
      else let fam = family_of_bytes b
        in if \<not> is_labeled_unicast fam then None
           else map_option (\<lambda>es. (fam, es)) (decode_labeled_list fam add_path (drop 3 b)))"

section \<open>Prefixes on the wire\<close>

lemma bits_of_append: "bits_of (as @ bs) = bits_of as @ bits_of bs"
  by (simp add: bits_of_def)

lemma bits_of_zeros: "bits_of (replicate n 0) = replicate (8 * n) False"
  by (induction n) (simp_all add: map_replicate_const replicate_add[symmetric])

lemma bits_mask_last:
  assumes "l \<le> 8 * length os"
  shows "bits_of (mask_last l (take ((l + 7) div 8) os)) =
    take l (bits_of os) @ replicate (8 * ((l + 7) div 8) - l) False"
proof (cases "l mod 8 = 0")
  case True
  then obtain q where q: "l = 8 * q" by (metis mod_0_imp_dvd dvdE)
  then have "(l + 7) div 8 = q" by simp
  then show ?thesis using q by (simp add: mask_last_def take_bits_of)
next
  case False
  define q r where "q = l div 8" and "r = l mod 8"
  have l: "l = 8 * q + r" "r < 8" "0 < r" using False by (simp_all add: q_def r_def)
  have n: "(l + 7) div 8 = Suc q" using l by simp
  have q: "q < length os" using assms l by simp
  have eq: "(0xff :: u8) = - 1" by simp
  have "mask_last l (take (Suc q) os) = take q os @ [os ! q AND push_bit (8 - r) 0xff]"
    using False q by (simp add: mask_last_def r_def take_Suc_conv_app_nth)
  then have "bits_of (mask_last l (take (Suc q) os)) =
      bits_of (take q os) @ word_bits (os ! q AND push_bit (8 - r) (- 1))"
    by (simp add: bits_of_append word_bits_u8 eq del: bits_of_simps)
  also have "word_bits (os ! q AND push_bit (8 - r) (- 1)) = take r (word_bits (os ! q)) @ replicate (8 - r) False"
    using word_bits_and_mask[of r "os ! q"] l(2) by simp
  finally show ?thesis using take_bits_split[OF q l(2)] l n by simp
qed

lemma length_prefix_octets:
  "prefix_wf p \<Longrightarrow> length (prefix_octets p) = octet_count (prefix_len p) \<and> octet_count (prefix_len p) \<le> length (octets (addr p))"
  by (cases "addr p") (auto simp: prefix_octets_def mask_last_def prefix_wf_def octet_count_def)

lemma padded_prefix_octets:
  assumes "prefix_wf p"
  shows "padded (length (octets (addr p))) (prefix_octets p) = octets (network p)"
proof -
  let ?l = "unat (prefix_len p)" and ?os = "octets (addr p)"
  have wf: "ip_wf (addr p)" "?l \<le> 8 * length ?os" "ip_width (addr p) = 8 * length ?os"
    using assms by (cases "addr p"; auto simp: prefix_wf_def)+
  have n: "?l \<le> 8 * ((?l + 7) div 8)" "(?l + 7) div 8 \<le> length ?os" using wf(2) by auto
  have "bits_of (padded (length ?os) (prefix_octets p)) =
      take ?l (bits_of ?os) @ replicate (8 * ((?l + 7) div 8) - ?l) False @ replicate (8 * (length ?os - (?l + 7) div 8)) False"
    using bits_mask_last[OF wf(2)] length_prefix_octets[OF assms]
    by (simp add: padded_def bits_of_append bits_of_zeros prefix_octets_def octet_count_def)
  also have "\<dots> = take ?l (bits_of ?os) @ replicate (8 * length ?os - ?l) False"
    using n by (simp add: replicate_add[symmetric])
  also have "\<dots> = bits_of (octets (network p))"
    using network_bits[OF wf(1)] plen_wf[OF assms] wf(3) by (simp add: ip_bits_def)
  finally show ?thesis by (simp add: bits_of_inject)
qed

definition fits :: "nlri_family \<Rightarrow> prefix \<Rightarrow> bool" where
  "fits fam p \<longleftrightarrow> prefix_wf p \<and> (afi fam = 1 \<and> is_ipv4 (addr p) \<or> afi fam = 2 \<and> is_ipv6 (addr p))"

lemma fits_cases:
  assumes "fits fam p"
  obtains "afi fam = 1" "padded 4 (prefix_octets p) = octets (network p)" "V4 (octets (network p)) = network p"
      "octet_count (prefix_len p) \<le> 4" "unat (prefix_len p) \<le> 32"
  | "afi fam = 2" "padded 16 (prefix_octets p) = octets (network p)" "V6 (octets (network p)) = network p"
      "octet_count (prefix_len p) \<le> 16" "unat (prefix_len p) \<le> 128"
proof -
  have wf: "prefix_wf p" using assms by (simp add: fits_def)
  note facts = padded_prefix_octets[OF wf] length_prefix_octets[OF wf]
  show thesis
  proof (cases "addr p")
    case (V4 b)
    then have "V4 (octets (network p)) = network p" using network_family(1)[of p] by (cases "network p") auto
    then show thesis using that(1) facts assms V4 by (auto simp: fits_def prefix_wf_def)
  next
    case (V6 b)
    then have "V6 (octets (network p)) = network p" using network_family(1)[of p] by (cases "network p") auto
    then show thesis using that(2) facts assms V6 by (auto simp: fits_def prefix_wf_def)
  qed
qed

section \<open>Round trips\<close>

definition received :: "bool \<Rightarrow> nlri \<Rightarrow> nlri" where
  "received add_path e = nlri_new (if add_path then nlri_path_id e else 0) (ip_net (nlri_prefix e))"

lemma decode_encode_entry:
  assumes "fits fam (nlri_prefix e)"
  shows "decode_entry add_path fam (encode_entry add_path e @ rest) = Inr (received add_path e, rest)"
proof -
  let ?p = "nlri_prefix e"
  have len: "length (prefix_octets ?p) = octet_count (prefix_len ?p)"
    using assms length_prefix_octets by (simp add: fits_def)
  have pid: "entry_path_id add_path (encode_entry add_path e @ rest) =
      Inr (if add_path then nlri_path_id e else 0, prefix_len ?p # prefix_octets ?p @ rest)"
    by (simp add: entry_path_id_def encode_entry_def from_to_be_bytes)
  from assms show ?thesis
    by (cases rule: fits_cases) (simp_all add: decode_entry_def pid Let_def len received_def ip_net_def not_less[symmetric])
qed

lemma decode_encode_entries:
  assumes "list_all (\<lambda>e. fits fam (nlri_prefix e)) es"
  shows "decode_entries add_path fam (concat (map (encode_entry add_path) es) @ rest) =
    map_sum id ((@) (map (received add_path) es)) (decode_entries add_path fam rest)"
  using assms
proof (induction es)
  case Nil
  then show ?case by (cases "decode_entries add_path fam rest") simp_all
next
  case (Cons e es)
  have "encode_entry add_path e \<noteq> []" by (simp add: encode_entry_def)
  with Cons show ?case
    by (subst decode_entries.simps)
      (simp add: decode_encode_entry, cases "decode_entries add_path fam rest", simp_all)
qed

lemma decode_entries_Nil [simp]: "decode_entries add_path fam [] = Inr []"
  by (subst decode_entries.simps) simp

fun next_hop_fits :: "nlri_family \<Rightarrow> mp_next_hop \<Rightarrow> bool" where
  "next_hop_fits fam (MpV4 b) \<longleftrightarrow> afi fam = 1 \<and> length b = 4"
| "next_hop_fits fam (V4OverV6 b) \<longleftrightarrow> afi fam = 1 \<and> length b = 16"
| "next_hop_fits fam (V6Global b) \<longleftrightarrow> afi fam = 2 \<and> length b = 16"
| "next_hop_fits fam (V6GlobalLinkLocal g l) \<longleftrightarrow> afi fam = 2 \<and> length g = 16 \<and> length l = 16"
| "next_hop_fits fam (V6LinkLocal b) \<longleftrightarrow> False"

lemma next_hop_round:
  assumes "next_hop_fits fam nh"
  shows "decode_next_hop (mp_next_hop_encode nh) fam = Some nh \<and> length (mp_next_hop_encode nh) < 256"
  using assms by (cases nh) (simp_all add: decode_next_hop_def)

lemma family_round [simp]:
  "length (family_bytes fam) = 3" "family_of_bytes (family_bytes fam @ b) = fam"
  by (cases fam; simp add: family_bytes_def family_of_bytes_def from_to_be_bytes nth_append)+

lemma reach_body:
  assumes "next_hop_fits (mp_family r) (mp_next_hop r)"
  shows "mp_reach_decode_ex add_path (mp_reach_encode_ex add_path r @ tail) =
    map_sum id (\<lambda>es. r\<lparr>mp_nlri := es\<rparr>)
      (decode_entries add_path (mp_family r) (concat (map (encode_entry add_path) (mp_nlri r)) @ tail))"
proof -
  let ?nh = "mp_next_hop_encode (mp_next_hop r)" and ?es = "concat (map (encode_entry add_path) (mp_nlri r))"
  have b: "mp_reach_encode_ex add_path r @ tail = family_bytes (mp_family r) @ of_nat (length ?nh) # ?nh @ 0 # ?es @ tail"
    by (simp add: mp_reach_encode_ex_def Let_def)
  have u: "unat (of_nat (length ?nh) :: u8) = length ?nh"
    using next_hop_round[OF assms] by (simp add: unat_of_nat take_bit_nat_eq_self)
  have "decode_next_hop ?nh (mp_family r) = Some (mp_next_hop r)" using next_hop_round[OF assms] by simp
  moreover have "(\<lambda>es. \<lparr>mp_family = mp_family r, mp_next_hop = mp_next_hop r, mp_nlri = es\<rparr>) = (\<lambda>es. r\<lparr>mp_nlri := es\<rparr>)"
    by (rule ext) (cases r, simp)
  ultimately show ?thesis
    unfolding b mp_reach_decode_ex_def Let_def by (simp add: u nth_append drop_Cons')
qed

text \<open>
  C29.  What a peer sends in MP_REACH_NLRI and MP_UNREACH_NLRI the receiver reads back, with or without path
  identifiers: the family, the next hop and every prefix with its host bits cleared.
\<close>

theorem mp_roundtrip:
  assumes "next_hop_fits (mp_family r) (mp_next_hop r)"
    and "list_all (\<lambda>e. fits (mp_family r) (nlri_prefix e)) (mp_nlri r)"
    and "list_all (\<lambda>e. fits (un_family u) (nlri_prefix e)) (un_nlri u)"
  shows "mp_reach_decode_ex add_path (mp_reach_encode_ex add_path r) =
      Inr (r\<lparr>mp_nlri := map (received add_path) (mp_nlri r)\<rparr>) \<and>
    mp_unreach_decode_ex add_path (mp_unreach_encode_ex add_path u) =
      Inr (u\<lparr>un_nlri := map (received add_path) (un_nlri u)\<rparr>)"
  using reach_body[OF assms(1), of add_path "[]"] decode_encode_entries[OF assms(2), of add_path "[]"]
    decode_encode_entries[OF assms(3), of add_path "[]"]
  by (simp add: mp_unreach_decode_ex_def mp_unreach_encode_ex_def Let_def)

definition sample_reach :: mp_reach where
  "sample_reach = \<lparr>mp_family = NlriFamily 1 2, mp_next_hop = MpV4 [192, 0, 2, 1],
     mp_nlri = [nlri_new 7 (Prefix (V4 [10, 1, 255, 0]) 17)]\<rparr>"

lemma sample_reach_fits:
  "next_hop_fits (mp_family sample_reach) (mp_next_hop sample_reach) \<and>
   list_all (\<lambda>e. fits (mp_family sample_reach) (nlri_prefix e)) (mp_nlri sample_reach)"
  by (simp add: sample_reach_def nlri_new_def fits_def prefix_wf_def)

theorem mp_roundtrip_witness:
  "mp_reach_decode_ex True (mp_reach_encode_ex True sample_reach) =
     Inr (sample_reach\<lparr>mp_nlri := map (received True) (mp_nlri sample_reach)\<rparr>)"
  using mp_roundtrip[of sample_reach "\<lparr>un_family = NlriFamily 1 2, un_nlri = []\<rparr>" True] sample_reach_fits by simp

lemma trailing_identifier: "length t = 4 \<Longrightarrow> decode_entries True fam t = Inl Panic"
  by (subst decode_entries.simps) (auto simp: decode_entry_def entry_path_id_def)

lemma plain_never_panics: "decode_entries False fam b \<noteq> Inl Panic"
proof (induction "length b" arbitrary: b rule: less_induct)
  case less
  show ?case
  proof (cases "decode_entry False fam b")
    case (Inl e)
    then have "b \<noteq> [] \<Longrightarrow> e \<noteq> Panic"
      by (auto simp: decode_entry_def entry_path_id_def Let_def split: list.splits if_splits)
    then show ?thesis using Inl by (subst decode_entries.simps) auto
  next
    case (Inr er)
    obtain e rest where er: "er = (e, rest)" by fastforce
    then have "decode_entries False fam rest \<noteq> Inl Panic" using less Inr decode_entry_shorter by blast
    then show ?thesis using Inr er
      by (subst decode_entries.simps) (cases "decode_entries False fam rest"; auto)
  qed
qed

text \<open>
  C15.  A peer can abort the program.  With path identifiers negotiated, a well-formed attribute of either kind
  followed by four more bytes makes the decoder index behind the end of its input; without path identifiers no
  input does.
\<close>

theorem mp_add_path_panics:
  assumes "next_hop_fits (mp_family r) (mp_next_hop r)"
    and "list_all (\<lambda>e. fits (mp_family r) (nlri_prefix e)) (mp_nlri r)"
    and "list_all (\<lambda>e. fits (un_family u) (nlri_prefix e)) (un_nlri u)"
    and "length tail = 4"
  shows "mp_reach_decode_ex True (mp_reach_encode_ex True r @ tail) = Inl Panic \<and>
    mp_unreach_decode_ex True (mp_unreach_encode_ex True u @ tail) = Inl Panic \<and>
    mp_reach_decode_ex False b \<noteq> Inl Panic \<and> mp_unreach_decode_ex False b \<noteq> Inl Panic"
proof (intro conjI)
  show "mp_reach_decode_ex True (mp_reach_encode_ex True r @ tail) = Inl Panic"
    using reach_body[OF assms(1), of True tail] decode_encode_entries[OF assms(2), of True tail] trailing_identifier[OF assms(4)]
    by simp
  show "mp_unreach_decode_ex True (mp_unreach_encode_ex True u @ tail) = Inl Panic"
    using decode_encode_entries[OF assms(3), of True tail] trailing_identifier[OF assms(4)]
    by (simp add: mp_unreach_decode_ex_def mp_unreach_encode_ex_def Let_def)
  have never: "map_sum id f (decode_entries False fam c) \<noteq> Inl Panic" for f :: "nlri list \<Rightarrow> 'a" and fam c
    using plain_never_panics[of fam c] by (cases "decode_entries False fam c") auto
  show "mp_reach_decode_ex False b \<noteq> Inl Panic"
    by (auto simp: mp_reach_decode_ex_def Let_def never split: option.split)
  have never': "map_sum id f (decode_entries False fam c) \<noteq> Inl Panic" for f :: "nlri list \<Rightarrow> mp_unreach" and fam c
    using plain_never_panics[of fam c] by (cases "decode_entries False fam c") auto
  show "mp_unreach_decode_ex False b \<noteq> Inl Panic"
    by (simp add: mp_unreach_decode_ex_def Let_def never')
qed

theorem mp_add_path_panics_witness:
  "mp_reach_decode_ex True (mp_reach_encode_ex True sample_reach @ [0, 0, 0, 9]) = Inl Panic"
  using mp_add_path_panics[of sample_reach "\<lparr>un_family = NlriFamily 1 2, un_nlri = []\<rparr>" "[0, 0, 0, 9]"] sample_reach_fits
  by simp

section \<open>Labelled entries\<close>

lemma no_traffic_class: "drop_bit 1 (label_encode_3octet l bottom ! 2) AND 0x07 = 0"
proof (rule bit_word_eqI)
  fix i :: nat
  assume i: "i < LENGTH(8)"
  have seven: "(0x07 :: u8) = mask 3" by (simp add: mask_eq_exp_minus_1)
  show "bit (drop_bit 1 (label_encode_3octet l bottom ! 2) AND 0x07) i = bit (0 :: u8) i"
    unfolding seven using i
    by (auto simp: label_encode_3octet_def Let_def bit_and_iff bit_or_iff bit_drop_bit_eq bit_push_bit_iff bit_mask_iff
        bit_ucast_iff bit_1_iff)
qed

lemma read_labels_encoded:
  assumes "s \<noteq> []" and "list_all (\<lambda>l. lbl_value l \<le> MAX_VALUE) s" and "c + 3 * length s \<le> t"
  shows "read_labels t c (encode_stack label_encode_3octet s @ rest) =
    Some (map (\<lambda>l. new_value (lbl_value l)) s, c + 3 * length s, rest)"
  using assms
proof (induction s arbitrary: c)
  case (Cons l s)
  have step: "read_labels t c (label_encode_3octet l bottom @ z) =
      (if bottom then Some ([new_value (lbl_value l)], c + 3, z)
       else case read_labels t (c + 3) z of None \<Rightarrow> None | Some (ls, c', z') \<Rightarrow> Some (new_value (lbl_value l) # ls, c', z'))"
    for bottom z
  proof -
    obtain x y w where e: "label_encode_3octet l bottom = [x, y, w]" by (simp add: label_encode_3octet_def Let_def)
    have "value_of_3octet [x, y, w] = lbl_value l" "w AND 0x01 \<noteq> 0 \<longleftrightarrow> bottom" "drop_bit 1 w AND 0x07 = 0"
      using encode_3octet_entry[of l bottom] no_traffic_class[of l bottom] Cons.prems(2) unfolding e by simp_all
    moreover have "\<not> c \<ge> t" using Cons.prems(3) by simp
    moreover have "with_tc 0 (new_value (lbl_value l)) = new_value (lbl_value l)" by (simp add: with_tc_def new_value_def)
    ultimately show ?thesis unfolding e by (simp add: Let_def cong: option.case_cong)
  qed
  show ?case
  proof (cases s)
    case Nil
    then show ?thesis using step[of True rest] by simp
  next
    case (Cons m s')
    then show ?thesis using step[of False "encode_stack label_encode_3octet s @ rest"] Cons.IH[of "c + 3"] Cons.prems by simp
  qed
qed simp

definition labeled_fits :: "nlri_family \<Rightarrow> labeled_nlri \<Rightarrow> bool" where
  "labeled_fits fam e \<longleftrightarrow>
     fits fam (ln_prefix e) \<and> ln_stack e \<noteq> [] \<and> list_all (\<lambda>l. lbl_value l \<le> MAX_VALUE) (ln_stack e) \<and>
     24 * length (ln_stack e) + unat (prefix_len (ln_prefix e)) \<le> 255"

definition labeled_received :: "bool \<Rightarrow> labeled_nlri \<Rightarrow> labeled_nlri" where
  "labeled_received add_path e =
     \<lparr>ln_path_id = (if add_path then ln_path_id e else 0), ln_stack = map (\<lambda>l. new_value (lbl_value l)) (ln_stack e),
      ln_prefix = ip_net (ln_prefix e)\<rparr>"

lemma length_encode_3octet: "length (encode_3octet s) = 3 * length s"
  by (simp add: encode_3octet_def length_encode_stack)

lemma labeled_prefix_round:
  assumes "fits fam p"
  shows "labeled_prefix fam (unat (prefix_len p)) (prefix_octets p @ rest) = Some (ip_net p)"
proof -
  have len: "length (prefix_octets p) = (unat (prefix_len p) + 7) div 8"
    using assms length_prefix_octets by (simp add: fits_def octet_count_def)
  from assms show ?thesis
    by (cases rule: fits_cases)
      (simp_all add: labeled_prefix_def Let_def len ip_net_def octet_count_def not_less[symmetric])
qed

lemma labeled_round:
  assumes "labeled_fits fam e"
  shows "\<exists>b. labeled_encode add_path e = Some b \<and> b \<noteq> [] \<and>
    labeled_decode fam (b @ rest) add_path = Some (labeled_received add_path e, length b)"
proof -
  let ?p = "ln_prefix e" and ?s = "ln_stack e" and ?h = "if add_path then to_be_bytes 4 (ln_path_id e) else []"
  let ?l = "unat (prefix_len ?p)"
  define total where "total = 24 * length ?s + ?l"
  have f: "fits fam ?p" "?s \<noteq> []" "list_all (\<lambda>l. lbl_value l \<le> MAX_VALUE) ?s" "total \<le> 255"
    using assms by (simp_all add: labeled_fits_def total_def)
  have len: "length (prefix_octets ?p) = (?l + 7) div 8"
    using f(1) length_prefix_octets by (simp add: fits_def octet_count_def)
  define b where "b = ?h @ [of_nat total] @ encode_3octet ?s @ prefix_octets ?p"
  have enc: "labeled_encode add_path e = Some b"
    using f by (simp add: labeled_encode_def b_def length_encode_3octet total_def mult.commute)
  have u: "unat (of_nat total :: u8) = total" using f(4) by (simp add: unat_of_nat take_bit_nat_eq_self)
  have oct: "(total + 7) div 8 = 3 * length ?s + (?l + 7) div 8" by (simp add: total_def)
  have labels: "read_labels ((total + 7) div 8) 0 (encode_3octet ?s @ prefix_octets ?p @ rest) =
      Some (map (\<lambda>l. new_value (lbl_value l)) ?s, 3 * length ?s, prefix_octets ?p @ rest)"
    using read_labels_encoded[OF f(2,3), of 0] oct by (simp add: encode_3octet_def)
  have bits: "total - 24 * length ?s = ?l" "\<not> total < 24 * length ?s" by (simp_all add: total_def)
  have "labeled_decode fam (b @ rest) add_path = Some (labeled_received add_path e, length b)"
    using labels labeled_prefix_round[OF f(1), of rest]
    by (cases add_path)
      (simp_all add: labeled_decode_def b_def Let_def nth_append u length_encode_3octet len oct bits labeled_received_def
        from_to_be_bytes)
  then show ?thesis using enc by (intro exI[of _ b]) (simp add: b_def)
qed

text \<open>
  A list of labelled prefixes survives its wire form: every entry comes back with its label values and its
  prefix; traffic class and TTL are not sent.
\<close>

theorem labeled_roundtrip:
  assumes "list_all (labeled_fits fam) es"
  shows "decode_labeled_list fam add_path (encode_labeled_list add_path es) = Some (map (labeled_received add_path) es)"
  using assms
proof (induction es)
  case Nil
  then show ?case by (subst decode_labeled_list.simps) (simp add: encode_labeled_list_def)
next
  case (Cons e es)
  obtain b where b: "labeled_encode add_path e = Some b" "b \<noteq> []"
    "labeled_decode fam (b @ encode_labeled_list add_path es) add_path = Some (labeled_received add_path e, length b)"
    using labeled_round[of fam e add_path "encode_labeled_list add_path es"] Cons.prems by auto
  have "encode_labeled_list add_path (e # es) = b @ encode_labeled_list add_path es"
    using b(1) by (simp add: encode_labeled_list_def)
  then show ?case using b Cons by (subst decode_labeled_list.simps) simp
qed

theorem labeled_roundtrip_witness:
  "decode_labeled_list (NlriFamily 1 4) True
     (encode_labeled_list True [\<lparr>ln_path_id = 1, ln_stack = [new_value 16, new_value 17], ln_prefix = Prefix (V4 [10, 0, 0, 0]) 8\<rparr>]) =
   Some [labeled_received True \<lparr>ln_path_id = 1, ln_stack = [new_value 16, new_value 17], ln_prefix = Prefix (V4 [10, 0, 0, 0]) 8\<rparr>]"
  using labeled_roundtrip[of "NlriFamily 1 4" "[\<lparr>ln_path_id = 1, ln_stack = [new_value 16, new_value 17], ln_prefix = Prefix (V4 [10, 0, 0, 0]) 8\<rparr>]" True]
  by (simp add: labeled_fits_def fits_def prefix_wf_def new_value_def MAX_VALUE_def)

end
