(* ===== verification/LR_BgpCodec.thy ===== *)
theory LR_BgpCodec
  imports LR_MpNlri
begin

text \<open>
  The messages of \<open>crates/lr-bgp/src/message\<close> and their codec, \<open>codec.rs\<close>: encoding into the buffer of 4096 bytes,
  decoding of one frame, and repeated decoding of a stream of bytes.  The text of internal
  errors is left out.  An index outside a slice, which aborts the program, is an error of its own.
\<close>

section \<open>Messages\<close>

datatype refresh_subtype = RefreshNormal | BeginOfRib | EndOfRib | RefreshUnknown

fun refresh_subtype_code :: "refresh_subtype \<Rightarrow> u8" where
  "refresh_subtype_code RefreshNormal = 0"
| "refresh_subtype_code BeginOfRib = 1"
| "refresh_subtype_code EndOfRib = 2"
| "refresh_subtype_code RefreshUnknown = 0xff"

definition refresh_subtype_from_u8 :: "u8 \<Rightarrow> refresh_subtype option" where
  "refresh_subtype_from_u8 v =
     (if v = 0 then Some RefreshNormal else if v = 1 then Some BeginOfRib else if v = 2 then Some EndOfRib else None)"

record update =
  upd_withdrawn :: "nlri list"
  upd_attributes :: path_attributes
  upd_nlri :: "nlri list"

definition update_new :: update where
  "update_new = \<lparr>upd_withdrawn = [], upd_attributes = [], upd_nlri = []\<rparr>"

record route_refresh_msg =
  refresh_family :: nlri_family
  refresh_subtype :: refresh_subtype

record open_param =
  param_type :: u8
  param_value :: bytes

record open_msg =
  version :: u8
  my_as :: u32
  open_hold_time :: u16
  open_bgp_id :: u32
  params :: "open_param list"

definition open_new :: "u32 \<Rightarrow> u16 \<Rightarrow> u32 \<Rightarrow> open_msg" where
  "open_new a h i = \<lparr>version = 4, my_as = a, open_hold_time = h, open_bgp_id = i, params = []\<rparr>"

record bgp_notification =
  error_code :: u8
  error_subcode :: u8
  notif_data :: bytes

definition notification_new :: "u8 \<Rightarrow> u8 \<Rightarrow> bytes \<Rightarrow> bgp_notification" where
  "notification_new c sc d = \<lparr>error_code = c, error_subcode = sc, notif_data = d\<rparr>"

datatype bgp_message =
    MsgOpen open_msg
  | MsgUpdate update
  | MsgNotification bgp_notification
  | MsgKeepalive
  | MsgRouteRefresh route_refresh_msg

datatype message_type = TOpen | TUpdate | TNotification | TKeepalive | TRouteRefresh

definition message_type_from_u8 :: "u8 \<Rightarrow> message_type option" where
  "message_type_from_u8 v =
     (if v = 1 then Some TOpen
      else if v = 2 then Some TUpdate
      else if v = 3 then Some TNotification
      else if v = 4 then Some TKeepalive
      else if v = 5 then Some TRouteRefresh
      else None)"

fun message_kind :: "bgp_message \<Rightarrow> u8" where
  "message_kind (MsgOpen _) = 1"
| "message_kind (MsgUpdate _) = 2"
| "message_kind (MsgNotification _) = 3"
| "message_kind MsgKeepalive = 4"
| "message_kind (MsgRouteRefresh _) = 5"

text \<open>Errors, with the codes the decoder uses.\<close>

datatype bgp_error = Notify bgp_notification | CodecError | CodecPanic

definition header_error :: "u8 \<Rightarrow> bytes \<Rightarrow> bgp_error" where
  "header_error sc d = Notify (notification_new 1 sc d)"

definition BAD_OPEN_LENGTH :: bgp_error where
  "BAD_OPEN_LENGTH = Notify (notification_new 2 8 [])"

definition malformed_attributes :: "bytes \<Rightarrow> bgp_error" where
  "malformed_attributes d = Notify (notification_new 3 1 d)"

definition ATTRIBUTE_LENGTH_ERROR :: bgp_error where
  "ATTRIBUTE_LENGTH_ERROR = Notify (notification_new 3 5 [])"

section \<open>Encoding\<close>

datatype encode_error = BufferFull | InvalidNlri | EncodePanic

definition try_then :: "'e + 'a \<Rightarrow> ('a \<Rightarrow> 'e + 'b) \<Rightarrow> 'e + 'b" where
  "try_then r f = (case r of Inl e \<Rightarrow> Inl e | Inr x \<Rightarrow> f x)"

definition put :: "bytes \<Rightarrow> bytes \<Rightarrow> encode_error + bytes" where
  "put bs out = (if length out + length bs > 4096 then Inl BufferFull else Inr (out @ bs))"

fun puts :: "bytes list \<Rightarrow> bytes \<Rightarrow> encode_error + bytes" where
  "puts [] out = Inr out"
| "puts (bs # bss) out = try_then (put bs out) (puts bss)"

fun put_each :: "('a \<Rightarrow> bytes \<Rightarrow> encode_error + bytes) \<Rightarrow> 'a list \<Rightarrow> bytes \<Rightarrow> encode_error + bytes" where
  "put_each f [] out = Inr out"
| "put_each f (x # xs) out = try_then (f x out) (put_each f xs)"

definition put_at :: "nat \<Rightarrow> bytes \<Rightarrow> bytes \<Rightarrow> bytes" where
  "put_at pos bs out = take pos out @ bs @ drop (pos + length bs) out"

definition u16_bytes :: "nat \<Rightarrow> bytes" where
  "u16_bytes n = to_be_bytes 2 (of_nat n :: u16)"

definition encode_nlri :: "bool \<Rightarrow> nlri \<Rightarrow> bytes \<Rightarrow> encode_error + bytes" where
  "encode_nlri ap e out =
     (let p = nlri_prefix e
      in if \<not> is_ipv4 (addr p) then Inl InvalidNlri
         else try_then (if ap then put (to_be_bytes 4 (nlri_path_id e)) out else Inr out) (\<lambda>o1.
           try_then (put [prefix_len p] o1) (\<lambda>o2.
             let n = octet_count (prefix_len p)
             in case addr p of
                  V4 b \<Rightarrow> if n > length b then Inl EncodePanic else put (take n b) o2
                | V6 _ \<Rightarrow> Inl InvalidNlri)))"

definition encode_path_attribute :: "path_attribute \<Rightarrow> bytes \<Rightarrow> encode_error + bytes" where
  "encode_path_attribute a out =
     (let fl = (if length (pa_value a) > 255 then set_extended True (pa_flags a) else pa_flags a)
      in puts
           [[fl], [attr_type_to_u8 (pa_type a)],
            (if flag_extended_length fl then u16_bytes (length (pa_value a)) else [of_nat (length (pa_value a))]),
            pa_value a] out)"

definition never_sent :: "attr_type \<Rightarrow> bool" where
  "never_sent t \<longleftrightarrow>
     t \<in> {LrMplsLabelStack, LrExchangePlaneRecords, LrOspfMetric2, LrOspfRouterId, LrBabelSeqno, LrBabelRouterId,
          LrIgpMetric, LrPeerSourceAddress}"

definition encode_update :: "bool \<Rightarrow> update \<Rightarrow> bytes \<Rightarrow> encode_error + bytes" where
  "encode_update ap u out =
     try_then (put [0, 0] out) (\<lambda>o1.
       try_then (put_each (encode_nlri ap) (upd_withdrawn u) o1) (\<lambda>o2.
         let o3 = put_at (length out) (u16_bytes (length o2 - length o1)) o2
         in try_then (put [0, 0] o3) (\<lambda>o4.
              try_then (put_each (\<lambda>a o'. if never_sent (pa_type a) then Inr o' else encode_path_attribute a o')
                          (upd_attributes u) o4) (\<lambda>o5.
                let o6 = put_at (length o3) (u16_bytes (length o5 - length o4)) o5
                in put_each (encode_nlri ap) (upd_nlri u) o6))))"

definition encode_open :: "open_msg \<Rightarrow> bytes \<Rightarrow> encode_error + bytes" where
  "encode_open m out =
     (let as16 = (if my_as m \<le> 0xffff then ucast (my_as m) else 23456 :: u16)
      in try_then (puts [[version m], to_be_bytes 2 as16, to_be_bytes 2 (open_hold_time m), to_be_bytes 4 (open_bgp_id m), [0]] out)
           (\<lambda>o1.
             try_then (put_each (\<lambda>p. puts [[param_type p], [of_nat (length (param_value p))], param_value p]) (params m) o1)
               (\<lambda>o2. Inr (put_at (length o1 - 1) [of_nat (length o2 - length o1)] o2))))"

definition encode_notification :: "bgp_notification \<Rightarrow> bytes \<Rightarrow> encode_error + bytes" where
  "encode_notification n = puts [[error_code n], [error_subcode n], notif_data n]"

definition encode_route_refresh :: "route_refresh_msg \<Rightarrow> bytes \<Rightarrow> encode_error + bytes" where
  "encode_route_refresh r =
     puts [to_be_bytes 2 (afi (refresh_family r)), [refresh_subtype_code (refresh_subtype r)], [safi (refresh_family r)]]"

definition MARKER :: bytes where
  "MARKER = replicate 16 0xff"

definition encode_message :: "bool \<Rightarrow> bgp_message \<Rightarrow> encode_error + bytes" where
  "encode_message tx_v4 m =
     try_then (puts [MARKER, [0, 0], [message_kind m]] []) (\<lambda>o1.
       try_then
         (case m of
            MsgOpen op \<Rightarrow> encode_open op o1
          | MsgUpdate u \<Rightarrow> encode_update tx_v4 u o1
          | MsgNotification n \<Rightarrow> encode_notification n o1
          | MsgKeepalive \<Rightarrow> Inr o1
          | MsgRouteRefresh r \<Rightarrow> encode_route_refresh r o1)
         (\<lambda>o2. Inr (put_at 16 (u16_bytes (length o2)) o2)))"

section \<open>Decoding\<close>

fun open_params :: "bytes \<Rightarrow> bgp_error + open_param list" where
  "open_params (pt # pl # rest) =
     (if unat pl > length rest then Inl BAD_OPEN_LENGTH
      else map_sum id ((#) \<lparr>param_type = pt, param_value = take (unat pl) rest\<rparr>) (open_params (drop (unat pl) rest)))"
| "open_params _ = Inr []"

definition decode_open :: "bytes \<Rightarrow> bgp_error + open_msg" where
  "decode_open b =
     (if length b < 10 then Inl BAD_OPEN_LENGTH
      else let params_len = unat (b ! 9)
        in if length b < 10 + params_len then Inl BAD_OPEN_LENGTH
           else map_sum id
             (\<lambda>ps. \<lparr>version = b ! 0, my_as = ucast (from_be_bytes (take 2 (drop 1 b)) :: u16),
                open_hold_time = from_be_bytes (take 2 (drop 3 b)), open_bgp_id = from_be_bytes (take 4 (drop 5 b)), params = ps\<rparr>)
             (open_params (take params_len (drop 10 b))))"

definition decode_v4_entry :: "bool \<Rightarrow> bytes \<Rightarrow> bgp_error + nlri \<times> bytes" where
  "decode_v4_entry ap b =
     (case entry_path_id ap b of
        Inl _ \<Rightarrow> Inl CodecError
      | Inr (i, []) \<Rightarrow> Inl CodecPanic
      | Inr (i, pl # rest) \<Rightarrow>
          if pl > 32 then Inl CodecError
          else let n = octet_count pl
            in if length rest < n then Inl CodecError
               else Inr (nlri_new i (Prefix (V4 (padded 4 (take n rest))) pl), drop n rest))"

lemma decode_v4_entry_shorter: "decode_v4_entry ap b = Inr (e, rest) \<Longrightarrow> length rest < length b"
  by (auto simp: decode_v4_entry_def entry_path_id_def Let_def split: if_splits list.splits)
    (metis One_nat_def Suc_lessD Suc_pred diff_less_Suc length_Cons length_drop less_le_trans linorder_not_le not_less_eq)+

function decode_nlri_set :: "bool \<Rightarrow> bytes \<Rightarrow> bgp_error + nlri list" where
  "decode_nlri_set ap b =
     (if b = [] then Inr []
      else case decode_v4_entry ap b of
        Inl e \<Rightarrow> Inl e
      | Inr (e, rest) \<Rightarrow> map_sum id ((#) e) (decode_nlri_set ap rest))"
  by pat_completeness auto

termination
  by (relation "measure (\<lambda>(_, b). length b)") (auto dest: decode_v4_entry_shorter)

function decode_path_attributes :: "path_attributes \<Rightarrow> bytes \<Rightarrow> bgp_error + path_attributes" where
  "decode_path_attributes acc b =
     (if b = [] then Inr acc
      else if length b < 3 then Inl ATTRIBUTE_LENGTH_ERROR
      else let ext = flag_extended_length (b ! 0)
        in if ext \<and> length b < 4 then Inl ATTRIBUTE_LENGTH_ERROR
           else let attr_len = (if ext then unat (from_be_bytes (take 2 (drop 2 b)) :: u16) else unat (b ! 2));
                    value_start = (if ext then 4 else 3)
             in if length b < value_start + attr_len then Inl ATTRIBUTE_LENGTH_ERROR
                else let a = \<lparr>pa_flags = b ! 0, pa_type = attr_type_from_u8 (b ! 1), pa_value = take attr_len (drop value_start b)\<rparr>
                  in if pa_get acc (pa_type a) \<noteq> None then Inl (malformed_attributes [b ! 1])
                     else decode_path_attributes (pa_insert a acc) (drop (value_start + attr_len) b))"
  by pat_completeness auto

termination
  by (relation "measure (\<lambda>(_, b). length b)") auto

declare decode_nlri_set.simps [simp del] decode_path_attributes.simps [simp del]

definition decode_update :: "bool \<Rightarrow> bytes \<Rightarrow> bgp_error + update" where
  "decode_update ap b =
     (if length b < 4 then Inl (malformed_attributes [])
      else let wlen = unat (from_be_bytes (take 2 b) :: u16)
        in if 2 + wlen > length b then Inl (malformed_attributes [])
           else try_then (decode_nlri_set ap (take wlen (drop 2 b))) (\<lambda>ws.
             let i = 2 + wlen
             in if i + 2 > length b then Inl (malformed_attributes [])
                else let alen = unat (from_be_bytes (take 2 (drop i b)) :: u16)
                  in if i + 2 + alen > length b then Inl ATTRIBUTE_LENGTH_ERROR
                     else try_then (decode_path_attributes [] (take alen (drop (i + 2) b))) (\<lambda>as.
                       try_then (decode_nlri_set ap (drop (i + 2 + alen) b)) (\<lambda>ns.
                         Inr \<lparr>upd_withdrawn = ws, upd_attributes = as, upd_nlri = ns\<rparr>))))"

definition decode_notification :: "bytes \<Rightarrow> bgp_notification" where
  "decode_notification b =
     (if length b < 2 then notification_new 1 2 [] else notification_new (b ! 0) (b ! 1) (drop 2 b))"

definition decode_route_refresh :: "bytes \<Rightarrow> bgp_error + route_refresh_msg" where
  "decode_route_refresh b =
     (if length b \<noteq> 4 then Inl (header_error 2 [])
      else Inr \<lparr>refresh_family = NlriFamily (from_be_bytes (take 2 b)) (b ! 3),
        refresh_subtype = (case refresh_subtype_from_u8 (b ! 2) of Some t \<Rightarrow> t | None \<Rightarrow> RefreshUnknown)\<rparr>)"

definition decode_body :: "u8 \<Rightarrow> bytes \<Rightarrow> bool \<Rightarrow> bgp_error + bgp_message" where
  "decode_body k b rx_v4 =
     (case message_type_from_u8 k of
        None \<Rightarrow> Inl (header_error 3 [k])
      | Some TOpen \<Rightarrow> map_sum id MsgOpen (decode_open b)
      | Some TUpdate \<Rightarrow> map_sum id MsgUpdate (decode_update rx_v4 b)
      | Some TNotification \<Rightarrow> Inr (MsgNotification (decode_notification b))
      | Some TKeepalive \<Rightarrow> (if b \<noteq> [] then Inl (header_error 2 []) else Inr MsgKeepalive)
      | Some TRouteRefresh \<Rightarrow> map_sum id MsgRouteRefresh (decode_route_refresh b))"

definition try_decode_frame :: "bool \<Rightarrow> bytes \<Rightarrow> bgp_error + (nat \<times> bgp_message) option" where
  "try_decode_frame rx_v4 buf =
     (if length buf < 19 then Inr None
      else if take 16 buf \<noteq> MARKER then Inl (header_error 1 (take 4 buf))
      else let len = from_be_bytes (take 2 (drop 16 buf)) :: u16
        in if \<not> (19 \<le> len \<and> len \<le> 4096) then Inl (header_error 2 (to_be_bytes 2 len))
           else if length buf < unat len then Inr None
           else map_sum id (\<lambda>m. Some (unat len, m)) (decode_body (buf ! 18) (take (unat len - 19) (drop 19 buf)) rx_v4))"

text \<open>The codec of a session: bytes that do not make a frame yet are carried over to the next call.\<close>

record bgp_codec =
  carryover :: bytes
  codec_add_path_tx :: "nlri_family list"
  codec_add_path_rx :: "nlri_family list"

definition codec_new :: bgp_codec where
  "codec_new = \<lparr>carryover = [], codec_add_path_tx = [], codec_add_path_rx = []\<rparr>"

definition set_add_path :: "nlri_family list \<Rightarrow> nlri_family list \<Rightarrow> bgp_codec \<Rightarrow> bgp_codec" where
  "set_add_path tx rx c = c\<lparr>codec_add_path_tx := tx, codec_add_path_rx := rx\<rparr>"

definition encode_vec :: "bgp_message \<Rightarrow> bgp_codec \<Rightarrow> encode_error + bytes" where
  "encode_vec m c = encode_message (IPV4_UNICAST \<in> set (codec_add_path_tx c)) m"

definition decode_bgp :: "bytes \<Rightarrow> bgp_codec \<Rightarrow> bgp_codec \<times> (bgp_error + bgp_message option)" where
  "decode_bgp src c =
     (let b = carryover c @ src
      in case try_decode_frame (IPV4_UNICAST \<in> set (codec_add_path_rx c)) b of
           Inl e \<Rightarrow> (c\<lparr>carryover := b\<rparr>, Inl e)
         | Inr None \<Rightarrow> (c\<lparr>carryover := b\<rparr>, Inr None)
         | Inr (Some (n, m)) \<Rightarrow> (c\<lparr>carryover := drop n b\<rparr>, Inr (Some m)))"

text \<open>What repeated calls of \<open>decode_bgp\<close> pull from a stream: the messages, the bytes left over, and the error they stop at.\<close>

lemma frame_bounds:
  assumes "try_decode_frame rx b = Inr (Some (n, m))"
  shows "19 \<le> n \<and> n \<le> length b"
proof -
  define l where "l = (from_be_bytes (take 2 (drop 16 b)) :: u16)"
  have "n = unat l \<and> 19 \<le> l \<and> unat l \<le> length b"
    using assms unfolding try_decode_frame_def Let_def l_def[symmetric] by (auto simp: map_sum_Inr_iff not_less split: if_split_asm)
  then show ?thesis by (simp add: word_le_nat_alt)
qed

function decode_stream :: "bool \<Rightarrow> bytes \<Rightarrow> bgp_message list \<times> bytes \<times> bgp_error option" where
  "decode_stream rx b =
     (case try_decode_frame rx b of
        Inl e \<Rightarrow> ([], b, Some e)
      | Inr None \<Rightarrow> ([], b, None)
      | Inr (Some (n, m)) \<Rightarrow> (case decode_stream rx (drop n b) of (ms, rest, e) \<Rightarrow> (m # ms, rest, e)))"
  by pat_completeness auto

termination
  by (relation "measure (\<lambda>(_, b). length b)") (auto dest!: frame_bounds)

declare decode_stream.simps [simp del]

section \<open>What the encoder writes\<close>

lemma try_then_Inr: "try_then r f = Inr y \<longleftrightarrow> (\<exists>x. r = Inr x \<and> f x = Inr y)"
  by (cases r) (auto simp: try_then_def)

lemma try_then_simps [simp]: "try_then (Inr x) f = f x" "try_then (Inl e) f = Inl e"
  by (simp_all add: try_then_def)

text \<open>\<open>f\<close> appends \<open>bs\<close> whenever it succeeds, and stays within the buffer.\<close>

definition writes :: "(bytes \<Rightarrow> encode_error + bytes) \<Rightarrow> bytes \<Rightarrow> bool" where
  "writes f bs \<longleftrightarrow> (\<forall>out o'. f out = Inr o' \<longrightarrow> o' = out @ bs \<and> (length out \<le> 4096 \<longrightarrow> length o' \<le> 4096))"

lemma writesD: "writes f bs \<Longrightarrow> f out = Inr o' \<Longrightarrow> o' = out @ bs"
  by (simp add: writes_def)

lemma writes_bound: "writes f bs \<Longrightarrow> f out = Inr o' \<Longrightarrow> length out \<le> 4096 \<Longrightarrow> length o' \<le> 4096"
  by (simp add: writes_def)

lemma writes_put: "writes (put bs) bs"
  by (auto simp: writes_def put_def split: if_splits)

lemma writes_skip: "writes Inr []"
  by (simp add: writes_def)

lemma writes_then:
  assumes "writes f as" and "writes g bs"
  shows "writes (\<lambda>out. try_then (f out) g) (as @ bs)"
  unfolding writes_def
proof (intro allI impI)
  fix out o'
  assume "try_then (f out) g = Inr o'"
  then obtain x where x: "f out = Inr x" "g x = Inr o'" by (auto simp: try_then_Inr)
  then show "o' = out @ as @ bs \<and> (length out \<le> 4096 \<longrightarrow> length o' \<le> 4096)"
    using writesD[OF assms(1) x(1)] writesD[OF assms(2) x(2)] writes_bound[OF assms(1) x(1)] writes_bound[OF assms(2) x(2)] by simp
qed

lemma writes_puts: "writes (puts bss) (concat bss)"
proof (induction bss)
  case Nil
  then show ?case by (simp add: writes_def)
next
  case (Cons bs bss)
  have "puts (bs # bss) = (\<lambda>out. try_then (put bs out) (puts bss))" by (rule ext) simp
  then show ?case using writes_then[OF writes_put Cons] by simp
qed

lemma writes_each: "(\<And>x. x \<in> set xs \<Longrightarrow> writes (f x) (g x)) \<Longrightarrow> writes (put_each f xs) (concat (map g xs))"
proof (induction xs)
  case Nil
  then show ?case by (simp add: writes_def)
next
  case (Cons x xs)
  have w: "writes (f x) (g x)" "writes (put_each f xs) (concat (map g xs))" using Cons by simp_all
  have "put_each f (x # xs) = (\<lambda>out. try_then (f x out) (put_each f xs))" by (rule ext) simp
  then show ?case using writes_then[OF w] by simp
qed

lemma put_at_mid: "length xs = length bs \<Longrightarrow> put_at (length out) bs (out @ xs @ rest) = out @ bs @ rest"
  by (simp add: put_at_def)

definition v4_bytes :: "bool \<Rightarrow> nlri \<Rightarrow> bytes" where
  "v4_bytes ap e =
     (if ap then to_be_bytes 4 (nlri_path_id e) else []) @
     prefix_len (nlri_prefix e) # take (octet_count (prefix_len (nlri_prefix e))) (octets (addr (nlri_prefix e)))"

lemma writes_nlri: "writes (encode_nlri ap e) (v4_bytes ap e)"
proof (cases "addr (nlri_prefix e)")
  case (V4 b)
  let ?l = "prefix_len (nlri_prefix e)"
  let ?tail = "\<lambda>o2. if octet_count ?l > length b then Inl EncodePanic else put (take (octet_count ?l) b) o2"
  have "writes ?tail (take (octet_count ?l) b)" using writes_put by (cases "octet_count ?l > length b") (simp_all add: writes_def)
  then have t: "writes (\<lambda>o1. try_then (put [?l] o1) ?tail) ([?l] @ take (octet_count ?l) b)" by (rule writes_then[OF writes_put])
  have i: "writes (\<lambda>out. if ap then put (to_be_bytes 4 (nlri_path_id e)) out else Inr out) (if ap then to_be_bytes 4 (nlri_path_id e) else [])"
    by (cases ap) (simp_all add: writes_put writes_skip)
  have "encode_nlri ap e = (\<lambda>out. try_then (if ap then put (to_be_bytes 4 (nlri_path_id e)) out else Inr out)
      (\<lambda>o1. try_then (put [?l] o1) ?tail))"
    by (rule ext) (simp add: encode_nlri_def Let_def V4)
  then show ?thesis using writes_then[OF i t] V4 by (simp add: v4_bytes_def)
next
  case (V6 b)
  then show ?thesis by (simp add: writes_def encode_nlri_def)
qed

definition wire_attr :: "path_attribute \<Rightarrow> path_attribute" where
  "wire_attr a = a\<lparr>pa_flags := (if length (pa_value a) > 255 then set_extended True (pa_flags a) else pa_flags a)\<rparr>"

definition attribute_bytes :: "path_attribute \<Rightarrow> bytes" where
  "attribute_bytes a =
     [pa_flags (wire_attr a), attr_type_to_u8 (pa_type a)] @
     (if flag_extended_length (pa_flags (wire_attr a)) then u16_bytes (length (pa_value a)) else [of_nat (length (pa_value a))]) @
     pa_value a"

lemma writes_attribute: "writes (encode_path_attribute a) (attribute_bytes a)"
proof -
  have "encode_path_attribute a = puts
      [[pa_flags (wire_attr a)], [attr_type_to_u8 (pa_type a)],
       (if flag_extended_length (pa_flags (wire_attr a)) then u16_bytes (length (pa_value a)) else [of_nat (length (pa_value a))]),
       pa_value a]"
    by (rule ext) (simp add: encode_path_attribute_def wire_attr_def Let_def del: puts.simps)
  then show ?thesis using writes_puts[of "[[pa_flags (wire_attr a)], [attr_type_to_u8 (pa_type a)],
       (if flag_extended_length (pa_flags (wire_attr a)) then u16_bytes (length (pa_value a)) else [of_nat (length (pa_value a))]),
       pa_value a]"] by (simp only: attribute_bytes_def concat.simps append_Nil2 append.simps)
qed

definition sent_attributes :: "update \<Rightarrow> path_attributes" where
  "sent_attributes u = filter (\<lambda>a. \<not> never_sent (pa_type a)) (upd_attributes u)"

lemma writes_attributes:
  "writes (put_each (\<lambda>a o'. if never_sent (pa_type a) then Inr o' else encode_path_attribute a o') as)
     (concat (map attribute_bytes (filter (\<lambda>a. \<not> never_sent (pa_type a)) as)))"
proof -
  have "concat (map attribute_bytes (filter (\<lambda>a. \<not> never_sent (pa_type a)) as)) =
      concat (map (\<lambda>a. if never_sent (pa_type a) then [] else attribute_bytes a) as)"
    by (induction as) auto
  then show ?thesis
    by (simp only:) (rule writes_each, simp add: writes_attribute writes_skip)
qed

definition update_bytes :: "bool \<Rightarrow> update \<Rightarrow> bytes" where
  "update_bytes ap u =
     (let w = concat (map (v4_bytes ap) (upd_withdrawn u)); a = concat (map attribute_bytes (sent_attributes u))
      in u16_bytes (length w) @ w @ u16_bytes (length a) @ a @ concat (map (v4_bytes ap) (upd_nlri u)))"

lemma length_u16_bytes [simp]: "length (u16_bytes n) = 2"
  by (simp add: u16_bytes_def)

lemma writes_update: "writes (encode_update ap u) (update_bytes ap u)"
  unfolding writes_def
proof (intro allI impI)
  fix out o'
  assume e: "encode_update ap u out = Inr o'"
  let ?w = "concat (map (v4_bytes ap) (upd_withdrawn u))" and ?a = "concat (map attribute_bytes (sent_attributes u))"
  note wn = writes_each[OF writes_nlri[of ap]]
  obtain o1 o2 o4 o5 where
    s: "put [0, 0] out = Inr o1" "put_each (encode_nlri ap) (upd_withdrawn u) o1 = Inr o2"
      "put [0, 0] (put_at (length out) (u16_bytes (length o2 - length o1)) o2) = Inr o4"
      "put_each (\<lambda>a o'. if never_sent (pa_type a) then Inr o' else encode_path_attribute a o') (upd_attributes u) o4 = Inr o5"
      "put_each (encode_nlri ap) (upd_nlri u)
         (put_at (length (put_at (length out) (u16_bytes (length o2 - length o1)) o2)) (u16_bytes (length o5 - length o4)) o5) = Inr o'"
    using e by (auto simp: encode_update_def try_then_Inr Let_def)
  have o2: "o1 = out @ [0, 0]" "o2 = out @ [0, 0] @ ?w" using writesD[OF writes_put s(1)] writesD[OF wn s(2)] by simp_all
  then have o3: "put_at (length out) (u16_bytes (length o2 - length o1)) o2 = out @ u16_bytes (length ?w) @ ?w"
    using put_at_mid[of "[0, 0]" "u16_bytes (length ?w)" out ?w] by simp
  have o5: "o4 = (out @ u16_bytes (length ?w) @ ?w) @ [0, 0]" "o5 = (out @ u16_bytes (length ?w) @ ?w) @ [0, 0] @ ?a"
    using writesD[OF writes_put s(3)] writesD[OF writes_attributes s(4)] by (simp_all add: o3 sent_attributes_def)
  then have o6: "put_at (length (out @ u16_bytes (length ?w) @ ?w)) (u16_bytes (length o5 - length o4)) o5 =
      (out @ u16_bytes (length ?w) @ ?w) @ u16_bytes (length ?a) @ ?a"
    using put_at_mid[of "[0, 0]" "u16_bytes (length ?a)" "out @ u16_bytes (length ?w) @ ?w" ?a] by simp
  have len: "length (put_at n (u16_bytes k) x) = length x" if "n + 2 \<le> length x" for n k x
    using that by (simp add: put_at_def)
  have "length o1 \<le> 4096" if "length out \<le> 4096" using writes_bound[OF writes_put s(1) that] .
  then have b2: "length o2 \<le> 4096" if "length out \<le> 4096" using writes_bound[OF wn s(2)] that by blast
  then have "length o4 \<le> 4096" if "length out \<le> 4096"
    using writes_bound[OF writes_put s(3)] that o2 by (simp add: len)
  then have "length o5 \<le> 4096" if "length out \<le> 4096" using writes_bound[OF writes_attributes s(4)] that by blast
  then have "length o' \<le> 4096" if "length out \<le> 4096"
    using writes_bound[OF wn s(5)] that o2 o5 o3 by (simp add: len)
  moreover have "o' = out @ update_bytes ap u"
    using writesD[OF wn s(5)[unfolded o3, unfolded o6]] by (simp add: update_bytes_def Let_def)
  ultimately show "o' = out @ update_bytes ap u \<and> (length out \<le> 4096 \<longrightarrow> length o' \<le> 4096)" by blast
qed

definition param_bytes :: "open_param \<Rightarrow> bytes" where
  "param_bytes p = [param_type p, of_nat (length (param_value p))] @ param_value p"

definition open_bytes :: "open_msg \<Rightarrow> bytes" where
  "open_bytes m =
     (let ps = concat (map param_bytes (params m))
      in [version m] @ to_be_bytes 2 (if my_as m \<le> 0xffff then ucast (my_as m) else 23456 :: u16) @
         to_be_bytes 2 (open_hold_time m) @ to_be_bytes 4 (open_bgp_id m) @ [of_nat (length ps)] @ ps)"

lemma writes_open: "writes (encode_open m) (open_bytes m)"
  unfolding writes_def
proof (intro allI impI)
  fix out o'
  assume e: "encode_open m out = Inr o'"
  let ?h = "[version m] @ to_be_bytes 2 (if my_as m \<le> 0xffff then ucast (my_as m) else 23456 :: u16) @
      to_be_bytes 2 (open_hold_time m) @ to_be_bytes 4 (open_bgp_id m)"
  let ?p = "concat (map param_bytes (params m))"
  have wp: "writes (\<lambda>out. put_each (\<lambda>p. puts [[param_type p], [of_nat (length (param_value p))], param_value p]) (params m) out) ?p"
  proof (rule writes_each)
    fix x
    show "writes (puts [[param_type x], [of_nat (length (param_value x))], param_value x]) (param_bytes x)"
      using writes_puts[of "[[param_type x], [of_nat (length (param_value x))], param_value x]"]
      by (simp add: param_bytes_def del: puts.simps)
  qed
  obtain o1 o2 where s: "puts [[version m], to_be_bytes 2 (if my_as m \<le> 0xffff then ucast (my_as m) else 23456 :: u16),
      to_be_bytes 2 (open_hold_time m), to_be_bytes 4 (open_bgp_id m), [0]] out = Inr o1"
    "put_each (\<lambda>p. puts [[param_type p], [of_nat (length (param_value p))], param_value p]) (params m) o1 = Inr o2"
    "o' = put_at (length o1 - 1) [of_nat (length o2 - length o1)] o2"
    using e by (auto simp only: encode_open_def Let_def try_then_Inr sum.inject)
  have o2: "o1 = (out @ ?h) @ [0]" "o2 = (out @ ?h) @ [0] @ ?p" using writesD[OF writes_puts s(1)] writesD[OF wp s(2)] by simp_all
  then have p: "length o1 - 1 = length (out @ ?h)" "length o2 - length o1 = length ?p" by simp_all
  have "o' = (out @ ?h) @ [of_nat (length ?p)] @ ?p"
    by (simp only: s(3) p) (simp only: o2(2), rule put_at_mid, simp)
  moreover have "length o2 \<le> 4096" if "length out \<le> 4096"
    using writes_bound[OF wp s(2)] writes_bound[OF writes_puts s(1) that] by blast
  ultimately show "o' = out @ open_bytes m \<and> (length out \<le> 4096 \<longrightarrow> length o' \<le> 4096)"
    using o2 by (simp add: open_bytes_def Let_def)
qed

fun body_bytes :: "bool \<Rightarrow> bgp_message \<Rightarrow> bytes" where
  "body_bytes tx (MsgOpen m) = open_bytes m"
| "body_bytes tx (MsgUpdate u) = update_bytes tx u"
| "body_bytes tx (MsgNotification n) = [error_code n, error_subcode n] @ notif_data n"
| "body_bytes tx MsgKeepalive = []"
| "body_bytes tx (MsgRouteRefresh r) =
     to_be_bytes 2 (afi (refresh_family r)) @ [refresh_subtype_code (refresh_subtype r), safi (refresh_family r)]"

lemma encoded_message:
  assumes "encode_message tx m = Inr b"
  shows "b = MARKER @ u16_bytes (19 + length (body_bytes tx m)) @ [message_kind m] @ body_bytes tx m"
    and "length b \<le> 4096"
proof -
  have w: "writes (\<lambda>o1. case m of MsgOpen op \<Rightarrow> encode_open op o1 | MsgUpdate u \<Rightarrow> encode_update tx u o1
      | MsgNotification n \<Rightarrow> encode_notification n o1 | MsgKeepalive \<Rightarrow> Inr o1 | MsgRouteRefresh r \<Rightarrow> encode_route_refresh r o1)
      (body_bytes tx m)"
  proof (cases m)
    case (MsgNotification n)
    then show ?thesis using writes_puts[of "[[error_code n], [error_subcode n], notif_data n]"]
      by (simp add: encode_notification_def del: puts.simps)
  next
    case (MsgRouteRefresh r)
    then show ?thesis
      using writes_puts[of "[to_be_bytes 2 (afi (refresh_family r)), [refresh_subtype_code (refresh_subtype r)], [safi (refresh_family r)]]"]
      by (simp add: encode_route_refresh_def del: puts.simps)
  qed (simp_all add: writes_open writes_update writes_skip)
  obtain o1 o2 where s: "puts [MARKER, [0, 0], [message_kind m]] [] = Inr o1"
    "(case m of MsgOpen op \<Rightarrow> encode_open op o1 | MsgUpdate u \<Rightarrow> encode_update tx u o1
      | MsgNotification n \<Rightarrow> encode_notification n o1 | MsgKeepalive \<Rightarrow> Inr o1 | MsgRouteRefresh r \<Rightarrow> encode_route_refresh r o1) = Inr o2"
    "b = put_at 16 (u16_bytes (length o2)) o2"
    using assms by (auto simp only: encode_message_def try_then_Inr sum.inject)
  have o2: "o1 = MARKER @ [0, 0] @ [message_kind m]" "o2 = MARKER @ [0, 0] @ [message_kind m] @ body_bytes tx m"
    using writesD[OF writes_puts s(1)] writesD[OF w s(2)] by simp_all
  have M: "length MARKER = 16" by (simp add: MARKER_def)
  show "b = MARKER @ u16_bytes (19 + length (body_bytes tx m)) @ [message_kind m] @ body_bytes tx m"
    using put_at_mid[of "[0, 0]" "u16_bytes (length o2)" MARKER "[message_kind m] @ body_bytes tx m"] s(3) o2 M by simp
  have "length o2 \<le> 4096" using writes_bound[OF w s(2)] writes_bound[OF writes_puts s(1)] by simp
  then show "length b \<le> 4096" using s(3) o2 M by (simp add: put_at_def)
qed

section \<open>What the decoder reads back\<close>

lemma from_u16_bytes: "n < 65536 \<Longrightarrow> unat (from_be_bytes (u16_bytes n) :: u16) = n"
  by (simp add: u16_bytes_def from_to_be_bytes unat_of_nat take_bit_nat_eq_self)

definition plain_v4 :: "nlri \<Rightarrow> bool" where
  "plain_v4 e \<longleftrightarrow> fits IPV4_UNICAST (nlri_prefix e) \<and> ip_net (nlri_prefix e) = nlri_prefix e"

lemma decode_v4:
  assumes "plain_v4 e"
  shows "decode_v4_entry ap (v4_bytes ap e @ rest) = Inr (received ap e, rest)"
proof -
  let ?p = "nlri_prefix e"
  obtain b where a: "addr ?p = V4 b" and len: "length b = 4" "unat (prefix_len ?p) \<le> 32" and wf: "prefix_wf ?p"
    using assms by (cases "addr ?p") (auto simp: plain_v4_def fits_def prefix_wf_def IPV4_UNICAST_def)
  have net: "network ?p = V4 b" using assms a by (cases ?p) (auto simp: plain_v4_def ip_net_def)
  note po = padded_prefix_octets[OF wf] length_prefix_octets[OF wf]
  have "take (octet_count (prefix_len ?p)) b = prefix_octets ?p" using po a net len by (auto simp: padded_def)
  then have pad: "padded 4 (take (octet_count (prefix_len ?p)) b) = b" using po(1) a net len by simp
  have "\<not> prefix_len ?p > 32" using len(2) by (simp add: word_less_nat_alt)
  moreover have "octet_count (prefix_len ?p) \<le> 4" using len(2) by (simp add: octet_count_def)
  moreover have "Prefix (V4 b) (prefix_len ?p) = ?p" using a by (cases ?p) simp
  ultimately show ?thesis using pad len assms a
    by (simp add: decode_v4_entry_def v4_bytes_def entry_path_id_def from_to_be_bytes received_def plain_v4_def Let_def)
qed

lemma decode_v4_set:
  assumes "list_all plain_v4 es"
  shows "decode_nlri_set ap (concat (map (v4_bytes ap) es) @ rest) =
    map_sum id ((@) (map (received ap) es)) (decode_nlri_set ap rest)"
  using assms
proof (induction es)
  case Nil
  then show ?case by (cases "decode_nlri_set ap rest") simp_all
next
  case (Cons e es)
  have "v4_bytes ap e \<noteq> []" by (simp add: v4_bytes_def)
  with Cons show ?case
    by (subst decode_nlri_set.simps) (simp add: decode_v4, cases "decode_nlri_set ap rest", simp_all)
qed

lemma decode_nlri_Nil [simp]: "decode_nlri_set ap [] = Inr []"
  by (subst decode_nlri_set.simps) simp

lemma extended_set: "flag_extended_length (set_extended True f)"
proof -
  have "bit ((f OR EXTENDED_LENGTH * 1) AND EXTENDED_LENGTH) 4"
    by (simp add: bit_and_iff bit_or_iff EXTENDED_LENGTH_def bit_numeral_rec)
  moreover have "x \<noteq> 0" if "bit x 4" for x :: u8 using that by auto
  ultimately have "(f OR EXTENDED_LENGTH * 1) AND EXTENDED_LENGTH \<noteq> 0" by blast
  then show ?thesis by (simp add: flag_extended_length_def set_extended_def)
qed

lemma pa_insert_fresh: "pa_type a \<notin> pa_type ` set p \<Longrightarrow> pa_insert a p = p @ [a]"
  by (induction p) auto

lemma decode_attribute:
  assumes "canonical (pa_type a)" and "length (pa_value a) < 65536" and "pa_type a \<notin> pa_type ` set acc"
  shows "decode_path_attributes acc (attribute_bytes a @ rest) = decode_path_attributes (acc @ [wire_attr a]) rest"
proof -
  let ?fl = "pa_flags (wire_attr a)" and ?n = "length (pa_value a)"
  have short: "?n \<le> 255" if "\<not> flag_extended_length ?fl"
    using that extended_set by (auto simp: wire_attr_def split: if_splits)
  have u8: "unat (of_nat ?n :: u8) = ?n" if "\<not> flag_extended_length ?fl"
    using short[OF that] by (rule unat_of_nat_u8)
  have w: "\<lparr>pa_flags = ?fl, pa_type = pa_type a, pa_value = pa_value a\<rparr> = wire_attr a" by (cases a) (simp add: wire_attr_def)
  have pt: "pa_type (wire_attr a) = pa_type a" by (simp add: wire_attr_def)
  have ty: "attr_type_from_u8 (attr_type_to_u8 (pa_type a)) = pa_type a" using assms(1) by (simp add: canonical_def)
  have get: "pa_get acc (pa_type a) = None" using assms(3) by (simp add: pa_get_None)
  have ins: "pa_insert (wire_attr a) acc = acc @ [wire_attr a]"
    using assms(3) by (intro pa_insert_fresh) (simp add: wire_attr_def)
  obtain x y where xy: "u16_bytes ?n = [x, y]" using length_u16_bytes[of ?n] by (auto simp: numeral_2_eq_2 length_Suc_conv simp del: length_u16_bytes)
  show ?thesis
  proof (cases "flag_extended_length ?fl")
    case True
    then have b: "attribute_bytes a @ rest = ?fl # attr_type_to_u8 (pa_type a) # x # y # pa_value a @ rest"
      by (simp add: attribute_bytes_def xy)
    have "unat (from_be_bytes [x, y] :: u16) = ?n" using from_u16_bytes[OF assms(2)] by (simp add: xy)
    moreover have "drop (4 + ?n) (?fl # attr_type_to_u8 (pa_type a) # x # y # pa_value a @ rest) = rest" by (simp add: eval_nat_numeral)
    ultimately show ?thesis using True by (subst decode_path_attributes.simps) (simp add: b ty w pt get ins Let_def)
  next
    case False
    then have b: "attribute_bytes a @ rest = ?fl # attr_type_to_u8 (pa_type a) # of_nat ?n # pa_value a @ rest"
      by (simp add: attribute_bytes_def)
    have "drop (3 + ?n) (?fl # attr_type_to_u8 (pa_type a) # of_nat ?n # pa_value a @ rest) = rest" by (simp add: eval_nat_numeral)
    then show ?thesis using False u8[OF False] by (subst decode_path_attributes.simps) (simp add: b ty w pt get ins Let_def)
  qed
qed

lemma decode_attributes:
  assumes "list_all (\<lambda>a. canonical (pa_type a) \<and> length (pa_value a) < 65536) as" and "distinct (map pa_type (acc @ as))"
  shows "decode_path_attributes acc (concat (map attribute_bytes as)) = Inr (acc @ map wire_attr as)"
  using assms
proof (induction as arbitrary: acc)
  case Nil
  then show ?case by (subst decode_path_attributes.simps) simp
next
  case (Cons a as)
  have "pa_type (wire_attr a) = pa_type a" by (simp add: wire_attr_def)
  then have "decode_path_attributes (acc @ [wire_attr a]) (concat (map attribute_bytes as)) = Inr ((acc @ [wire_attr a]) @ map wire_attr as)"
    using Cons.prems by (intro Cons.IH) auto
  moreover have "decode_path_attributes acc (attribute_bytes a @ concat (map attribute_bytes as)) =
      decode_path_attributes (acc @ [wire_attr a]) (concat (map attribute_bytes as))"
    using Cons.prems by (intro decode_attribute) auto
  ultimately show ?case by simp
qed

definition update_ok :: "update \<Rightarrow> bool" where
  "update_ok u \<longleftrightarrow> list_all plain_v4 (upd_withdrawn u) \<and> list_all plain_v4 (upd_nlri u) \<and> pa_wf (upd_attributes u)"

definition wire_update :: "bool \<Rightarrow> update \<Rightarrow> update" where
  "wire_update ap u =
     \<lparr>upd_withdrawn = map (received ap) (upd_withdrawn u), upd_attributes = map wire_attr (sent_attributes u),
      upd_nlri = map (received ap) (upd_nlri u)\<rparr>"

lemma attribute_value_le: "a \<in> set as \<Longrightarrow> length (pa_value a) \<le> length (concat (map attribute_bytes as))"
  by (induction as) (auto simp: attribute_bytes_def)

lemma decode_update_tail:
  assumes "update_ok u" and "length (update_bytes ap u) \<le> 4096"
  shows "decode_update ap (update_bytes ap u @ tail) =
    map_sum id (\<lambda>ns. (wire_update ap u)\<lparr>upd_nlri := map (received ap) (upd_nlri u) @ ns\<rparr>) (decode_nlri_set ap tail)"
proof -
  let ?w = "concat (map (v4_bytes ap) (upd_withdrawn u))" and ?a = "concat (map attribute_bytes (sent_attributes u))"
  let ?n = "concat (map (v4_bytes ap) (upd_nlri u))"
  have len: "length ?w < 65536" "length ?a < 65536" using assms(2) by (simp_all add: update_bytes_def Let_def)
  have "list_all (\<lambda>a. canonical (pa_type a) \<and> length (pa_value a) < 65536) (sent_attributes u)"
    using assms(1) len(2) attribute_value_le[of _ "sent_attributes u"]
    by (fastforce simp: list_all_iff update_ok_def pa_wf_def sent_attributes_def)
  moreover have "distinct (map pa_type ([] @ sent_attributes u))"
    using assms(1) by (simp add: update_ok_def pa_wf_def pa_inv_def sent_attributes_def distinct_map_filter)
  ultimately have at: "decode_path_attributes [] ?a = Inr (map wire_attr (sent_attributes u))"
    using decode_attributes[of "sent_attributes u" "[]"] by simp
  have ws: "decode_nlri_set ap ?w = Inr (map (received ap) (upd_withdrawn u))"
    using decode_v4_set[of "upd_withdrawn u" ap "[]"] assms(1) by (simp add: update_ok_def)
  have ns: "decode_nlri_set ap (?n @ tail) = map_sum id ((@) (map (received ap) (upd_nlri u))) (decode_nlri_set ap tail)"
    using decode_v4_set[of "upd_nlri u" ap tail] assms(1) by (simp add: update_ok_def)
  show ?thesis
    using from_u16_bytes[OF len(1)] from_u16_bytes[OF len(2)]
    by (cases "decode_nlri_set ap tail")
      (simp_all add: decode_update_def update_bytes_def Let_def ws at ns wire_update_def)
qed

fun message_ok :: "bgp_message \<Rightarrow> bool" where
  "message_ok (MsgOpen m) \<longleftrightarrow> my_as m \<le> 0xffff \<and> length (concat (map param_bytes (params m))) \<le> 255"
| "message_ok (MsgUpdate u) \<longleftrightarrow> update_ok u"
| "message_ok _ \<longleftrightarrow> True"

fun wire_message :: "bool \<Rightarrow> bgp_message \<Rightarrow> bgp_message" where
  "wire_message ap (MsgUpdate u) = MsgUpdate (wire_update ap u)"
| "wire_message ap m = m"

lemma open_params_round:
  "length (concat (map param_bytes ps)) \<le> 255 \<Longrightarrow> open_params (concat (map param_bytes ps)) = Inr ps"
  by (induction ps) (simp_all add: param_bytes_def unat_of_nat_u8)

lemma decode_open_round:
  assumes "my_as m \<le> 0xffff" and "length (concat (map param_bytes (params m))) \<le> 255"
  shows "decode_open (open_bytes m) = Inr m"
proof -
  let ?p = "concat (map param_bytes (params m))"
  define h where "h = to_be_bytes 2 (ucast (my_as m) :: u16)"
  define t where "t = to_be_bytes 2 (open_hold_time m)"
  define i where "i = to_be_bytes 4 (open_bgp_id m)"
  have len: "length h = 2" "length t = 2" "length i = 4" by (simp_all add: h_def t_def i_def)
  have b: "open_bytes m = [version m] @ h @ t @ i @ [of_nat (length ?p)] @ ?p"
    using assms(1) by (simp add: open_bytes_def Let_def h_def t_def i_def)
  have "ucast (from_be_bytes h :: u16) = my_as m" "from_be_bytes t = open_hold_time m" "from_be_bytes i = open_bgp_id m"
    using ucast_u16_id[OF assms(1)] by (simp_all add: h_def t_def i_def from_to_be_bytes)
  moreover have "\<lparr>version = version m, my_as = my_as m, open_hold_time = open_hold_time m, open_bgp_id = open_bgp_id m, params = params m\<rparr> = m"
    by (cases m) simp
  ultimately show ?thesis
    using len open_params_round[OF assms(2)] unat_of_nat_u8[OF assms(2)]
    by (simp add: decode_open_def b nth_append Let_def drop_Cons')
qed

lemma refresh_subtype_round:
  "(case refresh_subtype_from_u8 (refresh_subtype_code t) of Some t' \<Rightarrow> t' | None \<Rightarrow> RefreshUnknown) = t"
  by (cases t) (simp_all add: refresh_subtype_from_u8_def)

lemma decode_body_round:
  assumes "message_ok m" and "length (body_bytes tx m) \<le> 4096"
  shows "decode_body (message_kind m) (body_bytes tx m) tx = Inr (wire_message tx m)"
proof (cases m)
  case (MsgOpen op)
  then show ?thesis using assms decode_open_round[of op] by (simp add: decode_body_def message_type_from_u8_def)
next
  case (MsgUpdate u)
  then show ?thesis using assms decode_update_tail[of u tx "[]"]
    by (simp add: decode_body_def message_type_from_u8_def wire_update_def)
next
  case (MsgNotification n)
  then show ?thesis by (simp add: decode_body_def message_type_from_u8_def decode_notification_def notification_new_def)
next
  case (MsgRouteRefresh r)
  have "refresh_family r = NlriFamily (afi (refresh_family r)) (safi (refresh_family r))" by simp
  then show ?thesis using MsgRouteRefresh refresh_subtype_round[of "refresh_subtype r"]
    by (simp add: decode_body_def message_type_from_u8_def decode_route_refresh_def nth_append from_to_be_bytes)
qed (simp add: decode_body_def message_type_from_u8_def)

lemma decode_encoded_frame:
  assumes "encode_message tx m = Inr b" and "message_ok m"
  shows "try_decode_frame tx (b @ rest) = Inr (Some (length b, wire_message tx m))"
proof -
  let ?B = "body_bytes tx m"
  have b: "b @ rest = MARKER @ u16_bytes (19 + length ?B) @ [message_kind m] @ ?B @ rest"
    and len: "19 + length ?B \<le> 4096" "length b = 19 + length ?B"
    using encoded_message[OF assms(1)] by (simp_all add: MARKER_def)
  have M: "length MARKER = 16" by (simp add: MARKER_def)
  define l where "l = (from_be_bytes (u16_bytes (19 + length ?B)) :: u16)"
  have u: "unat l = 19 + length ?B" using from_u16_bytes[of "19 + length ?B"] len by (simp add: l_def)
  then have "19 \<le> l" "l \<le> 4096" using len by (simp_all add: word_le_nat_alt)
  then show ?thesis
    using decode_body_round[OF assms(2), of tx] len M u
    by (simp add: try_decode_frame_def b nth_append Let_def l_def[symmetric])
qed

section \<open>Properties\<close>

lemma frame_append:
  assumes "try_decode_frame rx a \<noteq> Inr None"
  shows "try_decode_frame rx (a @ b) = try_decode_frame rx a"
proof -
  let ?len = "from_be_bytes (take 2 (drop 16 a)) :: u16"
  have l: "length a \<ge> 19" by (rule ccontr) (use assms in \<open>simp add: try_decode_frame_def\<close>)
  then have same: "take 16 (a @ b) = take 16 a" "take 4 (a @ b) = take 4 a" "take 2 (drop 16 (a @ b)) = take 2 (drop 16 a)"
    "(a @ b) ! 18 = a ! 18" by (simp_all add: nth_append)
  show ?thesis
  proof (cases "take 16 a = MARKER \<and> 19 \<le> ?len \<and> ?len \<le> 4096")
    case True
    then have "unat ?len \<le> length a" by (intro ccontr[of "_ \<le> _"]) (use assms l in \<open>simp add: try_decode_frame_def Let_def\<close>)
    moreover have "19 \<le> unat ?len" using True by (simp add: word_le_nat_alt)
    ultimately have "take (unat ?len - 19) (drop 19 (a @ b)) = take (unat ?len - 19) (drop 19 a)" by simp
    then show ?thesis using True l same \<open>unat ?len \<le> length a\<close> by (simp add: try_decode_frame_def Let_def del: take_append drop_append)
  next
    case False
    then show ?thesis using l same by (simp add: try_decode_frame_def Let_def del: take_append drop_append)
  qed
qed

lemma stream_append:
  "decode_stream rx (a @ b) =
     (case decode_stream rx a of
        (ms, rest, None) \<Rightarrow> (case decode_stream rx (rest @ b) of (ms', rest', e) \<Rightarrow> (ms @ ms', rest', e))
      | (ms, rest, Some e) \<Rightarrow> (ms, rest @ b, Some e))"
proof (induction rx a rule: decode_stream.induct)
  case (1 rx a)
  show ?case
  proof (cases "try_decode_frame rx a")
    case (Inl e)
    then show ?thesis using frame_append[of rx a b] by (simp add: decode_stream.simps[of rx a] decode_stream.simps[of rx "a @ b"])
  next
    case (Inr r)
    show ?thesis
    proof (cases r)
      case None
      then show ?thesis using Inr by (simp add: decode_stream.simps[of rx a] split: prod.split)
    next
      case (Some nm)
      obtain n m where nm: "nm = (n, m)" by fastforce
      have f: "try_decode_frame rx a = Inr (Some (n, m))" using Inr Some nm by simp
      then have "n \<le> length a" "try_decode_frame rx (a @ b) = Inr (Some (n, m))"
        using frame_bounds frame_append[of rx a b] by auto
      then show ?thesis using "1.IH"[OF f refl refl] f
        by (simp add: decode_stream.simps[of rx a] decode_stream.simps[of rx "a @ b"] split: prod.split option.split)
    qed
  qed
qed

text \<open>
  C11.  A stream of messages arrives as it was sent, however the transport cuts it into pieces: decoding the
  encodings of well-formed messages, one after another, yields exactly these messages and leaves no bytes, and decoding a
  stream in two pieces, with the leftover of the first put before the second, yields what decoding it at once does.
  Private attributes are not sent; the extended-length flag is set where the value needs it.
\<close>

theorem message_stream:
  assumes "list_all2 (\<lambda>m b. message_ok m \<and> encode_message tx m = Inr b) ms bs"
  shows "decode_stream tx (concat bs) = (map (wire_message tx) ms, [], None) \<and>
    decode_stream rx (x @ y) =
      (case decode_stream rx x of
         (ms, rest, None) \<Rightarrow> (case decode_stream rx (rest @ y) of (ms', rest', e) \<Rightarrow> (ms @ ms', rest', e))
       | (ms, rest, Some e) \<Rightarrow> (ms, rest @ y, Some e))"
proof
  show "decode_stream tx (concat bs) = (map (wire_message tx) ms, [], None)"
    using assms
  proof (induction ms bs rule: list_all2_induct)
    case Nil
    then show ?case by (subst decode_stream.simps) (simp add: try_decode_frame_def)
  next
    case (Cons m ms b bs)
    then have "try_decode_frame tx (b @ concat bs) = Inr (Some (length b, wire_message tx m))"
      by (intro decode_encoded_frame) auto
    then show ?case using Cons by (subst decode_stream.simps) simp
  qed
qed (rule stream_append)

definition sample_msgs :: "bgp_message list" where
  "sample_msgs = [MsgOpen (open_new 65000 90 1), MsgKeepalive,
     MsgUpdate \<lparr>upd_withdrawn = [], upd_attributes = [\<lparr>pa_flags = 0x40, pa_type = Origin, pa_value = [0]\<rparr>],
       upd_nlri = [nlri_plain (Prefix (V4 [10, 0, 0, 0]) 8)]\<rparr>]"

theorem message_stream_witness:
  "decode_stream False (concat (map (\<lambda>m. projr (encode_message False m)) sample_msgs)) = (sample_msgs, [], None)"
proof -
  have "list_all2 (\<lambda>m b. message_ok m \<and> encode_message False m = Inr b) sample_msgs (map (\<lambda>m. projr (encode_message False m)) sample_msgs)"
    by code_simp
  moreover have "map (wire_message False) sample_msgs = sample_msgs" by code_simp
  ultimately show ?thesis using message_stream[of False sample_msgs _ False "[]" "[]"] by simp
qed

text \<open>
  C12.  A peer with which path identifiers are negotiated for IPv4 can abort the program with one UPDATE: four
  bytes behind a well-formed body are read as an identifier, and the prefix length behind it is not there.
\<close>

theorem update_add_path_panics:
  assumes "update_ok u" and "length (update_bytes True u) \<le> 4096" and "length t = 4"
  shows "decode_body 2 (update_bytes True u @ t) True = Inl CodecPanic"
proof -
  have "decode_nlri_set True t = Inl CodecPanic"
    using assms(3) by (subst decode_nlri_set.simps) (auto simp: decode_v4_entry_def entry_path_id_def)
  then show ?thesis using decode_update_tail[OF assms(1,2), of t] by (simp add: decode_body_def message_type_from_u8_def)
qed

theorem update_add_path_panics_witness:
  "decode_body 2 (update_bytes True update_new @ [0, 0, 0, 7]) True = Inl CodecPanic"
  by (rule update_add_path_panics) (simp_all add: update_ok_def update_new_def pa_wf_def pa_inv_def update_bytes_def sent_attributes_def)

end
