(* ===== verification/LR_Role.thy ===== *)
theory LR_Role
  imports LR_Codec
begin

text \<open>
  Roles of BGP peers: \<open>crates/lr-bgp/src/role\<close> with the topological role of a peer, the Only-To-Customer attribute
  of RFC 9234, route reflection and confederations.
\<close>

section \<open>Only To Customer\<close>

definition OTC_ATTR_TYPE :: u8 where
  "OTC_ATTR_TYPE = 35"

datatype otc_role = RoleUnset | Provider | Customer | RolePeer | RouteServer | RsClient

fun is_upstream :: "otc_role \<Rightarrow> bool" where
  "is_upstream r \<longleftrightarrow> r = RolePeer \<or> r = Provider"

fun is_route_server :: "otc_role \<Rightarrow> bool" where
  "is_route_server r \<longleftrightarrow> r = RouteServer \<or> r = RsClient"

fun role_to_u8 :: "otc_role \<Rightarrow> u8" where
  "role_to_u8 RoleUnset = 0"
| "role_to_u8 Provider = 1"
| "role_to_u8 Customer = 2"
| "role_to_u8 RolePeer = 3"
| "role_to_u8 RouteServer = 4"
| "role_to_u8 RsClient = 5"

definition role_from_u8 :: "u8 \<Rightarrow> otc_role option" where
  "role_from_u8 v =
     (if v = 0 then Some RoleUnset
      else if v = 1 then Some Provider
      else if v = 2 then Some Customer
      else if v = 3 then Some RolePeer
      else if v = 4 then Some RouteServer
      else if v = 5 then Some RsClient
      else None)"

type_synonym otc = u32

definition otc_decode :: "bytes \<Rightarrow> otc option" where
  "otc_decode b = (if length b \<noteq> 4 then None else Some (from_be_bytes b))"

definition otc_encode :: "otc \<Rightarrow> bytes" where
  "otc_encode o' = to_be_bytes 4 o'"

definition otc_is_set :: "otc \<Rightarrow> bool" where
  "otc_is_set o' \<longleftrightarrow> o' \<noteq> 0"

datatype otc_leak = OtcLeak

fun otc_on_receive :: "otc option \<Rightarrow> otc_role \<Rightarrow> u32 \<Rightarrow> otc_leak + otc" where
  "otc_on_receive existing Provider peer_as =
     (if (case existing of Some o' \<Rightarrow> otc_is_set o' | None \<Rightarrow> False) then Inl OtcLeak else Inr 0)"
| "otc_on_receive existing RouteServer peer_as =
     (if (case existing of Some o' \<Rightarrow> otc_is_set o' | None \<Rightarrow> False) then Inl OtcLeak else Inr 0)"
| "otc_on_receive existing RolePeer peer_as =
     (case existing of
        Some o' \<Rightarrow> if otc_is_set o' \<and> o' \<noteq> peer_as then Inl OtcLeak else Inr o'
      | None \<Rightarrow> Inr peer_as)"
| "otc_on_receive existing Customer peer_as = Inr (case existing of Some o' \<Rightarrow> o' | None \<Rightarrow> peer_as)"
| "otc_on_receive existing RsClient peer_as = Inr (case existing of Some o' \<Rightarrow> o' | None \<Rightarrow> peer_as)"
| "otc_on_receive existing RoleUnset peer_as = Inr (case existing of Some o' \<Rightarrow> o' | None \<Rightarrow> 0)"

definition otc_can_advertise :: "otc \<Rightarrow> otc_role \<Rightarrow> bool" where
  "otc_can_advertise route_otc local_role \<longleftrightarrow>
     (if \<not> otc_is_set route_otc then True else local_role = Provider \<or> local_role = RouteServer)"

section \<open>Topological roles\<close>

datatype peer_role = Ebgp | Ibgp | ConfederationExternal | ConfederationInternal

fun is_internal :: "peer_role \<Rightarrow> bool" where
  "is_internal r \<longleftrightarrow> r = Ibgp \<or> r = ConfederationInternal"

fun is_external :: "peer_role \<Rightarrow> bool" where
  "is_external r \<longleftrightarrow> r = Ebgp \<or> r = ConfederationExternal"

fun prepends_as_path :: "peer_role \<Rightarrow> bool" where
  "prepends_as_path r \<longleftrightarrow> r = Ebgp \<or> r = ConfederationExternal"

fun rewrites_next_hop :: "peer_role \<Rightarrow> bool" where
  "rewrites_next_hop r \<longleftrightarrow> r = Ebgp \<or> r = ConfederationExternal"

record confederation_config =
  members :: "u32 list"
  confederation_id :: "u32 option"

definition confed_contains :: "u32 \<Rightarrow> confederation_config \<Rightarrow> bool" where
  "confed_contains a c \<longleftrightarrow> a \<in> set (members c)"

definition external_as :: "confederation_config \<Rightarrow> u32 option" where
  "external_as c =
     (case confederation_id c of
        Some i \<Rightarrow> Some i
      | None \<Rightarrow> (case members c of [] \<Rightarrow> None | m # _ \<Rightarrow> Some m))"

definition role_from_asns :: "u32 \<Rightarrow> u32 \<Rightarrow> confederation_config option \<Rightarrow> peer_role" where
  "role_from_asns local_as peer_as confed =
     (let plain = (if peer_as = local_as then Ibgp else Ebgp)
      in case confed of
           Some c \<Rightarrow>
             if peer_as \<in> set (members c) then
               (if peer_as = local_as then ConfederationInternal else ConfederationExternal)
             else plain
         | None \<Rightarrow> plain)"

record peer_topology =
  topo_role :: peer_role
  topo_rr_client :: bool
  topo_rs_client :: bool
  topo_otc :: otc_role

definition can_advertise :: "peer_topology \<Rightarrow> peer_topology \<Rightarrow> otc option \<Rightarrow> bool" where
  "can_advertise to from route_otc \<longleftrightarrow>
     (if is_internal (topo_role from) \<and> is_internal (topo_role to) \<and> \<not> topo_rr_client to \<and> \<not> topo_rr_client from
      then False
      else case route_otc of
        Some o' \<Rightarrow> otc_can_advertise o' (topo_otc to)
      | None \<Rightarrow> True)"

section \<open>Route reflection\<close>

record route_reflector_config =
  cluster_id :: u32
  rr_enabled :: bool

definition effective_cluster_id :: "u32 \<Rightarrow> route_reflector_config \<Rightarrow> u32" where
  "effective_cluster_id bgp_id c = (if cluster_id c \<noteq> 0 then cluster_id c else bgp_id)"

definition compute_originator_id :: "u32 option \<Rightarrow> u32 \<Rightarrow> u32 option" where
  "compute_originator_id existing bgp_id = (case existing of Some i \<Rightarrow> Some i | None \<Rightarrow> Some bgp_id)"

definition prepend_cluster_id :: "u32 list \<Rightarrow> u32 \<Rightarrow> u32 list" where
  "prepend_cluster_id l c = c # l"

definition cluster_list_has_loop :: "u32 list \<Rightarrow> u32 \<Rightarrow> bool" where
  "cluster_list_has_loop l c \<longleftrightarrow> c \<in> set l"

section \<open>Route servers\<close>

record route_server_config =
  rs_cfg_client :: bool
  inbound_policy :: "string option"
  outbound_policy :: "string option"
  strip_communities :: "u32 list"
  add_communities :: "u32 list"

definition route_server_default :: route_server_config where
  "route_server_default =
     \<lparr>rs_cfg_client = False, inbound_policy = None, outbound_policy = None, strip_communities = [], add_communities = []\<rparr>"

definition route_server_new_client :: route_server_config where
  "route_server_new_client =
     \<lparr>rs_cfg_client = True, inbound_policy = None, outbound_policy = None, strip_communities = [], add_communities = []\<rparr>"

section \<open>Properties\<close>

text \<open>
  What the two rules let through one system, exactly: a route with attribute \<open>existing\<close> that is received from
  a neighbour with the ingress rule and then offered to another with the egress rule.  Without the attribute it passes when it
  came from a customer or a route-server client, or without a role, and to customers and route-server clients in any case.  With
  a set attribute it goes to customers and route-server clients only, and only when it is no leak.  The value 0 passes
  everywhere.
\<close>

theorem otc_transit:
  assumes "sender \<noteq> 0"
  shows "(\<exists>v. otc_on_receive existing r sender = Inr v \<and> otc_can_advertise v r') \<longleftrightarrow>
    (case existing of
       None \<Rightarrow> r \<in> {Provider, RouteServer, RoleUnset} \<or> r' \<in> {Provider, RouteServer}
     | Some w \<Rightarrow> w = 0 \<or>
         r' \<in> {Provider, RouteServer} \<and> r \<notin> {Provider, RouteServer} \<and> (r = RolePeer \<longrightarrow> w = sender))"
  using assms by (cases r; cases r'; cases existing) (auto simp: otc_is_set_def otc_can_advertise_def)

theorem otc_transit_witness:
  "\<not> (\<exists>v. otc_on_receive None Customer 65001 = Inr v \<and> otc_can_advertise v RolePeer) \<and>
   (\<exists>v. otc_on_receive None Customer 65001 = Inr v \<and> otc_can_advertise v Provider)"
  using otc_transit[of 65001 None Customer RolePeer] otc_transit[of 65001 None Customer Provider] by simp

text \<open>
  What the ingress rule rejects, exactly: a set attribute from a customer or a route-server client, and
  one from a peer that names another system.  Otherwise the route keeps the value it has, or gets the
  number of the sender when it came down or across without the attribute.
\<close>

theorem otc_receive_exact:
  "(otc_on_receive existing r peer_as = Inl OtcLeak \<longleftrightarrow>
     (\<exists>v. existing = Some v \<and> v \<noteq> 0 \<and> (r \<in> {Provider, RouteServer} \<or> r = RolePeer \<and> v \<noteq> peer_as))) \<and>
   (\<forall>v. otc_on_receive existing r peer_as = Inr v \<longleftrightarrow>
     otc_on_receive existing r peer_as \<noteq> Inl OtcLeak \<and>
     v = (case existing of
            Some w \<Rightarrow> w
          | None \<Rightarrow> if r \<in> {RolePeer, Customer, RsClient} then peer_as else 0))"
  by (cases r; cases existing) (auto simp: otc_is_set_def)

text \<open>
  An attribute with the value 0 disarms the protection: a route from a provider or peer that carries it
  stays unmarked and may be sent on to every neighbour, and without a configured role a route with
  the attribute is sent to nobody.
\<close>

theorem otc_zero_disarms:
  "r \<in> {RolePeer, Customer, RsClient} \<Longrightarrow>
     otc_on_receive (Some 0) r peer_as = Inr 0 \<and> otc_can_advertise 0 r' \<and> (v \<noteq> 0 \<longrightarrow> \<not> otc_can_advertise v RoleUnset)"
  by (cases r) (auto simp: otc_is_set_def otc_can_advertise_def)

theorem otc_zero_disarms_witness:
  "otc_on_receive (Some 0) Customer 65001 = Inr 0 \<and> otc_can_advertise 0 Customer \<and> \<not> otc_can_advertise 65001 RoleUnset"
  using otc_zero_disarms[of Customer 65001 Customer 65001] by simp

lemma role_codec: "role_from_u8 (role_to_u8 r) = Some r"
  by (cases r) (simp_all add: role_from_u8_def)

lemma otc_codec: "otc_decode (otc_encode o') = Some o'"
  by (simp add: otc_decode_def otc_encode_def from_to_be_bytes)

end
