(* ===== verification/LR_Advertise.thy ===== *)
theory LR_Advertise
  imports LR_BgpCodec LR_Role
begin

text \<open>
  Egress of \<open>lr-bgp\<close>: the peer configuration of \<open>crates/lr-bgp/src/peer.rs\<close> with what a session has negotiated, and
  \<open>advertise.rs\<close>, which turns a route of the Loc-RIB into an UPDATE for one peer.  The build is the one with the
  default features.  A message that does not fit the encoder is not sent, and the callers do not look at that.
\<close>

section \<open>Peers\<close>

datatype max_prefix_action = MaxPrefixWarn | MaxPrefixTeardown | MaxPrefixRestart

record peer_config =
  local_as :: u32
  peer_as :: u32
  local_bgp_id :: u32
  hold_time :: u16
  route_reflector_client :: bool
  confederation_member :: bool
  cfg_peer_bgp_id :: "u32 option"
  cfg_asn4 :: bool
  mp_families :: "nlri_family list"
  default_ipv4_unicast :: bool
  add_path :: bool
  cfg_extended_next_hop :: "(u16 \<times> u8 \<times> u16) list"
  graceful_restart :: bool
  graceful_restart_time :: u16
  route_refresh :: bool
  enhanced_rr :: bool
  keepalive :: u16
  long_lived :: bool
  long_lived_stale_time :: u32
  role_override :: "peer_role option"
  cfg_otc_role :: otc_role
  confederation :: "confederation_config option"
  route_reflector :: route_reflector_config
  route_server :: route_server_config
  cfg_peer_id :: u64
  local_address :: "ip_addr option"
  local_as_tolerance :: u32
  soft_reconfig_inbound :: bool
  maximum_prefix :: "u32 option"
  maximum_prefix_action :: max_prefix_action
  maximum_prefix_threshold :: u8
  maximum_prefix_restart_time :: u32
  cfg_admin_down :: bool

definition peer_config_new :: "u32 \<Rightarrow> u32 \<Rightarrow> u32 \<Rightarrow> peer_config" where
  "peer_config_new l p i =
     \<lparr>local_as = l, peer_as = p, local_bgp_id = i, hold_time = 90, route_reflector_client = False,
      confederation_member = False, cfg_peer_bgp_id = None, cfg_asn4 = True, mp_families = [],
      default_ipv4_unicast = True, add_path = False, cfg_extended_next_hop = [], graceful_restart = False,
      graceful_restart_time = 120, route_refresh = True, enhanced_rr = True, keepalive = 0, long_lived = False,
      long_lived_stale_time = 0, role_override = None, cfg_otc_role = RoleUnset, confederation = None,
      route_reflector = \<lparr>cluster_id = 0, rr_enabled = False\<rparr>, route_server = route_server_default, cfg_peer_id = 0,
      local_address = None, local_as_tolerance = 0, soft_reconfig_inbound = False, maximum_prefix = None,
      maximum_prefix_action = MaxPrefixWarn, maximum_prefix_threshold = 75, maximum_prefix_restart_time = 0,
      cfg_admin_down = False\<rparr>"

definition rs_client :: "peer_config \<Rightarrow> bool" where
  "rs_client c = rs_cfg_client (route_server c)"

definition ipv4_unicast_active :: "peer_config \<Rightarrow> bool" where
  "ipv4_unicast_active c \<longleftrightarrow> default_ipv4_unicast c \<or> IPV4_UNICAST \<in> set (mp_families c)"

definition cfg_peer_role :: "peer_config \<Rightarrow> peer_role" where
  "cfg_peer_role c =
     (case role_override c of Some r \<Rightarrow> r | None \<Rightarrow> role_from_asns (local_as c) (peer_as c) (confederation c))"

definition is_ebgp :: "peer_config \<Rightarrow> bool" where
  "is_ebgp c \<longleftrightarrow> \<not> is_internal (cfg_peer_role c)"

definition compute_topology :: "peer_config \<Rightarrow> peer_topology" where
  "compute_topology c =
     \<lparr>topo_role = cfg_peer_role c, topo_rr_client = route_reflector_client c, topo_rs_client = rs_client c,
      topo_otc = cfg_otc_role c\<rparr>"

definition keepalive_interval :: "peer_config \<Rightarrow> u16" where
  "keepalive_interval c = (if keepalive c \<noteq> 0 then keepalive c else max (hold_time c div 3) 1)"

text \<open>Capabilities of the peer by their code, and the session.\<close>

definition GRACEFUL_RESTART :: u8 where
  "GRACEFUL_RESTART = 64"

definition LONG_LIVED :: u8 where
  "LONG_LIVED = 71"

record peer_message_stats =
  open_sent :: u64
  open_received :: u64
  update_sent :: u64
  update_received :: u64
  notification_sent :: u64
  notification_received :: u64
  keepalive_sent :: u64
  keepalive_received :: u64
  route_refresh_sent :: u64
  route_refresh_received :: u64

definition stats_new :: peer_message_stats where
  "stats_new =
     \<lparr>open_sent = 0, open_received = 0, update_sent = 0, update_received = 0, notification_sent = 0,
      notification_received = 0, keepalive_sent = 0, keepalive_received = 0, route_refresh_sent = 0,
      route_refresh_received = 0\<rparr>"

fun count_received :: "bgp_message \<Rightarrow> peer_message_stats \<Rightarrow> peer_message_stats" where
  "count_received (MsgOpen _) st = st\<lparr>open_received := open_received st + 1\<rparr>"
| "count_received (MsgUpdate _) st = st\<lparr>update_received := update_received st + 1\<rparr>"
| "count_received (MsgNotification _) st = st\<lparr>notification_received := notification_received st + 1\<rparr>"
| "count_received MsgKeepalive st = st\<lparr>keepalive_received := keepalive_received st + 1\<rparr>"
| "count_received (MsgRouteRefresh _) st = st\<lparr>route_refresh_received := route_refresh_received st + 1\<rparr>"

fun count_sent :: "bgp_message \<Rightarrow> peer_message_stats \<Rightarrow> peer_message_stats" where
  "count_sent (MsgOpen _) st = st\<lparr>open_sent := open_sent st + 1\<rparr>"
| "count_sent (MsgUpdate _) st = st\<lparr>update_sent := update_sent st + 1\<rparr>"
| "count_sent (MsgNotification _) st = st\<lparr>notification_sent := notification_sent st + 1\<rparr>"
| "count_sent MsgKeepalive st = st\<lparr>keepalive_sent := keepalive_sent st + 1\<rparr>"
| "count_sent (MsgRouteRefresh _) st = st\<lparr>route_refresh_sent := route_refresh_sent st + 1\<rparr>"

record bgp_peer =
  cfg :: peer_config
  codec :: bgp_codec
  established :: bool
  peer_capabilities :: "u8 list"
  add_path_tx :: "nlri_family list"
  extended_next_hop :: "(u16 \<times> u8 \<times> u16) list"
  out_buf :: bytes
  msg_stats :: peer_message_stats

definition add_path_tx_for :: "nlri_family \<Rightarrow> bgp_peer \<Rightarrow> bool" where
  "add_path_tx_for fam s \<longleftrightarrow> fam \<in> set (add_path_tx s)"

definition extended_next_hop_for :: "u16 \<Rightarrow> u8 \<Rightarrow> u16 \<Rightarrow> bgp_peer \<Rightarrow> bool" where
  "extended_next_hop_for a sa nh s \<longleftrightarrow> list_ex (\<lambda>t. t = (a, sa, nh)) (extended_next_hop s)"

definition llgr_negotiated :: "bgp_peer \<Rightarrow> bool" where
  "llgr_negotiated s \<longleftrightarrow>
     long_lived (cfg s) \<and> graceful_restart (cfg s) \<and>
     GRACEFUL_RESTART \<in> set (peer_capabilities s) \<and> LONG_LIVED \<in> set (peer_capabilities s)"

definition send_msg :: "bgp_message \<Rightarrow> bgp_peer \<Rightarrow> bgp_peer \<times> bool" where
  "send_msg msg s =
     (case encode_vec msg (codec s) of
        Inr bs \<Rightarrow> (s\<lparr>out_buf := out_buf s @ bs, msg_stats := count_sent msg (msg_stats s)\<rparr>, True)
      | Inl _ \<Rightarrow> (s, False))"

text \<open>The callers in \<open>advertise.rs\<close> drop the result.\<close>

definition send_update :: "update \<Rightarrow> bgp_peer \<Rightarrow> bgp_peer" where
  "send_update u s = fst (send_msg (MsgUpdate u) s)"

section \<open>Advertising\<close>

definition next_hop_attr :: "ip_addr \<Rightarrow> path_attribute" where
  "next_hop_attr ip =
     \<lparr>pa_flags = set_transitive True 0, pa_type = NextHop,
      pa_value = next_hop_encode (case ip of V4 b \<Rightarrow> NhV4 b | V6 b \<Rightarrow> NhV6 b)\<rparr>"

text \<open>The conditions under which a route is sent at all.\<close>

definition learned_internal :: "route \<Rightarrow> bool" where
  "learned_internal r \<longleftrightarrow> proto (origin r) = 1 \<and> route_protocol r = Bgp"

definition route_otc :: "path_attributes \<Rightarrow> otc option" where
  "route_otc p = Option.bind (pa_get p Otc) (\<lambda>a. otc_decode (pa_value a))"

definition egress_allowed :: "bgp_peer \<Rightarrow> route \<Rightarrow> bool" where
  "egress_allowed s r \<longleftrightarrow>
     (let topo = compute_topology (cfg s); attrs = of_attributes (attributes r)
      in established s \<and>
         \<not> (rk_family (key r) = IPV4_UNICAST \<and> \<not> ipv4_unicast_active (cfg s)) \<and>
         \<not> (learned_internal r \<and> is_internal (topo_role topo) \<and> \<not> topo_rr_client topo) \<and>
         otc_can_advertise (case route_otc attrs of Some v \<Rightarrow> v | None \<Rightarrow> 0) (topo_otc topo) \<and>
         \<not> (has_community attrs LLGR_STALE \<and> \<not> llgr_negotiated s))"

definition egress_path :: "peer_config \<Rightarrow> as_path \<Rightarrow> as_path" where
  "egress_path c p =
     (let topo = compute_topology c
      in if prepends_as_path (topo_role topo) \<and> \<not> topo_rs_client topo then
           (case topo_role topo of
              ConfederationExternal \<Rightarrow> prepend_confed (local_as c) p
            | Ebgp \<Rightarrow>
                (case confederation c of
                   Some confed \<Rightarrow>
                     prepend (case external_as confed of Some a \<Rightarrow> a | None \<Rightarrow> local_as c) (fst (strip_confed p))
                 | None \<Rightarrow> prepend (local_as c) p)
            | _ \<Rightarrow> p)
         else p)"

definition egress_as_path :: "peer_config \<Rightarrow> path_attributes \<Rightarrow> path_attributes" where
  "egress_as_path c attrs =
     (let as_path = egress_path c (case pa_as_path attrs of Some p \<Rightarrow> p | None \<Rightarrow> [])
      in pa_insert
           \<lparr>pa_flags = set_transitive True 0, pa_type = AsPath,
            pa_value = (if cfg_asn4 c then encode_4 as_path else encode_2 as_path)\<rparr>
           (pa_del As4Path (pa_del AsPath attrs)))"

definition egress_local_pref :: "peer_config \<Rightarrow> path_attributes \<Rightarrow> path_attributes" where
  "egress_local_pref c attrs =
     (if is_internal (topo_role (compute_topology c)) then
        (if pa_local_pref attrs = None then
           pa_insert \<lparr>pa_flags = set_transitive True 0, pa_type = LocalPref, pa_value = local_pref_encode 100\<rparr> attrs
         else attrs)
      else pa_del LocalPref attrs)"

definition own_next_hop :: "ip_addr \<Rightarrow> path_attributes \<Rightarrow> path_attributes \<times> ip_addr option" where
  "own_next_hop l attrs = (pa_insert (next_hop_attr l) (pa_del NextHop attrs), Some l)"

definition next_hop_self :: "nlri_family \<Rightarrow> bool \<Rightarrow> ip_addr \<Rightarrow> path_attributes \<times> ip_addr option \<Rightarrow> path_attributes \<times> ip_addr option" where
  "next_hop_self fam enh l x =
     (case l of
        V6 _ \<Rightarrow>
          if fam = IPV6_UNICAST then (fst x, Some l)
          else if fam = IPV4_UNICAST then (if enh then own_next_hop l (fst x) else x)
          else (fst x, Some l)
      | V4 _ \<Rightarrow>
          if fam = IPV4_UNICAST then own_next_hop l (fst x)
          else if fam = IPV6_UNICAST then x
          else (fst x, Some l))"

definition originated_next_hop :: "nlri_family \<Rightarrow> ip_addr \<Rightarrow> path_attributes \<times> ip_addr option \<Rightarrow> path_attributes \<times> ip_addr option" where
  "originated_next_hop fam l x =
     (case l of
        V4 _ \<Rightarrow> if fam = IPV4_UNICAST then own_next_hop l (fst x) else x
      | V6 _ \<Rightarrow> if fam = IPV6_UNICAST then (fst x, Some l) else x)"

definition egress_next_hop :: "bgp_peer \<Rightarrow> route \<Rightarrow> path_attributes \<Rightarrow> path_attributes \<times> ip_addr option" where
  "egress_next_hop s r attrs =
     (let c = cfg s; topo = compute_topology c; fam = rk_family (key r);
          nh = (case next_hop r of Some h \<Rightarrow> Some h | None \<Rightarrow> map_option next_hop_to_ip (pa_next_hop attrs))
      in if rewrites_next_hop (topo_role topo) \<and> \<not> topo_rs_client topo then
           (case local_address c of
              Some l \<Rightarrow> next_hop_self fam (fam = IPV4_UNICAST \<and> extended_next_hop_for 1 1 2 s) l (attrs, nh)
            | None \<Rightarrow> (attrs, nh))
         else if nh = None \<and> proto (origin r) = 2 then
           (case local_address c of Some l \<Rightarrow> originated_next_hop fam l (attrs, nh) | None \<Rightarrow> (attrs, nh))
         else (attrs, nh))"

definition reflect :: "peer_config \<Rightarrow> u32 option \<Rightarrow> path_attributes \<Rightarrow> path_attributes" where
  "reflect c originator_bgp_id attrs =
     (if route_reflector_client c \<and> rr_enabled (route_reflector c) then
        let cluster = effective_cluster_id (local_bgp_id c) (route_reflector c);
            a1 = (if pa_get attrs OriginatorId = None then
                    pa_insert
                      \<lparr>pa_flags = set_optional True 0, pa_type = OriginatorId,
                       pa_value = router_id_to_v4_bytes
                         (case originator_bgp_id of Some i \<Rightarrow> i | None \<Rightarrow> local_bgp_id c)\<rparr> attrs
                  else attrs);
            old = (case pa_get a1 ClusterList of
                     Some a \<Rightarrow> map from_be_bytes (chunks 4 (pa_value a))
                   | None \<Rightarrow> [])
        in pa_insert
             \<lparr>pa_flags = set_optional True 0, pa_type = ClusterList,
              pa_value = concat (map (to_be_bytes 4) (cluster # old))\<rparr> a1
      else attrs)"

definition mp_attr :: "attr_type \<Rightarrow> bytes \<Rightarrow> path_attribute" where
  "mp_attr t v = \<lparr>pa_flags = set_optional True 0, pa_type = t, pa_value = v\<rparr>"

definition mp_next_hop_of :: "ip_addr \<Rightarrow> mp_next_hop" where
  "mp_next_hop_of ip = (case ip of V4 b \<Rightarrow> MpV4 b | V6 b \<Rightarrow> V6Global b)"

definition labeled_update :: "bgp_peer \<Rightarrow> route \<Rightarrow> path_attributes \<Rightarrow> ip_addr option \<Rightarrow> update option" where
  "labeled_update s r attrs nh =
     (let fam = rk_family (key r)
      in case get_label_stack attrs of
           None \<Rightarrow> None
         | Some stack \<Rightarrow>
             (case nh of
                None \<Rightarrow> None
              | Some ip \<Rightarrow>
                  Some (update_new\<lparr>upd_attributes :=
                    pa_insert (mp_attr MpReachNlri
                        (encode_labeled_mp_reach fam (mp_next_hop_of ip)
                          [\<lparr>ln_path_id = path_id r, ln_stack = stack, ln_prefix = rk_prefix (key r)\<rparr>]
                          (add_path_tx_for fam s)))
                      (pa_del LrMplsLabelStack (pa_del MpUnreachNlri (pa_del MpReachNlri (pa_del NextHop attrs))))\<rparr>)))"

definition mp_update :: "bgp_peer \<Rightarrow> route \<Rightarrow> mp_next_hop \<Rightarrow> path_attributes \<Rightarrow> update" where
  "mp_update s r nh attrs =
     (let fam = rk_family (key r)
      in update_new\<lparr>upd_attributes :=
           pa_insert (mp_attr MpReachNlri
               (mp_reach_encode_ex (add_path_tx_for fam s)
                 \<lparr>mp_family = fam, mp_next_hop = nh, mp_nlri = [nlri_new (path_id r) (rk_prefix (key r))]\<rparr>))
             (pa_del MpUnreachNlri (pa_del MpReachNlri attrs))\<rparr>)"

definition egress_nlri :: "bgp_peer \<Rightarrow> route \<Rightarrow> path_attributes \<times> ip_addr option \<Rightarrow> update option" where
  "egress_nlri s r x =
     (let fam = rk_family (key r); attrs = fst x; nh = snd x
      in if is_labeled_unicast fam then labeled_update s r attrs nh
         else case (if fam = IPV4_UNICAST \<and> extended_next_hop_for 1 1 2 s then nh else None) of
           Some (V6 b) \<Rightarrow> Some (mp_update s r (V4OverV6 b) (pa_del NextHop attrs))
         | _ \<Rightarrow>
             if fam = IPV4_UNICAST then
               Some (update_new\<lparr>
                 upd_attributes :=
                   (case nh of
                      Some h \<Rightarrow> if pa_get attrs NextHop = None then pa_insert (next_hop_attr h) attrs else attrs
                    | None \<Rightarrow> attrs),
                 upd_nlri := [nlri_new (path_id r) (rk_prefix (key r))]\<rparr>)
             else (case nh of None \<Rightarrow> None | Some ip \<Rightarrow> Some (mp_update s r (mp_next_hop_of ip) attrs)))"

definition advertise_update :: "bgp_peer \<Rightarrow> route \<Rightarrow> u32 option \<Rightarrow> update option" where
  "advertise_update s r originator_bgp_id =
     (if egress_allowed s r then
        let attrs = egress_local_pref (cfg s) (egress_as_path (cfg s) (of_attributes (attributes r)));
            (attrs', nh) = egress_next_hop s r attrs
        in egress_nlri s r (reflect (cfg s) originator_bgp_id attrs', nh)
      else None)"

definition advertise_with_originator :: "route \<Rightarrow> u32 option \<Rightarrow> bgp_peer \<Rightarrow> bgp_peer \<times> bool" where
  "advertise_with_originator r originator_bgp_id s =
     (case advertise_update s r originator_bgp_id of
        None \<Rightarrow> (s, False)
      | Some u \<Rightarrow> (send_update u s, True))"

definition peer_advertise :: "route \<Rightarrow> bgp_peer \<Rightarrow> bgp_peer \<times> bool" where
  "peer_advertise r s = advertise_with_originator r None s"

section \<open>Withdrawing\<close>

definition implicit_null :: "nlri \<Rightarrow> labeled_nlri" where
  "implicit_null e = \<lparr>ln_path_id = nlri_path_id e, ln_stack = [new_value 3], ln_prefix = nlri_prefix e\<rparr>"

definition withdraw_paths :: "nlri list \<Rightarrow> nlri_family \<Rightarrow> bgp_peer \<Rightarrow> bgp_peer" where
  "withdraw_paths es fam s =
     (if \<not> established s then s
      else if fam = IPV4_UNICAST \<and> \<not> ipv4_unicast_active (cfg s) then s
      else if is_labeled_unicast fam then
        send_update (update_new\<lparr>upd_attributes :=
          [mp_attr MpUnreachNlri (encode_labeled_mp_unreach fam (map implicit_null es) (add_path_tx_for fam s))]\<rparr>) s
      else if fam = IPV4_UNICAST \<and> \<not> extended_next_hop_for 1 1 2 s then
        send_update (update_new\<lparr>upd_withdrawn := es\<rparr>) s
      else
        send_update (update_new\<lparr>upd_attributes :=
          [mp_attr MpUnreachNlri (mp_unreach_encode_ex (add_path_tx_for fam s) \<lparr>un_family = fam, un_nlri = es\<rparr>)]\<rparr>) s)"

definition withdraw :: "prefix list \<Rightarrow> nlri_family \<Rightarrow> bgp_peer \<Rightarrow> bgp_peer" where
  "withdraw ps fam s = withdraw_paths (map nlri_plain ps) fam s"

definition send_end_of_rib :: "bgp_peer \<Rightarrow> bgp_peer" where
  "send_end_of_rib s =
     (if \<not> established s then s
      else if \<not> ipv4_unicast_active (cfg s) then s
      else send_update update_new s)"

section \<open>What each stage changes\<close>

lemma pa_get_del: "pa_inv p \<Longrightarrow> pa_get (pa_del t p) t' = (if t' = t then None else pa_get p t')"
  by (simp add: pa_del_def pa_get_remove)

lemma pa_inv_del: "pa_inv p \<Longrightarrow> pa_inv (pa_del t p)"
  by (simp add: pa_del_def pa_inv_remove)

lemmas pa_edit = pa_get_del pa_inv_del pa_inv_insert

lemma pa_inv_of_attributes: "pa_inv (of_attributes m)"
  using pa_wf_of_attributes[of m] by (simp add: pa_wf_def)

lemma egress_as_path_frame:
  assumes "pa_inv p"
  shows "pa_inv (egress_as_path c p)"
    and "t \<noteq> AsPath \<Longrightarrow> t \<noteq> As4Path \<Longrightarrow> pa_get (egress_as_path c p) t = pa_get p t"
    and "pa_value_of (egress_as_path c p) AsPath =
      (let q = egress_path c (case pa_as_path p of Some p' \<Rightarrow> p' | None \<Rightarrow> []) in Some (if cfg_asn4 c then encode_4 q else encode_2 q))"
    and "pa_get (egress_as_path c p) As4Path = None"
  using assms by (simp_all add: egress_as_path_def Let_def pa_edit pa_value_of_def)

lemma egress_local_pref_frame:
  assumes "pa_inv p"
  shows "pa_inv (egress_local_pref c p)" and "t \<noteq> LocalPref \<Longrightarrow> pa_get (egress_local_pref c p) t = pa_get p t"
    and "pa_local_pref (egress_local_pref c p) =
      (if is_internal (cfg_peer_role c) then Some (case pa_local_pref p of Some v \<Rightarrow> v | None \<Rightarrow> 100) else None)"
  using assms
  by (auto simp: egress_local_pref_def pa_edit compute_topology_def pa_local_pref_def pa_value_of_def split: option.split)

lemma own_next_hop_frame:
  assumes "pa_inv p"
  shows "pa_inv (fst (own_next_hop l p))" and "t \<noteq> NextHop \<Longrightarrow> pa_get (fst (own_next_hop l p)) t = pa_get p t"
  using assms by (simp_all add: own_next_hop_def pa_edit next_hop_attr_def)

lemma egress_next_hop_frame:
  assumes "pa_inv p"
  shows "pa_inv (fst (egress_next_hop s r p)) \<and> (t \<noteq> NextHop \<longrightarrow> pa_get (fst (egress_next_hop s r p)) t = pa_get p t)"
  using assms own_next_hop_frame[OF assms]
  by (auto simp: egress_next_hop_def Let_def next_hop_self_def originated_next_hop_def split: option.split ip_addr.split)

lemma reflect_frame:
  assumes "pa_inv p"
  shows "pa_inv (reflect c i p) \<and> (t \<noteq> OriginatorId \<longrightarrow> t \<noteq> ClusterList \<longrightarrow> pa_get (reflect c i p) t = pa_get p t)"
  using assms by (auto simp: reflect_def Let_def pa_inv_insert)

definition nlri_types :: "attr_type set" where
  "nlri_types = {NextHop, MpReachNlri, MpUnreachNlri, LrMplsLabelStack}"

lemma egress_nlri_frame:
  assumes "pa_inv p" and "egress_nlri s r (p, nh) = Some u" and "t \<notin> nlri_types"
  shows "pa_get (upd_attributes u) t = pa_get p t"
  using assms
  by (auto simp: egress_nlri_def Let_def labeled_update_def mp_update_def nlri_types_def pa_edit mp_attr_def next_hop_attr_def
      split: if_splits option.splits ip_addr.splits)

definition staged :: "bgp_peer \<Rightarrow> route \<Rightarrow> path_attributes" where
  "staged s r = egress_local_pref (cfg s) (egress_as_path (cfg s) (of_attributes (attributes r)))"

lemma staged_frame:
  "pa_inv (staged s r)"
  "t \<notin> {AsPath, As4Path, LocalPref} \<Longrightarrow> pa_get (staged s r) t = pa_get (of_attributes (attributes r)) t"
  using egress_as_path_frame(1,2)[OF pa_inv_of_attributes] egress_local_pref_frame(1,2)[OF egress_as_path_frame(1)[OF pa_inv_of_attributes]]
  by (simp_all add: staged_def)

lemma advertise_update_Some:
  assumes "advertise_update s r i = Some u"
  shows "egress_allowed s r"
    and "egress_nlri s r (reflect (cfg s) i (fst (egress_next_hop s r (staged s r))), snd (egress_next_hop s r (staged s r))) = Some u"
  using assms by (auto simp: advertise_update_def staged_def Let_def split_beta split: if_splits)

lemma advertised_attribute:
  assumes "advertise_update s r i = Some u" and "t \<notin> nlri_types" and "t \<notin> {OriginatorId, ClusterList}"
  shows "pa_get (upd_attributes u) t = pa_get (staged s r) t"
proof -
  note nh = egress_next_hop_frame[OF staged_frame(1), of s r s r]
  note rf = reflect_frame[OF conjunct1[OF nh], of "cfg s" i]
  have "pa_get (upd_attributes u) t = pa_get (reflect (cfg s) i (fst (egress_next_hop s r (staged s r)))) t"
    using egress_nlri_frame[OF conjunct1[OF rf] advertise_update_Some(2)[OF assms(1)] assms(2)] .
  also have "\<dots> = pa_get (staged s r) t"
    using rf[of t] nh[of t] assms(2,3) by (auto simp: nlri_types_def)
  finally show ?thesis .
qed

section \<open>Properties\<close>

text \<open>
  Where the own AS goes on a path: in front of the numbers of the first segment of kind \<open>k\<close>, behind any segments
  of other kinds, or in a new segment at the head of a path without one.
\<close>

definition own_as_placed :: "as_path_type \<Rightarrow> u32 \<Rightarrow> as_path \<Rightarrow> as_path \<Rightarrow> bool" where
  "own_as_placed k a p q \<longleftrightarrow>
     (if k \<in> kind ` set p then
        \<exists>before seg after. p = before @ seg # after \<and> k \<notin> kind ` set before \<and> kind seg = k \<and>
          q = before @ seg\<lparr>ases := a # ases seg\<rparr> # after
      else q = \<lparr>kind = k, ases = [a]\<rparr> # p)"

definition own_as_first :: "u32 \<Rightarrow> as_path \<Rightarrow> bool" where
  "own_as_first a q \<longleftrightarrow> (\<exists>as rest. q = \<lparr>kind = Sequence, ases = a # as\<rparr> # rest)"

lemma prepend_in_None: "prepend_in k a p = None \<longleftrightarrow> k \<notin> kind ` set p"
  by (induction p) auto

lemma prepend_in_Some:
  "prepend_in k a p = Some q \<Longrightarrow> \<exists>before seg after. p = before @ seg # after \<and> k \<notin> kind ` set before \<and> kind seg = k \<and>
     q = before @ seg\<lparr>ases := a # ases seg\<rparr> # after"
proof (induction p arbitrary: q)
  case (Cons x p)
  show ?case
  proof (cases "kind x = k")
    case True
    then show ?thesis using Cons.prems by (intro exI[of _ "[]"]) auto
  next
    case False
    then obtain q' where q': "prepend_in k a p = Some q'" "q = x # q'" using Cons.prems by auto
    then obtain before seg after where "p = before @ seg # after" "k \<notin> kind ` set before" "kind seg = k"
      "q' = before @ seg\<lparr>ases := a # ases seg\<rparr> # after" using Cons.IH by blast
    with False q'(2) show ?thesis by (intro exI[of _ "x # before"] exI[of _ seg] exI[of _ after]) auto
  qed
qed simp

lemma prepend_placed: "own_as_placed Sequence a p (prepend a p)" "own_as_placed ConfedSequence a p (prepend_confed a p)"
  using prepend_in_None[of Sequence a p] prepend_in_Some[of Sequence a p]
    prepend_in_None[of ConfedSequence a p] prepend_in_Some[of ConfedSequence a p]
  by (auto simp: own_as_placed_def prepend_def prepend_confed_def simp del: image_iff split: option.split)

lemma placed_first:
  assumes "own_as_placed Sequence a p q"
  shows "own_as_first a q \<longleftrightarrow> p = [] \<or> kind (hd p) = Sequence \<or> Sequence \<notin> kind ` set p"
proof (cases "Sequence \<in> kind ` set p")
  case True
  then obtain before seg after where "p = before @ seg # after" "Sequence \<notin> kind ` set before" "kind seg = Sequence"
    "q = before @ seg\<lparr>ases := a # ases seg\<rparr> # after" using assms by (auto simp: own_as_placed_def)
  then show ?thesis using True by (cases before; cases seg) (auto simp: own_as_first_def)
next
  case False
  then show ?thesis using assms by (auto simp: own_as_placed_def own_as_first_def)
qed

lemma confed_prepend_in: "prepend_in Sequence a p = Some q \<Longrightarrow> has_confed q = has_confed p"
  by (induction p arbitrary: q) (auto simp: has_confed_def is_confed_def split: if_splits)

lemma confed_prepend: "has_confed (prepend a p) = has_confed p"
  using confed_prepend_in[of a p] by (auto simp: prepend_def has_confed_def is_confed_def split: option.split)

lemma confed_strip: "\<not> has_confed (fst (strip_confed p))"
  by (auto simp: strip_confed_def has_confed_def Let_def list_ex_iff)

definition announced_as :: "peer_config \<Rightarrow> u32" where
  "announced_as c =
     (case confederation c of
        Some f \<Rightarrow> (case external_as f of Some a \<Rightarrow> a | None \<Rightarrow> local_as c)
      | None \<Rightarrow> local_as c)"

text \<open>The path of a route as seen from outside: without the segments of a confederation we belong to.\<close>

definition outside_path :: "peer_config \<Rightarrow> as_path \<Rightarrow> as_path" where
  "outside_path c p = (if confederation c = None then p else filter (\<lambda>x. kind x \<noteq> ConfedSequence \<and> kind x \<noteq> ConfedSet) p)"

lemma egress_path_external:
  assumes "cfg_peer_role c = Ebgp" and "\<not> rs_client c"
  shows "own_as_placed Sequence (announced_as c) (outside_path c p) (egress_path c p)"
    and "confederation c \<noteq> None \<Longrightarrow> \<not> has_confed (egress_path c p)"
proof -
  have "egress_path c p = prepend (announced_as c) (outside_path c p)"
    using assms
    by (auto simp: egress_path_def compute_topology_def announced_as_def outside_path_def strip_confed_def is_confed_def
        Let_def split: option.split)
  then show "own_as_placed Sequence (announced_as c) (outside_path c p) (egress_path c p)" by (simp add: prepend_placed)
  show "\<not> has_confed (egress_path c p)" if "confederation c \<noteq> None"
    using that assms by (auto simp: egress_path_def compute_topology_def confed_prepend confed_strip Let_def)
qed

lemma egress_path_member:
  "cfg_peer_role c = ConfederationExternal \<Longrightarrow> \<not> rs_client c \<Longrightarrow> own_as_placed ConfedSequence (local_as c) p (egress_path c p)"
  by (simp add: egress_path_def compute_topology_def prepend_placed)

lemma egress_path_same: "is_internal (cfg_peer_role c) \<or> rs_client c \<Longrightarrow> egress_path c p = p"
  by (auto simp: egress_path_def compute_topology_def)

definition read_path :: "bool \<Rightarrow> bytes \<Rightarrow> as_path option" where
  "read_path wide b = (if wide then decode_4 b else decode_2 b)"

lemma read_path_encoded:
  "list_all (seg_fits wide) p \<Longrightarrow> read_path wide (if wide then encode_4 p else encode_2 p) = Some p"
  using decode_encode_inner[of wide p]
  by (simp add: read_path_def decode_4_def decode_2_def encode_4_def encode_2_def as_bytes_def split: if_splits)

definition route_path :: "route \<Rightarrow> as_path" where
  "route_path r = (case pa_as_path (of_attributes (attributes r)) of Some p \<Rightarrow> p | None \<Rightarrow> [])"

definition sample_peer :: "u32 \<Rightarrow> bgp_peer" where
  "sample_peer remote =
     \<lparr>cfg = (peer_config_new 65000 remote 1)\<lparr>
        local_address := Some (V4 [192, 0, 2, 1]), route_reflector_client := True,
        route_reflector := \<lparr>cluster_id = 9, rr_enabled = True\<rparr>\<rparr>,
      codec = codec_new, established = True, peer_capabilities = [], add_path_tx = [], extended_next_hop = [],
      out_buf = [], msg_stats = stats_new\<rparr>"

definition sample_update :: "u32 \<Rightarrow> update" where
  "sample_update remote = the (advertise_update (sample_peer remote) (sample_route 1) None)"

lemma sample_advertised: "advertise_update (sample_peer 65001) (sample_route 1) None = Some (sample_update 65001)"
  by code_simp

lemma sample_reflected: "advertise_update (sample_peer 65000) (sample_route 1) None = Some (sample_update 65000)"
  by code_simp

text \<open>
  C10.  What an UPDATE for a peer carries, when the path it gets fits the wire form of the session.  To an external peer
  that is no route-server client our AS, or the confederation identifier, goes in front of the first AS_SEQUENCE of the
  path, after the confederation segments are taken out; so the receiver reads it first exactly when the path does not
  begin with an AS_SET in front of a sequence.  To another member of the confederation our AS goes in front of the first
  confederation sequence.  To internal peers and route-server clients the path is unchanged.  LOCAL_PREF is that of the route or
  100 to an internal peer and not sent to others.  Attributes that no rule names, OTC among them, are sent as they are.
\<close>

theorem egress_attributes:
  assumes "advertise_update s r i = Some u"
    and "list_all (seg_fits (cfg_asn4 (cfg s))) (egress_path (cfg s) (route_path r))"
  shows "Option.bind (pa_value_of (upd_attributes u) AsPath) (read_path (cfg_asn4 (cfg s))) = Some (egress_path (cfg s) (route_path r)) \<and>
    (cfg_peer_role (cfg s) = Ebgp \<and> \<not> rs_client (cfg s) \<longrightarrow>
       own_as_placed Sequence (announced_as (cfg s)) (outside_path (cfg s) (route_path r)) (egress_path (cfg s) (route_path r)) \<and>
       (own_as_first (announced_as (cfg s)) (egress_path (cfg s) (route_path r)) \<longleftrightarrow>
          (case outside_path (cfg s) (route_path r) of
             [] \<Rightarrow> True | seg # rest \<Rightarrow> kind seg = Sequence \<or> Sequence \<notin> kind ` set rest)) \<and>
       (confederation (cfg s) \<noteq> None \<longrightarrow> \<not> has_confed (egress_path (cfg s) (route_path r)))) \<and>
    (cfg_peer_role (cfg s) = ConfederationExternal \<and> \<not> rs_client (cfg s) \<longrightarrow>
       own_as_placed ConfedSequence (local_as (cfg s)) (route_path r) (egress_path (cfg s) (route_path r))) \<and>
    (is_internal (cfg_peer_role (cfg s)) \<or> rs_client (cfg s) \<longrightarrow> egress_path (cfg s) (route_path r) = route_path r) \<and>
    pa_local_pref (upd_attributes u) =
      (if is_internal (cfg_peer_role (cfg s)) then
         Some (case pa_local_pref (of_attributes (attributes r)) of Some v \<Rightarrow> v | None \<Rightarrow> 100) else None) \<and>
    (t \<notin> nlri_types \<union> {OriginatorId, ClusterList, AsPath, As4Path, LocalPref} \<longrightarrow>
       pa_get (upd_attributes u) t = pa_get (of_attributes (attributes r)) t)"
proof (intro conjI impI)
  let ?p = "of_attributes (attributes r)"
  note inv = pa_inv_of_attributes[of "attributes r"]
  note inv' = egress_as_path_frame(1)[OF inv, of "cfg s"]
  have "pa_value_of (upd_attributes u) AsPath = pa_value_of (egress_as_path (cfg s) ?p) AsPath"
    using advertised_attribute[OF assms(1), of AsPath] egress_local_pref_frame(2)[OF inv', of AsPath "cfg s"]
    by (simp add: nlri_types_def pa_value_of_def staged_def)
  then have v: "pa_value_of (upd_attributes u) AsPath =
      Some (if cfg_asn4 (cfg s) then encode_4 (egress_path (cfg s) (route_path r)) else encode_2 (egress_path (cfg s) (route_path r)))"
    using egress_as_path_frame(3)[OF inv, of "cfg s"] by (simp add: route_path_def Let_def)
  show "Option.bind (pa_value_of (upd_attributes u) AsPath) (read_path (cfg_asn4 (cfg s))) = Some (egress_path (cfg s) (route_path r))"
    unfolding v using read_path_encoded[OF assms(2)] by (simp only: Option.bind.simps)
  have "pa_local_pref (upd_attributes u) = pa_local_pref (staged s r)"
    using advertised_attribute[OF assms(1), of LocalPref] by (simp add: nlri_types_def pa_local_pref_def pa_value_of_def)
  also have "\<dots> = (if is_internal (cfg_peer_role (cfg s)) then
      Some (case pa_local_pref (egress_as_path (cfg s) ?p) of Some v \<Rightarrow> v | None \<Rightarrow> 100) else None)"
    unfolding staged_def by (rule egress_local_pref_frame(3)[OF inv'])
  also have "pa_local_pref (egress_as_path (cfg s) ?p) = pa_local_pref ?p"
    using egress_as_path_frame(2)[OF inv, of LocalPref "cfg s"] by (simp add: pa_local_pref_def pa_value_of_def)
  finally show "pa_local_pref (upd_attributes u) =
      (if is_internal (cfg_peer_role (cfg s)) then Some (case pa_local_pref ?p of Some v \<Rightarrow> v | None \<Rightarrow> 100) else None)" .
  show "pa_get (upd_attributes u) t = pa_get ?p t" if "t \<notin> nlri_types \<union> {OriginatorId, ClusterList, AsPath, As4Path, LocalPref}"
    using that advertised_attribute[OF assms(1), of t] staged_frame(2)[of t s r] by simp
next
  assume e: "cfg_peer_role (cfg s) = Ebgp \<and> \<not> rs_client (cfg s)"
  then show "own_as_first (announced_as (cfg s)) (egress_path (cfg s) (route_path r)) \<longleftrightarrow>
      (case outside_path (cfg s) (route_path r) of
         [] \<Rightarrow> True | seg # rest \<Rightarrow> kind seg = Sequence \<or> Sequence \<notin> kind ` set rest)"
    using placed_first[OF egress_path_external(1)[of "cfg s" "route_path r"]] by (auto split: list.split)
qed (use egress_path_external egress_path_member egress_path_same in \<open>blast+\<close>)

theorem egress_attributes_witness:
  "Option.bind (pa_value_of (upd_attributes (sample_update 65001)) AsPath) decode_4 = Some [\<lparr>kind = Sequence, ases = [65000]\<rparr>] \<and>
   pa_local_pref (upd_attributes (sample_update 65001)) = None"
proof -
  have e: "egress_path (cfg (sample_peer 65001)) (route_path (sample_route 1)) = [\<lparr>kind = Sequence, ases = [65000]\<rparr>]" by code_simp
  have c: "cfg_asn4 (cfg (sample_peer 65001))" "\<not> is_internal (cfg_peer_role (cfg (sample_peer 65001)))" by code_simp+
  show ?thesis using egress_attributes[OF sample_advertised] c by (simp add: e seg_fits_def asn_fits_def read_path_def[abs_def])
qed

text \<open>
  C27.  When a route is not sent: never on a session that is not established, never from an internal peer to another one
  that is no client, never a long-lived stale route to a peer without that capability, never IPv4 to a peer not
  activated for it, and a route with a set OTC attribute only to customers and route-server clients.
\<close>

theorem egress_gates:
  assumes "advertise_with_originator r i s = (s', True)"
  shows "established s \<and> (rk_family (key r) = IPV4_UNICAST \<longrightarrow> ipv4_unicast_active (cfg s)) \<and>
    (learned_internal r \<and> is_internal (cfg_peer_role (cfg s)) \<longrightarrow> route_reflector_client (cfg s)) \<and>
    (\<forall>v. route_otc (of_attributes (attributes r)) = Some v \<and> v \<noteq> 0 \<longrightarrow> cfg_otc_role (cfg s) \<in> {Provider, RouteServer}) \<and>
    (has_community (of_attributes (attributes r)) LLGR_STALE \<longrightarrow> llgr_negotiated s) \<and>
    (\<exists>u. s' = fst (send_msg (MsgUpdate u) s) \<and> advertise_update s r i = Some u)"
proof -
  obtain u where u: "advertise_update s r i = Some u" "s' = fst (send_msg (MsgUpdate u) s)"
    using assms by (auto simp: advertise_with_originator_def send_update_def split: option.splits)
  then show ?thesis using advertise_update_Some(1)[OF u(1)]
    by (auto simp: egress_allowed_def Let_def compute_topology_def otc_can_advertise_def otc_is_set_def)
qed

theorem egress_gates_witness:
  "established (sample_peer 65000) \<and> route_reflector_client (cfg (sample_peer 65000))"
proof -
  have a: "advertise_with_originator (sample_route 1) None (sample_peer 65000) = (send_update (sample_update 65000) (sample_peer 65000), True)"
    by (simp add: advertise_with_originator_def sample_reflected)
  have "learned_internal (sample_route 1)" "is_internal (cfg_peer_role (cfg (sample_peer 65000)))" by code_simp+
  then show ?thesis using egress_gates[OF a] by blast
qed

text \<open>
  C9.  Reflection leaves the trace that breaks loops: to a client the cluster list becomes the own cluster
  followed by the clusters of the route, so that the reflector finds itself when the route comes back, and
  an originator already named is kept.
\<close>

theorem reflection_trace:
  assumes "advertise_update s r i = Some u" and "route_reflector_client (cfg s)" and "rr_enabled (route_reflector (cfg s))"
    and "pa_cluster_list (of_attributes (attributes r)) = Some cl"
  shows "pa_cluster_list (upd_attributes u) = Some (effective_cluster_id (local_bgp_id (cfg s)) (route_reflector (cfg s)) # cl) \<and>
    cluster_list_contains (effective_cluster_id (local_bgp_id (cfg s)) (route_reflector (cfg s)) # cl)
      (effective_cluster_id (local_bgp_id (cfg s)) (route_reflector (cfg s))) \<and>
    pa_originator_id (upd_attributes u) =
      (case pa_get (of_attributes (attributes r)) OriginatorId of
         Some a \<Rightarrow> originator_id_decode (pa_value a)
       | None \<Rightarrow> Some (case i of Some j \<Rightarrow> j | None \<Rightarrow> local_bgp_id (cfg s)))"
proof -
  let ?p = "of_attributes (attributes r)" and ?c = "cfg s" and ?q = "fst (egress_next_hop s r (staged s r))"
  let ?k = "effective_cluster_id (local_bgp_id ?c) (route_reflector ?c)"
  note nh = egress_next_hop_frame[OF staged_frame(1), of s r s r]
  note rf = reflect_frame[OF conjunct1[OF nh], of ?c i]
  have q: "pa_get ?q t = pa_get ?p t" if "t \<in> {OriginatorId, ClusterList}" for t
    using that nh[of t] staged_frame(2)[of t s r] by auto
  have u: "pa_get (upd_attributes u) t = pa_get (reflect ?c i ?q) t" if "t \<notin> nlri_types" for t
    using egress_nlri_frame[OF conjunct1[OF rf] advertise_update_Some(2)[OF assms(1)] that] .
  have old: "(case pa_get ?p ClusterList of Some a \<Rightarrow> map from_be_bytes (chunks 4 (pa_value a)) | None \<Rightarrow> []) = cl"
    using assms(4)
    by (auto simp: pa_cluster_list_def cluster_list_decode_def router_id_from_v4_def[abs_def] split: option.splits if_splits)
  have "pa_get (reflect ?c i ?q) ClusterList =
      Some \<lparr>pa_flags = set_optional True 0, pa_type = ClusterList, pa_value = cluster_list_encode (?k # cl)\<rparr>"
    using assms(2,3) q[of ClusterList] old
    by (simp add: reflect_def Let_def cluster_list_encode_def router_id_to_v4_bytes_def[abs_def])
  moreover have "pa_get (reflect ?c i ?q) OriginatorId = (case pa_get ?p OriginatorId of
      Some a \<Rightarrow> Some a
    | None \<Rightarrow> Some \<lparr>pa_flags = set_optional True 0, pa_type = OriginatorId,
        pa_value = originator_id_encode (case i of Some j \<Rightarrow> j | None \<Rightarrow> local_bgp_id ?c)\<rparr>)"
    using assms(2,3) q[of OriginatorId] by (simp add: reflect_def Let_def originator_id_encode_def split: option.split)
  ultimately show ?thesis
    using u[of ClusterList] u[of OriginatorId] cluster_list_round[of "?k # cl"]
    by (simp add: pa_cluster_list_def pa_originator_id_def pa_value_of_def nlri_types_def cluster_list_contains_def
        split: option.split)
qed

theorem reflection_trace_witness:
  "pa_cluster_list (upd_attributes (sample_update 65000)) = Some [9] \<and> pa_originator_id (upd_attributes (sample_update 65000)) = Some 1"
proof -
  have c: "route_reflector_client (cfg (sample_peer 65000))" "rr_enabled (route_reflector (cfg (sample_peer 65000)))"
    "pa_cluster_list (of_attributes (attributes (sample_route 1))) = Some []"
    "effective_cluster_id (local_bgp_id (cfg (sample_peer 65000))) (route_reflector (cfg (sample_peer 65000))) = 9"
    "local_bgp_id (cfg (sample_peer 65000)) = 1" "pa_get (of_attributes (attributes (sample_route 1))) OriginatorId = None"
    by code_simp+
  show ?thesis using reflection_trace[OF sample_reflected c(1-3)] unfolding c(4) by (simp add: c(5,6))
qed

text \<open>
  To an external peer a unicast route goes out with our own address as next hop, and the receiver
  reads the prefix of the route: from the classic fields for IPv4, from MP_REACH_NLRI for IPv6.
\<close>

theorem next_hop_self_announced:
  assumes "advertise_update s r i = Some u" and "rewrites_next_hop (cfg_peer_role (cfg s))" and "\<not> rs_client (cfg s)"
    and "local_address (cfg s) = Some l" and "ip_wf l"
    and "rk_family (key r) = (if is_ipv4 l then IPV4_UNICAST else IPV6_UNICAST)"
    and "fits (rk_family (key r)) (rk_prefix (key r))"
  shows "(is_ipv4 l \<longrightarrow>
      map_option next_hop_to_ip (pa_next_hop (upd_attributes u)) = Some l \<and>
      upd_nlri u = [nlri_new (path_id r) (rk_prefix (key r))]) \<and>
    (is_ipv6 l \<longrightarrow>
      (\<exists>b m. pa_value_of (upd_attributes u) MpReachNlri = Some b \<and>
        mp_reach_decode_ex (add_path_tx_for IPV6_UNICAST s) b = Inr m \<and> mp_family m = IPV6_UNICAST \<and>
        mp_primary (mp_next_hop m) = l \<and>
        mp_nlri m = [received (add_path_tx_for IPV6_UNICAST s) (nlri_new (path_id r) (rk_prefix (key r)))]))"
proof (cases l)
  case (V4 b)
  then have fam: "rk_family (key r) = IPV4_UNICAST" using assms(6) by simp
  have x: "egress_next_hop s r (staged s r) = own_next_hop l (staged s r)"
    using assms(2-4) V4 fam by (simp add: egress_next_hop_def next_hop_self_def compute_topology_def Let_def)
  let ?q = "reflect (cfg s) i (fst (own_next_hop l (staged s r)))"
  have "pa_get ?q NextHop = Some (next_hop_attr l)"
    using reflect_frame[OF own_next_hop_frame(1)[OF staged_frame(1)], of "cfg s" i l s r NextHop]
    by (simp add: own_next_hop_def next_hop_attr_def)
  moreover have "egress_nlri s r (?q, Some l) = Some u"
    using advertise_update_Some(2)[OF assms(1)] by (simp add: x own_next_hop_def)
  moreover have "\<not> is_labeled_unicast IPV4_UNICAST" by (simp add: is_labeled_unicast_def IPV4_UNICAST_def)
  ultimately show ?thesis using V4 fam assms(5)
    by (auto simp: egress_nlri_def Let_def pa_next_hop_def pa_value_of_def next_hop_attr_def next_hop_decode_def split: if_splits)
next
  case (V6 b)
  then have fam: "rk_family (key r) = IPV6_UNICAST" using assms(6) by simp
  have x: "egress_next_hop s r (staged s r) = (staged s r, Some l)"
    using assms(2-4) V6 fam by (simp add: egress_next_hop_def next_hop_self_def compute_topology_def Let_def)
  have ne: "IPV6_UNICAST \<noteq> IPV4_UNICAST" "\<not> is_labeled_unicast IPV6_UNICAST" "afi IPV6_UNICAST = 2"
    by (simp_all add: IPV4_UNICAST_def IPV6_UNICAST_def is_labeled_unicast_def)
  let ?m = "\<lparr>mp_family = IPV6_UNICAST, mp_next_hop = V6Global b, mp_nlri = [nlri_new (path_id r) (rk_prefix (key r))]\<rparr>"
  have "u = mp_update s r (V6Global b) (reflect (cfg s) i (staged s r))"
    using advertise_update_Some(2)[OF assms(1)] V6 fam ne by (simp add: x egress_nlri_def Let_def mp_next_hop_of_def)
  then have "pa_value_of (upd_attributes u) MpReachNlri = Some (mp_reach_encode_ex (add_path_tx_for IPV6_UNICAST s) ?m)"
    using fam by (simp add: mp_update_def Let_def mp_attr_def pa_value_of_def)
  moreover have "mp_reach_decode_ex a (mp_reach_encode_ex a ?m) = Inr (?m\<lparr>mp_nlri := map (received a) (mp_nlri ?m)\<rparr>)" for a
    using reach_body[of ?m a "[]"] decode_encode_entries[of IPV6_UNICAST "mp_nlri ?m" a "[]"] assms(5,7) V6 fam ne
    by (simp add: nlri_new_def)
  ultimately show ?thesis using V6 by simp
qed

theorem next_hop_self_announced_witness:
  "map_option next_hop_to_ip (pa_next_hop (upd_attributes (sample_update 65001))) = Some (V4 [192, 0, 2, 1])"
proof -
  have c: "rewrites_next_hop (cfg_peer_role (cfg (sample_peer 65001)))" "\<not> rs_client (cfg (sample_peer 65001))"
    "local_address (cfg (sample_peer 65001)) = Some (V4 [192, 0, 2, 1])" "ip_wf (V4 [192, 0, 2, 1])"
    "rk_family (key (sample_route 1)) = (if is_ipv4 (V4 [192, 0, 2, 1]) then IPV4_UNICAST else IPV6_UNICAST)"
    "fits (rk_family (key (sample_route 1))) (rk_prefix (key (sample_route 1)))" by code_simp+
  show ?thesis using next_hop_self_announced[OF sample_advertised c] by simp
qed

end
