(* ===== verification/LR_Rtr.thy ===== *)
theory LR_Rtr
  imports LR_Roa LR_Codec
begin

text \<open>
  The RPKI-to-router protocol of \<open>crates/lr-bgp/src/rtr\<close>: the PDU codec of \<open>pdu.rs\<close> and the client of \<open>client.rs\<close>, which
  feeds the layered store of \<open>LR_Roa\<close>.  Hash sets are lists without a meaning of order, log lines are left
  out, and a text is its bytes.  An index outside a slice, which aborts the program, is an error of its own.
\<close>

section \<open>PDUs\<close>

definition RTR_VERSION_MAX :: u8 where
  "RTR_VERSION_MAX = 2"

datatype rtr_error_code =
    CorruptData | InternalError | NoDataAvailable | InvalidRequest | UnsupportedProtocolVersion | UnsupportedPdu
  | WithdrawalOfUnknownRecord | DuplicateAnnouncementReceived | UnexpectedProtocolVersion

fun rtr_error_code_to_u16 :: "rtr_error_code \<Rightarrow> u16" where
  "rtr_error_code_to_u16 CorruptData = 0"
| "rtr_error_code_to_u16 InternalError = 1"
| "rtr_error_code_to_u16 NoDataAvailable = 2"
| "rtr_error_code_to_u16 InvalidRequest = 3"
| "rtr_error_code_to_u16 UnsupportedProtocolVersion = 4"
| "rtr_error_code_to_u16 UnsupportedPdu = 5"
| "rtr_error_code_to_u16 WithdrawalOfUnknownRecord = 6"
| "rtr_error_code_to_u16 DuplicateAnnouncementReceived = 7"
| "rtr_error_code_to_u16 UnexpectedProtocolVersion = 8"

definition rtr_error_code_from_u16 :: "u16 \<Rightarrow> rtr_error_code option" where
  "rtr_error_code_from_u16 v =
     (if v = 0 then Some CorruptData
      else if v = 1 then Some InternalError
      else if v = 2 then Some NoDataAvailable
      else if v = 3 then Some InvalidRequest
      else if v = 4 then Some UnsupportedProtocolVersion
      else if v = 5 then Some UnsupportedPdu
      else if v = 6 then Some WithdrawalOfUnknownRecord
      else if v = 7 then Some DuplicateAnnouncementReceived
      else if v = 8 then Some UnexpectedProtocolVersion
      else None)"

definition is_fatal :: "rtr_error_code \<Rightarrow> bool" where
  "is_fatal c \<longleftrightarrow> c \<noteq> NoDataAvailable"

datatype rtr_pdu =
    SerialNotify u16 u32
  | SerialQuery u16 u32
  | ResetQuery
  | CacheResponse u16
  | Ipv4Prefix bool prefix u8 u32
  | Ipv6Prefix bool prefix u8 u32
  | EndOfData u16 u32 "u32 option" "u32 option" "u32 option"
  | CacheReset
  | RouterKey bool bytes u32 bytes
  | ErrorReport rtr_error_code bytes "bytes option"
  | Aspa bool u32 "u32 list"

fun pdu_type :: "rtr_pdu \<Rightarrow> u8" where
  "pdu_type (SerialNotify _ _) = 0"
| "pdu_type (SerialQuery _ _) = 1"
| "pdu_type ResetQuery = 2"
| "pdu_type (CacheResponse _) = 3"
| "pdu_type (Ipv4Prefix _ _ _ _) = 4"
| "pdu_type (Ipv6Prefix _ _ _ _) = 6"
| "pdu_type (EndOfData _ _ _ _ _) = 7"
| "pdu_type CacheReset = 8"
| "pdu_type (RouterKey _ _ _ _) = 9"
| "pdu_type (ErrorReport _ _ _) = 10"
| "pdu_type (Aspa _ _ _) = 11"

fun pdu_min_version :: "rtr_pdu \<Rightarrow> u8" where
  "pdu_min_version (RouterKey _ _ _ _) = 1"
| "pdu_min_version (Aspa _ _ _) = 2"
| "pdu_min_version _ = 0"

section \<open>Encoding\<close>

definition flags_byte :: "bool \<Rightarrow> u8" where
  "flags_byte a = (if a then 1 else 0)"

fun rtr_v4_bytes :: "prefix \<Rightarrow> bytes" where
  "rtr_v4_bytes (Prefix (V4 b) _) = b"
| "rtr_v4_bytes (Prefix (V6 _) _) = [0, 0, 0, 0]"

fun rtr_v6_bytes :: "prefix \<Rightarrow> bytes" where
  "rtr_v6_bytes (Prefix (V6 b) _) = b"
| "rtr_v6_bytes (Prefix (V4 b) _) = b @ replicate 12 0"

definition be16 :: "u16 \<Rightarrow> bytes" where
  "be16 v = to_be_bytes 2 v"

definition be32 :: "u32 \<Rightarrow> bytes" where
  "be32 v = to_be_bytes 4 v"

definition rtr_header :: "u8 \<Rightarrow> rtr_pdu \<Rightarrow> bytes \<Rightarrow> nat \<Rightarrow> bytes" where
  "rtr_header v p field n = [v, pdu_type p] @ field @ be32 (of_nat n)"

definition prefix_body :: "bool \<Rightarrow> prefix \<Rightarrow> u8 \<Rightarrow> bytes \<Rightarrow> u32 \<Rightarrow> bytes" where
  "prefix_body a p m b n = [flags_byte a, prefix_len p, m, 0] @ b @ be32 n"

definition or_default :: "u32 \<Rightarrow> u32 option \<Rightarrow> u32" where
  "or_default d x = (case x of Some v \<Rightarrow> v | None \<Rightarrow> d)"

fun rtr_bytes :: "u8 \<Rightarrow> rtr_pdu \<Rightarrow> bytes" where
  "rtr_bytes v (SerialNotify i n) = rtr_header v (SerialNotify i n) (be16 i) 12 @ be32 n"
| "rtr_bytes v (SerialQuery i n) = rtr_header v (SerialQuery i n) (be16 i) 12 @ be32 n"
| "rtr_bytes v ResetQuery = rtr_header v ResetQuery (be16 0) 8"
| "rtr_bytes v (CacheResponse i) = rtr_header v (CacheResponse i) (be16 i) 8"
| "rtr_bytes v CacheReset = rtr_header v CacheReset (be16 0) 8"
| "rtr_bytes v (Ipv4Prefix a p m n) = rtr_header v (Ipv4Prefix a p m n) (be16 0) 20 @ prefix_body a p m (rtr_v4_bytes p) n"
| "rtr_bytes v (Ipv6Prefix a p m n) = rtr_header v (Ipv6Prefix a p m n) (be16 0) 32 @ prefix_body a p m (rtr_v6_bytes p) n"
| "rtr_bytes v (EndOfData i n rf rt ex) =
     (if v \<ge> 1 then
        rtr_header v (EndOfData i n rf rt ex) (be16 i) 24 @ be32 n @ be32 (or_default 3600 rf) @ be32 (or_default 600 rt) @
          be32 (or_default 7200 ex)
      else rtr_header v (EndOfData i n rf rt ex) (be16 i) 12 @ be32 n)"
| "rtr_bytes v (RouterKey a ski n k) =
     rtr_header v (RouterKey a ski n k) [flags_byte a, 0] (8 + length ski + 4 + length k) @ ski @ be32 n @ k"
| "rtr_bytes v (ErrorReport c e t) =
     (let tb = (case t of Some b \<Rightarrow> b | None \<Rightarrow> [])
      in rtr_header v (ErrorReport c e t) (be16 (rtr_error_code_to_u16 c)) (8 + 4 + length e + 4 + length tb) @
           be32 (of_nat (length e)) @ e @ be32 (of_nat (length tb)) @ tb)"
| "rtr_bytes v (Aspa a n ps) =
     rtr_header v (Aspa a n ps) [flags_byte a, 0] (8 + 4 + length ps * 4) @ be32 n @ concat (map be32 ps)"

text \<open>\<open>encode\<close> asserts the version, and appends.\<close>

definition rtr_encode :: "rtr_pdu \<Rightarrow> u8 \<Rightarrow> bytes \<Rightarrow> bytes option" where
  "rtr_encode p v out = (if v \<ge> pdu_min_version p then Some (out @ rtr_bytes v p) else None)"

section \<open>Decoding\<close>

datatype rtr_decode_error =
    InvalidLength u32
  | UnsupportedPduType u8
  | UnsupportedVersion u8 u8
  | BadFixedLength u8 u32
  | BadPrefix u8
  | BadAspaLength nat
  | BadErrorReport
  | RtrPanic

definition field16 :: "nat \<Rightarrow> bytes \<Rightarrow> u16" where
  "field16 i b = from_be_bytes (take 2 (drop i b))"

definition field32 :: "nat \<Rightarrow> bytes \<Rightarrow> u32" where
  "field32 i b = from_be_bytes (take 4 (drop i b))"

definition prefix_in_bounds :: "u8 \<Rightarrow> u8 \<Rightarrow> u8 \<Rightarrow> bool" where
  "prefix_in_bounds pl ml width \<longleftrightarrow> \<not> pl > width \<and> \<not> ml < pl \<and> \<not> ml > width"

definition mask_host_bits :: "prefix \<Rightarrow> prefix" where
  "mask_host_bits p = Prefix (network p) (prefix_len p)"

definition decode_error_report :: "bytes \<Rightarrow> rtr_decode_error + rtr_pdu" where
  "decode_error_report b =
     (if length b < 12 then Inl (BadFixedLength 10 (of_nat (length b)))
      else case rtr_error_code_from_u16 (field16 2 b) of
        None \<Rightarrow> Inl BadErrorReport
      | Some c \<Rightarrow>
          let n = unat (field32 8 b); rest = drop 12 b
          in if length rest < n + 4 then Inl BadErrorReport
             else let tl = unat (field32 n rest); t = drop (n + 4) rest
               in if length t \<noteq> tl then Inl BadErrorReport
                  else Inr (ErrorReport c (take n rest) (if tl = 0 then None else Some t)))"

text \<open>The body of a PDU, header included, by its type; the length field equals the length of the body.\<close>

definition decode_pdu :: "u8 \<Rightarrow> u8 \<Rightarrow> bytes \<Rightarrow> rtr_decode_error + rtr_pdu" where
  "decode_pdu v ty b =
     (let fixed = (\<lambda>n p. if length b \<noteq> n then Inl (BadFixedLength ty (of_nat (length b))) else Inr p);
          announced = b ! 8 AND 1 \<noteq> 0
      in if ty = 0 then fixed 12 (SerialNotify (field16 2 b) (field32 8 b))
         else if ty = 1 then fixed 12 (SerialQuery (field16 2 b) (field32 8 b))
         else if ty = 2 then fixed 8 ResetQuery
         else if ty = 3 then fixed 8 (CacheResponse (field16 2 b))
         else if ty = 4 then
           (if length b \<noteq> 20 then Inl (BadFixedLength ty (of_nat (length b)))
            else if \<not> prefix_in_bounds (b ! 9) (b ! 10) 32 then Inl (BadPrefix ty)
            else Inr (Ipv4Prefix announced (mask_host_bits (Prefix (V4 (take 4 (drop 12 b))) (b ! 9))) (b ! 10) (field32 16 b)))
         else if ty = 6 then
           (if length b \<noteq> 32 then Inl (BadFixedLength ty (of_nat (length b)))
            else if \<not> prefix_in_bounds (b ! 9) (b ! 10) 128 then Inl (BadPrefix ty)
            else Inr (Ipv6Prefix announced (mask_host_bits (Prefix (V6 (take 16 (drop 12 b))) (b ! 9))) (b ! 10) (field32 28 b)))
         else if ty = 7 then
           (if length b < 12 then Inl RtrPanic
            else if v \<ge> 1 then
              fixed 24 (EndOfData (field16 2 b) (field32 8 b) (Some (field32 12 b)) (Some (field32 16 b)) (Some (field32 20 b)))
            else fixed 12 (EndOfData (field16 2 b) (field32 8 b) None None None))
         else if ty = 8 then fixed 8 CacheReset
         else if ty = 9 \<and> v \<ge> 1 then
           (if length b < 32 then Inl (BadFixedLength ty (of_nat (length b)))
            else Inr (RouterKey (b ! 2 AND 1 \<noteq> 0) (take 20 (drop 8 b)) (field32 28 b) (drop 32 b)))
         else if ty = 10 then decode_error_report b
         else if ty = 11 \<and> v \<ge> 2 then
           (if length b < 12 then Inl (BadFixedLength ty (of_nat (length b)))
            else if (length b - 12) mod 4 \<noteq> 0 then Inl (BadAspaLength (length b - 12))
            else Inr (Aspa (b ! 2 AND 1 \<noteq> 0) (field32 8 b) (map from_be_bytes (chunks 4 (drop 12 b)))))
         else if ty = 9 \<or> ty = 11 then Inl (UnsupportedVersion ty v)
         else Inl (UnsupportedPduType ty))"

definition rtr_decode :: "bytes \<Rightarrow> rtr_decode_error + (u8 \<times> rtr_pdu \<times> nat) option" where
  "rtr_decode buf =
     (if length buf < 8 then Inr None
      else let len = field32 4 buf
        in if len < 8 \<or> unat len > 65536 then Inl (InvalidLength len)
           else if length buf < unat len then Inr None
           else map_sum id (\<lambda>p. Some (buf ! 0, p, unat len)) (decode_pdu (buf ! 0) (buf ! 1) (take (unat len) buf)))"

section \<open>The client\<close>

datatype rtr_phase = AwaitingReset | AwaitingSerial | ReceivingPayload | Synced

record rtr_step =
  step_send :: bytes
  step_deltas :: "roa_delta list"
  step_synced :: bool
  step_drop :: bool
  step_expired :: bool

definition step_default :: rtr_step where
  "step_default = \<lparr>step_send = [], step_deltas = [], step_synced = False, step_drop = False, step_expired = False\<rparr>"

record rtr_client =
  rtr_version :: u8
  session_id :: "u16 option"
  serial :: "u32 option"
  phase :: rtr_phase
  records :: "roa_entry list"
  batch :: "roa_entry list"
  refresh_interval :: u32
  retry_interval :: u32
  expire_interval :: u32
  last_sync_ms :: "u64 option"

definition rtr_client_new :: rtr_client where
  "rtr_client_new =
     \<lparr>rtr_version = RTR_VERSION_MAX, session_id = None, serial = None, phase = AwaitingReset, records = [], batch = [],
      refresh_interval = 3600, retry_interval = 600, expire_interval = 7200, last_sync_ms = None\<rparr>"

definition set_intervals :: "u32 \<Rightarrow> u32 \<Rightarrow> u32 \<Rightarrow> rtr_client \<Rightarrow> rtr_client" where
  "set_intervals a b d c = c\<lparr>refresh_interval := a, retry_interval := b, expire_interval := d\<rparr>"

definition connect_query :: "rtr_client \<Rightarrow> rtr_pdu" where
  "connect_query c =
     (case (session_id c, serial c) of (Some i, Some n) \<Rightarrow> SerialQuery i n | _ \<Rightarrow> ResetQuery)"

definition on_connect :: "rtr_client \<Rightarrow> rtr_client \<times> bytes" where
  "on_connect c =
     (c\<lparr>phase := (case (session_id c, serial c) of (Some _, Some _) \<Rightarrow> AwaitingSerial | _ \<Rightarrow> AwaitingReset)\<rparr>,
      rtr_bytes (rtr_version c) (connect_query c))"

definition sends :: "rtr_pdu \<Rightarrow> rtr_client \<Rightarrow> rtr_step" where
  "sends p c = step_default\<lparr>step_send := rtr_bytes (rtr_version c) p\<rparr>"

definition reports :: "rtr_error_code \<Rightarrow> string \<Rightarrow> rtr_client \<Rightarrow> rtr_step" where
  "reports e t c = (sends (ErrorReport e [] (Some (map of_char t))) c)\<lparr>step_drop := True\<rparr>"

definition diff_records :: "roa_entry list \<Rightarrow> roa_entry list \<Rightarrow> roa_delta list" where
  "diff_records old new =
     map (\<lambda>e. \<lparr>announce = True, delta_entry = e\<rparr>) (filter (\<lambda>e. e \<notin> set old) new) @
     map (\<lambda>e. \<lparr>announce = False, delta_entry = e\<rparr>) (filter (\<lambda>e. e \<notin> set new) old)"

definition on_prefix :: "bool \<Rightarrow> prefix \<Rightarrow> u8 \<Rightarrow> u32 \<Rightarrow> rtr_client \<Rightarrow> rtr_client" where
  "on_prefix a p m n c =
     (if phase c \<noteq> ReceivingPayload then c
      else case with_max_length p m n of
        Inl _ \<Rightarrow> c
      | Inr e \<Rightarrow> c\<lparr>batch := (if a then List.insert e (batch c) else removeAll e (batch c))\<rparr>)"

definition on_end_of_data :: "u16 \<Rightarrow> u32 \<Rightarrow> u32 option \<Rightarrow> u32 option \<Rightarrow> u32 option \<Rightarrow> u64 \<Rightarrow> rtr_client \<Rightarrow> rtr_client \<times> rtr_step" where
  "on_end_of_data i n rf rt ex now_ms c =
     (if phase c \<noteq> ReceivingPayload then (c, reports CorruptData ''end-of-data outside a payload batch'' c)
      else if Some i \<noteq> session_id c then (c, reports CorruptData ''end-of-data session mismatch'' c)
      else (c\<lparr>records := batch c, batch := [], serial := Some n, phase := Synced, last_sync_ms := Some now_ms,
              refresh_interval := max (or_default (refresh_interval c) rf) 1,
              retry_interval := max (or_default (retry_interval c) rt) 1,
              expire_interval := max (or_default (expire_interval c) ex) 1\<rparr>,
            step_default\<lparr>step_deltas := diff_records (records c) (batch c), step_synced := True\<rparr>))"

definition on_cache_response :: "u16 \<Rightarrow> rtr_client \<Rightarrow> rtr_client \<times> rtr_step" where
  "on_cache_response i c =
     (case phase c of
        AwaitingReset \<Rightarrow> (c\<lparr>session_id := Some i, batch := [], phase := ReceivingPayload\<rparr>, step_default)
      | AwaitingSerial \<Rightarrow>
          if Some i \<noteq> session_id c then
            (c\<lparr>session_id := Some i, phase := AwaitingReset, batch := []\<rparr>, sends ResetQuery c)
          else (c\<lparr>batch := records c, phase := ReceivingPayload\<rparr>, step_default)
      | _ \<Rightarrow> (c, reports CorruptData ''cache response in wrong state'' c))"

definition on_serial_notify :: "u16 \<Rightarrow> u32 \<Rightarrow> rtr_client \<Rightarrow> rtr_client \<times> rtr_step" where
  "on_serial_notify i n c =
     (if phase c = Synced then
        if Some i = session_id c then
          (c\<lparr>phase := AwaitingSerial\<rparr>, sends (SerialQuery i (or_default 0 (serial c))) c)
        else (c\<lparr>phase := AwaitingReset\<rparr>, sends ResetQuery c)
      else (c, step_default))"

fun handle_pdu :: "rtr_pdu \<Rightarrow> u64 \<Rightarrow> rtr_client \<Rightarrow> rtr_client \<times> rtr_step" where
  "handle_pdu (SerialNotify i n) now_ms c = on_serial_notify i n c"
| "handle_pdu (CacheResponse i) now_ms c = on_cache_response i c"
| "handle_pdu (Ipv4Prefix a p m n) now_ms c = (on_prefix a p m n c, step_default)"
| "handle_pdu (Ipv6Prefix a p m n) now_ms c = (on_prefix a p m n c, step_default)"
| "handle_pdu (EndOfData i n rf rt ex) now_ms c = on_end_of_data i n rf rt ex now_ms c"
| "handle_pdu CacheReset now_ms c = (c\<lparr>phase := AwaitingReset, batch := []\<rparr>, sends ResetQuery c)"
| "handle_pdu (ErrorReport _ _ _) now_ms c = (c, step_default\<lparr>step_drop := True\<rparr>)"
| "handle_pdu _ now_ms c = (c, step_default)"

definition is_aspa :: "rtr_pdu \<Rightarrow> bool" where
  "is_aspa p \<longleftrightarrow> pdu_type p = 11"

definition is_serial_notify :: "rtr_pdu \<Rightarrow> bool" where
  "is_serial_notify p \<longleftrightarrow> pdu_type p = 0"

definition on_pdu :: "u8 \<Rightarrow> rtr_pdu \<Rightarrow> u64 \<Rightarrow> rtr_client \<Rightarrow> rtr_client \<times> rtr_step" where
  "on_pdu v p now_ms c =
     (if v > rtr_version c \<and> \<not> is_aspa p then
        (c, reports UnexpectedProtocolVersion ''pdu version is higher than the session version'' c)
      else if serial c = None \<and> is_serial_notify p then (c, step_default)
      else handle_pdu p now_ms
        (if serial c = None \<and> v < rtr_version c \<and> v \<le> RTR_VERSION_MAX then c\<lparr>rtr_version := v\<rparr> else c))"

definition rtr_poll :: "u64 \<Rightarrow> rtr_client \<Rightarrow> rtr_client \<times> rtr_step" where
  "rtr_poll now_ms c =
     (case last_sync_ms c of
        None \<Rightarrow> (c, step_default)
      | Some since \<Rightarrow>
          if saturating_sub now_ms since \<ge> ucast (expire_interval c) * 1000 then (c, step_default\<lparr>step_expired := True\<rparr>)
          else if phase c = Synced \<and> saturating_sub now_ms since \<ge> ucast (refresh_interval c) * 1000 then
            (c\<lparr>phase := AwaitingSerial\<rparr>,
             sends (SerialQuery (case session_id c of Some i \<Rightarrow> i | None \<Rightarrow> 0) (or_default 0 (serial c))) c)
          else (c, step_default))"

section \<open>Round trip\<close>

lemma length_be [simp]: "length (be16 i) = 2" "length (be32 n) = 4"
  by (simp_all add: be16_def be32_def)

lemma from_be [simp]: "from_be_bytes (be16 i) = i" "from_be_bytes (be32 n) = n"
  by (simp_all add: be16_def be32_def from_to_be_bytes)

lemma unat_of_nat_u32: "n \<le> 65536 \<Longrightarrow> unat (of_nat n :: u32) = n"
  by (simp add: unat_of_nat take_bit_nat_eq_self)

lemma decode_whole:
  assumes "length b = n" and "8 \<le> n" and "n \<le> 65536" and "field32 4 b = of_nat n"
  shows "rtr_decode (b @ rest) = map_sum id (\<lambda>p. Some (b ! 0, p, n)) (decode_pdu (b ! 0) (b ! 1) b)"
proof -
  have u: "unat (of_nat n :: u32) = n" using assms(3) by (rule unat_of_nat_u32)
  then have "\<not> (of_nat n :: u32) < 8" using assms(2) by (simp add: word_less_nat_alt)
  moreover have "field32 4 (b @ rest) = of_nat n" using assms by (simp add: field32_def)
  moreover have "(b @ rest) ! 0 = b ! 0" "(b @ rest) ! 1 = b ! 1" using assms(1,2) by (auto simp: nth_append)
  ultimately show ?thesis using assms u by (simp add: rtr_decode_def Let_def)
qed

lemma decode_framed:
  assumes "length f = 2" and "n = 8 + length body" and "n \<le> 65536"
  shows "rtr_decode ([v, ty] @ f @ be32 (of_nat n) @ body @ rest) =
    map_sum id (\<lambda>p. Some (v, p, n)) (decode_pdu v ty ([v, ty] @ f @ be32 (of_nat n) @ body))"
  using decode_whole[of "[v, ty] @ f @ be32 (of_nat n) @ body" n rest] assms by (simp add: field32_def drop_Cons')

fun rtr_wf :: "u8 \<Rightarrow> rtr_pdu \<Rightarrow> bool" where
  "rtr_wf v (Ipv4Prefix a p m n) \<longleftrightarrow> prefix_wf p \<and> is_ipv4 (addr p) \<and> prefix_len p \<le> m \<and> m \<le> 32"
| "rtr_wf v (Ipv6Prefix a p m n) \<longleftrightarrow> prefix_wf p \<and> is_ipv6 (addr p) \<and> prefix_len p \<le> m \<and> m \<le> 128"
| "rtr_wf v (EndOfData i n rf rt ex) \<longleftrightarrow> (if v \<ge> 1 then rf \<noteq> None \<and> rt \<noteq> None \<and> ex \<noteq> None else rf = None \<and> rt = None \<and> ex = None)"
| "rtr_wf v (RouterKey a ski n k) \<longleftrightarrow> v \<ge> 1 \<and> length ski = 20 \<and> 32 + length k \<le> 65536"
| "rtr_wf v (ErrorReport c e t) \<longleftrightarrow> t \<noteq> Some [] \<and> 16 + length e + length (case t of Some b \<Rightarrow> b | None \<Rightarrow> []) \<le> 65536"
| "rtr_wf v (Aspa a n ps) \<longleftrightarrow> v \<ge> 2 \<and> 12 + 4 * length ps \<le> 65536"
| "rtr_wf v _ \<longleftrightarrow> True"

fun masked_pdu :: "rtr_pdu \<Rightarrow> rtr_pdu" where
  "masked_pdu (Ipv4Prefix a p m n) = Ipv4Prefix a (mask_host_bits p) m n"
| "masked_pdu (Ipv6Prefix a p m n) = Ipv6Prefix a (mask_host_bits p) m n"
| "masked_pdu p = p"

lemma flag_round [simp]: "flags_byte a AND 1 \<noteq> 0 \<longleftrightarrow> a"
  by (simp add: flags_byte_def)

lemma error_code_round [simp]: "rtr_error_code_from_u16 (rtr_error_code_to_u16 c) = Some c"
  by (cases c) (simp_all add: rtr_error_code_from_u16_def)

lemma chunks_be32 [simp]: "map from_be_bytes (chunks 4 (concat (map be32 ps))) = ps"
  by (induction ps) simp_all

lemma length_concat_be32 [simp]: "length (concat (map be32 ps)) = 4 * length ps"
  by (induction ps) simp_all

lemmas rtr_fields = field16_def field32_def drop_Cons' nth_append nth_Cons' Let_def

lemma prefix_round:
  "prefix_wf p \<Longrightarrow> is_ipv4 (addr p) \<Longrightarrow> prefix_len p \<le> m \<Longrightarrow> m \<le> 32 \<Longrightarrow>
     length (rtr_v4_bytes p) = 4 \<and> Prefix (V4 (rtr_v4_bytes p)) (prefix_len p) = p \<and> prefix_in_bounds (prefix_len p) m 32"
  "prefix_wf p \<Longrightarrow> is_ipv6 (addr p) \<Longrightarrow> prefix_len p \<le> m \<Longrightarrow> m \<le> 128 \<Longrightarrow>
     length (rtr_v6_bytes p) = 16 \<and> Prefix (V6 (rtr_v6_bytes p)) (prefix_len p) = p \<and> prefix_in_bounds (prefix_len p) m 128"
  by (cases p rule: rtr_v4_bytes.cases; auto simp: prefix_wf_def prefix_in_bounds_def not_less)+

lemma rtr_round:
  assumes "rtr_wf v p"
  shows "rtr_decode (rtr_bytes v p @ rest) = Inr (Some (v, masked_pdu p, length (rtr_bytes v p)))"
proof (cases p)
  case (SerialNotify i n)
  then show ?thesis using decode_framed[of "be16 i" 12 "be32 n" v 0 rest]
    by (simp add: rtr_header_def decode_pdu_def rtr_fields)
next
  case (SerialQuery i n)
  then show ?thesis using decode_framed[of "be16 i" 12 "be32 n" v 1 rest]
    by (simp add: rtr_header_def decode_pdu_def rtr_fields)
next
  case ResetQuery
  then show ?thesis using decode_framed[of "be16 0" 8 "[]" v 2 rest]
    by (simp add: rtr_header_def decode_pdu_def rtr_fields)
next
  case (CacheResponse i)
  then show ?thesis using decode_framed[of "be16 i" 8 "[]" v 3 rest]
    by (simp add: rtr_header_def decode_pdu_def rtr_fields)
next
  case CacheReset
  then show ?thesis using decode_framed[of "be16 0" 8 "[]" v 8 rest]
    by (simp add: rtr_header_def decode_pdu_def rtr_fields)
next
  case (Ipv4Prefix a q m n)
  note pr = prefix_round(1)[of q m]
  show ?thesis using Ipv4Prefix assms pr decode_framed[of "be16 0" 20 "prefix_body a q m (rtr_v4_bytes q) n" v 4 rest]
    by (simp add: rtr_header_def decode_pdu_def prefix_body_def rtr_fields)
next
  case (Ipv6Prefix a q m n)
  note pr = prefix_round(2)[of q m]
  show ?thesis using Ipv6Prefix assms pr decode_framed[of "be16 0" 32 "prefix_body a q m (rtr_v6_bytes q) n" v 6 rest]
    by (simp add: rtr_header_def decode_pdu_def prefix_body_def rtr_fields)
next
  case (EndOfData i n rf rt ex)
  show ?thesis
  proof (cases "v \<ge> 1")
    case True
    then obtain x y z where "rf = Some x" "rt = Some y" "ex = Some z" using EndOfData assms by auto
    then show ?thesis using EndOfData True decode_framed[of "be16 i" 24 "be32 n @ be32 x @ be32 y @ be32 z" v 7 rest]
      by (simp add: rtr_header_def decode_pdu_def or_default_def rtr_fields)
  next
    case False
    then have "rf = None" "rt = None" "ex = None" using EndOfData assms by auto
    then show ?thesis using EndOfData False decode_framed[of "be16 i" 12 "be32 n" v 7 rest]
      by (simp add: rtr_header_def decode_pdu_def rtr_fields)
  qed
next
  case (RouterKey a ski n k)
  then show ?thesis using assms decode_framed[of "[flags_byte a, 0]" "8 + length ski + 4 + length k" "ski @ be32 n @ k" v 9 rest]
    by (simp add: rtr_header_def decode_pdu_def rtr_fields)
next
  case (ErrorReport c e t)
  let ?t = "case t of Some b \<Rightarrow> b | None \<Rightarrow> []"
  let ?body = "be32 (of_nat (length e)) @ e @ be32 (of_nat (length ?t)) @ ?t"
  have len: "length e \<le> 65536" "length ?t \<le> 65536" using ErrorReport assms by simp_all
  have t: "(if length ?t = 0 then None else Some ?t) = t" using ErrorReport assms by (auto split: option.split)
  have "decode_error_report ([v, 10] @ be16 (rtr_error_code_to_u16 c) @ be32 (of_nat (8 + length ?body)) @ ?body) = Inr (ErrorReport c e t)"
    using unat_of_nat_u32[OF len(1)] unat_of_nat_u32[OF len(2)] t
    by (simp add: decode_error_report_def field16_def field32_def drop_Cons' Let_def)
  then have d: "decode_pdu v 10 ([v, 10] @ be16 (rtr_error_code_to_u16 c) @ be32 (of_nat (8 + length ?body)) @ ?body) = Inr (ErrorReport c e t)"
    by (simp only: decode_pdu_def) simp
  have n: "8 + 4 + length e + 4 + length ?t = 8 + length ?body" by simp
  have "rtr_bytes v p = [v, 10] @ be16 (rtr_error_code_to_u16 c) @ be32 (of_nat (8 + length ?body)) @ ?body"
    unfolding ErrorReport rtr_bytes.simps Let_def rtr_header_def n by simp
  moreover have "8 + length ?body \<le> 65536" using ErrorReport assms by simp
  ultimately show ?thesis
    using decode_framed[of "be16 (rtr_error_code_to_u16 c)" "8 + length ?body" ?body v 10 rest] d ErrorReport by simp
next
  case (Aspa a n ps)
  then show ?thesis using assms decode_framed[of "[flags_byte a, 0]" "8 + 4 + length ps * 4" "be32 n @ concat (map be32 ps)" v 11 rest]
    by (simp add: rtr_header_def decode_pdu_def rtr_fields)
qed

text \<open>
  C30.  Every well-formed PDU comes back from its encoding with the version it was sent in and the number of bytes it
  took, whatever follows it; prefixes come back as network addresses.
\<close>

theorem rtr_pdu_roundtrip:
  assumes "rtr_wf v p"
  shows "rtr_encode p v [] = Some (rtr_bytes v p) \<and>
    rtr_decode (rtr_bytes v p @ rest) = Inr (Some (v, masked_pdu p, length (rtr_bytes v p)))"
  using rtr_round[OF assms] assms by (cases p) (simp_all add: rtr_encode_def)

theorem rtr_pdu_roundtrip_witness:
  "rtr_decode (rtr_bytes 1 (EndOfData 7 42 (Some 3600) (Some 600) (Some 7200)) @ [1, 3]) =
   Inr (Some (1, EndOfData 7 42 (Some 3600) (Some 600) (Some 7200), 24))"
proof -
  have "length (rtr_bytes 1 (EndOfData 7 42 (Some 3600) (Some 600) (Some 7200))) = 24" by (simp add: rtr_header_def)
  then show ?thesis using rtr_pdu_roundtrip[of 1 "EndOfData 7 42 (Some 3600) (Some 600) (Some 7200)" "[1, 3]"] by simp
qed


section \<open>Synchronisation\<close>

fun rtr_run :: "u8 \<Rightarrow> u64 \<Rightarrow> rtr_pdu list \<Rightarrow> rtr_client \<Rightarrow> rtr_client \<times> roa_delta list \<times> bool" where
  "rtr_run v now_ms [] c = (c, [], False)"
| "rtr_run v now_ms (p # ps) c =
     (let (c1, s) = on_pdu v p now_ms c; (c2, ds, d) = rtr_run v now_ms ps c1
      in (c2, step_deltas s @ ds, step_drop s \<or> d))"

type_synonym change = "bool \<times> prefix \<times> u8 \<times> u32"

fun change_pdu :: "change \<Rightarrow> rtr_pdu" where
  "change_pdu (a, p, m, n) = (if is_ipv4 (addr p) then Ipv4Prefix a p m n else Ipv6Prefix a p m n)"

fun change_ok :: "change \<Rightarrow> bool" where
  "change_ok (a, p, m, n) \<longleftrightarrow> with_max_length p m n = Inr (RoaEntry p m n)"

fun change_set :: "change \<Rightarrow> roa_entry set \<Rightarrow> roa_entry set" where
  "change_set (a, p, m, n) R = (if a then insert (RoaEntry p m n) R else R - {RoaEntry p m n})"

definition receiving :: "u8 \<Rightarrow> u16 \<Rightarrow> roa_entry list \<Rightarrow> rtr_client \<Rightarrow> bool" where
  "receiving v i old c \<longleftrightarrow> v \<le> rtr_version c \<and> phase c = ReceivingPayload \<and> session_id c = Some i \<and> records c = old"

lemma on_pdu_version:
  assumes "v \<le> rtr_version c" and "\<not> is_serial_notify p"
  shows "\<exists>w. v \<le> w \<and> on_pdu v p now_ms c = handle_pdu p now_ms (c\<lparr>rtr_version := w\<rparr>)"
proof (cases "serial c = None \<and> v < rtr_version c \<and> v \<le> RTR_VERSION_MAX")
  case True
  then show ?thesis using assms by (intro exI[of _ v]) (auto simp: on_pdu_def)
next
  case False
  then show ?thesis using assms by (intro exI[of _ "rtr_version c"]) (auto simp: on_pdu_def not_less)
qed

lemma change_step:
  assumes "receiving v i old c" and "change_ok x"
  shows "\<exists>c'. on_pdu v (change_pdu x) now_ms c = (c', step_default) \<and> receiving v i old c' \<and> set (batch c') = change_set x (set (batch c))"
proof -
  obtain a p m n where x: "x = (a, p, m, n)" by (cases x)
  then have not_notify: "\<not> is_serial_notify (change_pdu x)" by (simp add: is_serial_notify_def)
  obtain w where w: "v \<le> w" "on_pdu v (change_pdu x) now_ms c = handle_pdu (change_pdu x) now_ms (c\<lparr>rtr_version := w\<rparr>)"
    using on_pdu_version[of v c "change_pdu x" now_ms] assms(1) not_notify by (auto simp: receiving_def)
  then have "on_pdu v (change_pdu x) now_ms c = (on_prefix a p m n (c\<lparr>rtr_version := w\<rparr>), step_default)" using x by simp
  then show ?thesis using assms x w(1) by (auto simp: on_prefix_def receiving_def)
qed

lemma changes_run:
  assumes "receiving v i old c" and "list_all change_ok xs"
  shows "\<exists>c'. rtr_run v now_ms (map change_pdu xs @ rest) c = rtr_run v now_ms rest c' \<and> receiving v i old c' \<and>
    set (batch c') = fold change_set xs (set (batch c))"
  using assms
proof (induction xs arbitrary: c)
  case (Cons x xs)
  obtain c1 where c1: "on_pdu v (change_pdu x) now_ms c = (c1, step_default)" "receiving v i old c1"
    "set (batch c1) = change_set x (set (batch c))" using change_step[OF Cons.prems(1), of x now_ms] Cons.prems(2) by auto
  have "rtr_run v now_ms (map change_pdu (x # xs) @ rest) c = rtr_run v now_ms (map change_pdu xs @ rest) c1"
    using c1(1) by (simp add: step_default_def split: prod.split)
  then show ?case using Cons.IH[OF c1(2)] Cons.prems(2) c1(3) by simp
qed auto

lemma fold_announce:
  "set (fold apply_delta (map (\<lambda>e. \<lparr>announce = True, delta_entry = e\<rparr>) es) xs) = set xs \<union> set es"
  by (induction es arbitrary: xs) (auto simp: apply_delta_def)

lemma fold_withdraw:
  "set (fold apply_delta (map (\<lambda>e. \<lparr>announce = False, delta_entry = e\<rparr>) es) xs) = set xs - set es"
  by (induction es arbitrary: xs) (auto simp: apply_delta_def)

lemma apply_diff: "set xs = set old \<Longrightarrow> set (fold apply_delta (diff_records old new) xs) = set new"
  by (auto simp: diff_records_def fold_announce fold_withdraw)

text \<open>
  C13.  A synchronisation brings the client and the store to the data of the cache.  After a cache response,
  the changes and the matching end of data, the client holds the changes applied to nothing, or to what it held
  when it had asked for an increment; the connection is kept, and the deltas it reports turn any
  store with the old records into one with the new.
\<close>

theorem rtr_sync:
  assumes "v \<le> rtr_version c" and "phase c = AwaitingReset \<or> phase c = AwaitingSerial \<and> session_id c = Some i"
    and "list_all change_ok xs"
    and "rtr_run v now_ms (CacheResponse i # map change_pdu xs @ [EndOfData i n rf rt ex]) c = (c', ds, dropped)"
  shows "\<not> dropped \<and> phase c' = Synced \<and> serial c' = Some n \<and> session_id c' = Some i \<and>
    set (records c') = fold change_set xs (if phase c = AwaitingReset then {} else set (records c)) \<and>
    (set st = set (records c) \<longrightarrow> set (fold apply_delta ds st) = set (records c'))"
proof -
  obtain w where w: "v \<le> w" "on_pdu v (CacheResponse i) now_ms c = on_cache_response i (c\<lparr>rtr_version := w\<rparr>)"
    using on_pdu_version[OF assms(1), of "CacheResponse i" now_ms] by (auto simp: is_serial_notify_def)
  then obtain c1 where c1: "on_pdu v (CacheResponse i) now_ms c = (c1, step_default)" "receiving v i (records c) c1"
    "set (batch c1) = (if phase c = AwaitingReset then {} else set (records c))"
    using assms(2) by (auto simp: on_cache_response_def receiving_def)
  obtain c2 where c2: "rtr_run v now_ms (map change_pdu xs @ [EndOfData i n rf rt ex]) c1 = rtr_run v now_ms [EndOfData i n rf rt ex] c2"
    "receiving v i (records c) c2" "set (batch c2) = fold change_set xs (set (batch c1))"
    using changes_run[OF c1(2) assms(3)] by blast
  obtain w' where w': "on_pdu v (EndOfData i n rf rt ex) now_ms c2 = on_end_of_data i n rf rt ex now_ms (c2\<lparr>rtr_version := w'\<rparr>)"
    using on_pdu_version[of v c2 "EndOfData i n rf rt ex" now_ms] c2(2) by (auto simp: is_serial_notify_def receiving_def)
  have "rtr_run v now_ms (CacheResponse i # map change_pdu xs @ [EndOfData i n rf rt ex]) c = rtr_run v now_ms [EndOfData i n rf rt ex] c2"
    using c1(1) c2(1) by (simp add: step_default_def split: prod.split)
  then show ?thesis using assms(4) w' c2(2,3) c1(3) apply_diff[of st "records c" "batch c2"]
    by (auto simp: on_end_of_data_def receiving_def step_default_def)
qed

theorem rtr_sync_witness:
  "set (records (fst (rtr_run 1 0 [CacheResponse 9, Ipv4Prefix True (Prefix (V4 [10, 0, 0, 0]) 8) 24 65000, EndOfData 9 1 None None None]
     rtr_client_new))) = {RoaEntry (Prefix (V4 [10, 0, 0, 0]) 8) 24 65000}"
  using rtr_sync[of 1 rtr_client_new 9 "[(True, Prefix (V4 [10, 0, 0, 0]) 8, 24, 65000)]" 0 1 None None None]
  by (cases "rtr_run 1 0 [CacheResponse 9, Ipv4Prefix True (Prefix (V4 [10, 0, 0, 0]) 8) 24 65000, EndOfData 9 1 None None None] rtr_client_new")
    (simp add: rtr_client_new_def RTR_VERSION_MAX_def with_max_length_def)

text \<open>
  The records change only as a whole: a PDU other than end of data leaves them and reports no delta,
  so an interrupted synchronisation has no effect.
\<close>

theorem rtr_records_atomic:
  "pdu_type p \<noteq> 7 \<Longrightarrow> records (fst (on_pdu v p now_ms c)) = records c \<and> step_deltas (snd (on_pdu v p now_ms c)) = []"
  by (cases p)
    (auto simp: on_pdu_def on_serial_notify_def on_cache_response_def on_prefix_def reports_def sends_def step_default_def
      split: rtr_phase.split sum.split)

text \<open>
  C38.  A client asks for the wrong increment.  When the cache has told it to start over and has answered with a new
  session, and the connection breaks before the end of the data, the client comes back with a query for the new
  session and the serial number of the old one.
\<close>

theorem rtr_stale_serial:
  assumes "serial c = Some n" and "v \<le> rtr_version c"
  shows "connect_query (fst (on_pdu v (CacheResponse i) t2 (fst (on_pdu v CacheReset t1 c)))) = SerialQuery i n"
proof -
  have v: "\<not> rtr_version c < v" using assms(2) by simp
  then have "on_pdu v CacheReset t1 c = handle_pdu CacheReset t1 c" using assms(1) by (simp add: on_pdu_def)
  then show ?thesis using v assms(1) by (simp add: on_pdu_def on_cache_response_def connect_query_def)
qed

theorem rtr_stale_serial_witness:
  "connect_query (fst (on_pdu 1 (CacheResponse 2) 0 (fst (on_pdu 1 CacheReset 0
     (rtr_client_new\<lparr>session_id := Some 1, serial := Some 100, phase := AwaitingSerial\<rparr>))))) = SerialQuery 2 100"
  by (rule rtr_stale_serial) (simp_all add: rtr_client_new_def RTR_VERSION_MAX_def)

end
