(* ===== verification/Spec2Isabelle.thy ===== *)
theory Spec2Isabelle
  imports LR_Addr LR_LocRib LR_AdjRib LR_Timer LR_Fletcher LR_Roa LR_BestPath LR_BfdRun LR_OspfRoutes LR_Babel
    LR_OspfElect LR_Policy LR_Advertise LR_Rtr
begin

text \<open>
  A verification development for librouting, a routing-protocol library in Rust that does no input or
  output of its own: callers feed it bytes and clock readings and collect bytes and events.

  \<^bold>\<open>Parts of the program.\<close>  \<open>lr-core\<close> holds addresses, route types, byte buffers, timers and checksums.
  \<open>lr-rib\<close> holds the routing tables: routes learned from peers (Adj-RIB-In), the chosen routes (Loc-RIB),
  the routes offered to peers (Adj-RIB-Out), and the multiplexer over protocols.  \<open>lr-bgp\<close> fills them and
  sends them on: path attributes, the messages that carry them, the decision process that ranks routes, the rules
  for what a peer is sent, and route origin validation with the client that loads its data.  \<open>lr-policy\<close> filters and changes routes between the tables.
  \<open>lr-ospf\<close> forms adjacencies, elects designated routers, keeps
  a link-state database and computes shortest paths over it, \<open>lr-babel\<close> keeps one table of announced
  routes per neighbour; both hand their routes to the tables.  \<open>lr-mpls\<close> holds
  label stacks, \<open>lr-bfd\<close> the liveness sessions between neighbours, which use the timer queue and the
  buffers of \<open>lr-core\<close>.

  \<^bold>\<open>Theories and sources\<close> (paths under \<open>src/crates\<close>).

  \<^item> \<open>LR_Prelude\<close>: machine integers as words, byte order, bit lists, list comparison, the locales
    \<open>comparator\<close> and \<open>key_comparator\<close> of comparison functions.
  \<^item> \<open>LR_BTree\<close>: \<open>BTreeMap\<close> as an ascending entry list behind the locale \<open>finite_map\<close>.
  \<^item> \<open>LR_Addr\<close>: \<open>lr-core/src/addr.rs\<close>.  Masking and containment are stated on address bits; the
    byte-wise IPv6 code and the word-wise IPv4 code are shown to agree with them.
  \<^item> \<open>LR_RibTypes\<close>: \<open>lr-core/src/rib.rs\<close>, \<open>nlri.rs\<close>, \<open>attr.rs\<close>, with the derived orders.
  \<^item> \<open>LR_LocRib\<close>: \<open>lr-rib/src/loc_rib.rs\<close>, with the abstract table it refines.
  \<^item> \<open>LR_AdjRib\<close>: \<open>lr-rib/src/adj_rib_in.rs\<close>, \<open>adj_rib_out.rs\<close>, \<open>merging.rs\<close>, \<open>selection.rs\<close>.
  \<^item> \<open>LR_Timer\<close>: \<open>lr-core/src/timer.rs\<close> and the timer specifications of \<open>fsm.rs\<close>.
  \<^item> \<open>LR_Fletcher\<close>: \<open>lr-core/src/util/fletcher.rs\<close>.
  \<^item> \<open>LR_RoaTrie\<close>, \<open>LR_RoaTree\<close>, \<open>LR_RoaWalk\<close>: \<open>lr-bgp/src/roa_trie.rs\<close>, the arena, its abstract tree and
    the walk; \<open>LR_Roa\<close>: \<open>roa.rs\<close> and \<open>roa_store.rs\<close>; \<open>LR_Rtr\<close>: \<open>lr-bgp/src/rtr/pdu.rs\<close> and \<open>client.rs\<close>, which
    feed the store.
  \<^item> \<open>LR_AsPath\<close>, \<open>LR_Communities\<close>, \<open>LR_WellKnown\<close>, \<open>LR_PathAttr\<close>: \<open>lr-bgp/src/path\<close>, over the record
    codecs of \<open>LR_Codec\<close> (locales \<open>record_codec\<close> and \<open>exact_codec\<close>).
  \<^item> \<open>LR_Mpls\<close>: \<open>lr-mpls/src/lib.rs\<close>.
  \<^item> \<open>LR_MpNlri\<close>: \<open>lr-bgp/src/path/mp_nlri.rs\<close> and \<open>labeled_nlri.rs\<close>; \<open>LR_Role\<close>: \<open>lr-bgp/src/role\<close>;
    \<open>LR_BgpCodec\<close>: \<open>lr-bgp/src/message\<close> and \<open>codec.rs\<close>; \<open>LR_Advertise\<close>: \<open>lr-bgp/src/peer.rs\<close>, \<open>advertise.rs\<close> and
    \<open>send_msg\<close> of \<open>fsm.rs\<close>.
  \<^item> \<open>LR_Policy\<close>: \<open>lr-policy/src/prefix_list.rs\<close>, \<open>community_list.rs\<close>, \<open>as_path_filter.rs\<close>, \<open>action.rs\<close>, \<open>route_map.rs\<close>,
    \<open>policy.rs\<close> and the attribute accessors of \<open>bgp.rs\<close>.  The build feature \<open>bgp\<close> is an argument.
  \<^item> \<open>LR_BestPath\<close>: \<open>lr-bgp/src/best_path/mod.rs\<close>, with the locale \<open>prefix_comparator\<close> of a comparison
    that is lexicographic up to one of its steps.
  \<^item> \<open>LR_Buf\<close>: \<open>lr-core/src/buf.rs\<close>.
  \<^item> \<open>LR_BfdPacket\<close>: \<open>lr-bfd/src/packet.rs\<close>, \<open>auth.rs\<close>, \<open>keyed_auth.rs\<close>; \<open>LR_BfdSession\<close> and
    \<open>LR_BfdRun\<close>: \<open>session.rs\<close>.
  \<^item> \<open>LR_OspfLsa\<close>: \<open>lr-ospf/src/lsa/mod.rs\<close> and the body decoders of \<open>spf.rs\<close>; \<open>LR_OspfLsdb\<close>: \<open>lsdb.rs\<close>;
    \<open>LR_OspfSpf\<close>: \<open>run_spf\<close> of \<open>spf.rs\<close> with its loop invariant; \<open>LR_OspfRoutes\<close>: the routes it yields and
    \<open>summary_routes\<close>; \<open>LR_OspfElect\<close>: \<open>neighbor.rs\<close> and \<open>interface.rs\<close>.
  \<^item> \<open>LR_Babel\<close>: \<open>lr-babel/src/metric.rs\<close>, \<open>neighbor.rs\<close>, \<open>route.rs\<close>.

  A struct is a record, an enum a datatype, a method a function on the state that returns the new state
  with the result.  A fallible method returns an option or a sum with the error on the left.  Where the
  decoders index outside a slice, which aborts the program, the model returns an error that says so.

  \<^bold>\<open>What is shown.\<close>

  \<^item> Tables: every sequence of Loc-RIB operations implements the abstract table and change log; the bulk
    operations of the per-peer tables reach exactly the routes of one peer.
  \<^item> Origin validation: the trie lookup gives the verdict of RFC 6811 for every table and route, and the
    layered store publishes the union of its layers after any sequence of operations; a synchronisation of the
    RTR client brings it and the store to the data of the cache, and a broken one can make it ask for a wrong increment.
  \<^item> Decision process: with MED always compared or all candidates from one neighbouring AS, selection does not depend on
    the order of candidates of different peers, and picks the first of several paths of one peer that tie; it is
    least for the comparison steps before MED in every configuration; with the default configuration the
    result depends on the order of candidates, and an example shows it.
  \<^item> Codecs: round trips of AS paths, communities, typed and private attributes, multiprotocol attributes, RTR and BFD
    packets; a stream of BGP messages arrives as sent however it is cut into pieces; inputs on which the decoders of
    UPDATE messages, multiprotocol attributes and RTR panic; what the 4-octet label decoder accepts encodes to its input again.
  \<^item> Egress: what the UPDATE for a peer carries and when none is sent; reflection leaves the trace that breaks loops; what the two
    Only-To-Customer functions let pass between neighbours of any two roles (no session calls the ingress one).
  \<^item> Policy: the documented AS-path patterns match what they should; a chain is one route map; a build
    without BGP denies what it cannot apply; no evaluation changes the identity of a route.
  \<^item> Timers: \<open>tick\<close> fires the timetable of the armed timers, in every order the heap may choose, and does
    not return at the last representable instant once a periodic timer is armed.
  \<^item> Checksums: the OSPF checksum written into an LSA verifies, and a change of one byte is detected unless it is
    between 0 and 255.
  \<^item> BFD: an invariant of all runs of a session; the effect of an accepted packet; the replay window of
    keyed digests; two sessions reach Up from any pair of states other than AdminDown when their packets get through.
  \<^item> OSPF: the database holds the newest instance of each LSA among those that arrived after the last one at
    the maximal age, and an invariant of all its operations; \<open>run_spf\<close> returns the shortest distances of the graph of the
    database, exactly the routes that belong to them, and next hops on shortest paths; the inter-area
    routes are the cheapest announced; the election of the designated router converges, does not depend on the order of
    the routers, and an adjacency completes only after its steps.  Also shown: an old instance at the maximal age purges a newer one, refresh stops
    at sequence number -1, and a link in one direction is enough for a route.
  \<^item> Babel: the feasibility distance is the best pair announced, in any order of arrival; best routes
    and selected successors agree; expiry is exact; the round-trip measurement is independent of clock
    offsets, and the cost derived from it is bounded and monotone.

  \<^bold>\<open>Bounds and termination.\<close>  No definition uses fuel.  Loops are structural recursion or functions with a
  termination proof, except the loops of \<open>tick\<close>, of the ROA trie and of \<open>run_spf\<close>, which are partial functions into the
  option type; the trie loops are proved to return on every trie that \<open>build\<close> makes, \<open>session_tick\<close>
  on every reachable session, whose timers fire once, and \<open>run_spf\<close> on every database.  Three rounds suffice in the BFD liveness theorem
  because the reception table brings every pair of states other than AdminDown to Up within them.
  Words wrap around as in a release build; where the source has a saturating operation the model has it
  too.  Distances in \<open>run_spf\<close> are natural numbers, shown to stay below \<open>2 ^ 49\<close> and so within the 64 bits of
  the source.  The smoothed round-trip time is bounded for times below \<open>2 ^ 24\<close> microseconds, above which
  its weighted sum wraps.  The indices of the trie are natural numbers,
  with the conversion to 32 bits written out.

  \<^bold>\<open>Parameters.\<close>  MD5 and SHA-1 come from external crates: the BFD definitions take the digest function as
  an argument and the theorem on keyed digests assumes only the length of its results.

  \<^bold>\<open>Not modelled.\<close>  The packets and the database exchange of \<open>lr-ospf\<close>, its OSPFv3 and SRv6
  forms, the message codec and authentication of \<open>lr-babel\<close>, \<open>lr-ldp\<close>, \<open>lr-srv6\<close>, the filter language of \<open>lr-policy\<close>, the
  session machine of \<open>lr-bgp\<close>, its capabilities, link-state NLRI and exchange-plane feature, and \<open>lr-router\<close> are not
  modelled.  \<open>lr-damping\<close> computes in floating point, which is not formalised here.  \<open>lr-bmp\<close> and \<open>lr-mrt\<close>
  encode data of the modelled parts.  \<open>lr-osroute\<close>, \<open>lr-ffi\<close> and the command-line front end are input and
  output.  Display and Debug forms and plain getters are left out, as are IPv6 text and the text entry
  point of the ROA builder.
\<close>

end
